(* ===== verification/Cachex_Prelude.thy ===== *)
theory Cachex_Prelude
  imports Main "HOL-Library.AList"
begin

text \<open>
  Shared vocabulary of the CacheX development.

  \<^item> The types of the two clocks and of durations, with the C++ \<open>int64\<close> arithmetic the
    deadlines use (\<open>wrap64\<close>).
  \<^item> The result type of code that may run into undefined behaviour: a dangling iterator, an
    empty list asked for its last node. \<open>None\<close> is undefined behaviour, so every safety
    theorem is of the form "the operation returns \<open>Some\<close>".
  \<^item> Generic lemmas on association lists, \<open>take\<close> and \<open>filter\<close> that several components share.
  \<^item> The collections \<open>cx_def\<close> (definitions that are unfolded as a matter of course) and
    \<open>cx_inv\<close> (invariant preservation facts, used as introduction rules).
\<close>

named_theorems cx_def and cx_inv

section \<open>Time\<close>

text \<open>
  \<open>std::chrono::steady_clock\<close> counts nanoseconds and \<open>std::chrono::milliseconds\<close> counts
  milliseconds; both are 64-bit signed integers. They are modelled as \<^typ>\<open>int\<close>, with
  \<open>wrap64\<close> written out where the code adds or multiplies values it has not bounded. C++ leaves
  signed overflow undefined; \<open>wrap64\<close> is the two's complement result that the supported
  compilers produce. Theorems about deadlines carry a no-overflow hypothesis, so only the
  theorems that are explicitly about overflow depend on this choice.
\<close>

type_synonym time_ns = int
type_synonym duration_ms = int

definition wrap64 :: "int \<Rightarrow> int" where
  "wrap64 x = (x + 2 ^ 63) mod 2 ^ 64 - 2 ^ 63"

definition int64_range :: "int \<Rightarrow> bool" where
  "int64_range x \<longleftrightarrow> - (2 ^ 63) \<le> x \<and> x < 2 ^ 63"

lemma wrap64_id [simp]: "int64_range x \<Longrightarrow> wrap64 x = x"
  by (simp add: wrap64_def int64_range_def)

lemma wrap64_range [simp]: "int64_range (wrap64 x)"
proof -
  have "0 \<le> (x + 2 ^ 63) mod 2 ^ 64" "(x + 2 ^ 63) mod 2 ^ 64 < (2 ^ 64 :: int)"
    by simp_all
  then show ?thesis by (simp add: wrap64_def int64_range_def)
qed

text \<open>
  \<open>duration_cast\<close> from nanoseconds to milliseconds divides and truncates towards zero.
\<close>

definition ns_per_ms :: int where
  "ns_per_ms = 1000000"

definition duration_cast_ms :: "time_ns \<Rightarrow> duration_ms" where
  "duration_cast_ms d = (if 0 \<le> d then d div ns_per_ms else - ((- d) div ns_per_ms))"

lemma duration_cast_ms_bounds:
  assumes "0 \<le> d"
  shows "0 \<le> duration_cast_ms d"
    and "duration_cast_ms d * ns_per_ms \<le> d"
    and "d < (duration_cast_ms d + 1) * ns_per_ms"
proof -
  show "0 \<le> duration_cast_ms d"
    using assms by (simp add: duration_cast_ms_def ns_per_ms_def)
  show "duration_cast_ms d * ns_per_ms \<le> d"
    using assms by (simp add: duration_cast_ms_def ns_per_ms_def)
  have "d = ns_per_ms * (d div ns_per_ms) + d mod ns_per_ms"
    by simp
  moreover have "d mod ns_per_ms < ns_per_ms"
    by (simp add: ns_per_ms_def)
  ultimately have "d < ns_per_ms * (d div ns_per_ms) + ns_per_ms"
    by linarith
  then show "d < (duration_cast_ms d + 1) * ns_per_ms"
    using assms by (simp add: duration_cast_ms_def distrib_right mult.commute [of ns_per_ms])
qed

lemma duration_cast_ms_mult [simp]: "0 \<le> m \<Longrightarrow> duration_cast_ms (m * ns_per_ms) = m"
  by (simp add: duration_cast_ms_def ns_per_ms_def)

section \<open>Possibly undefined results\<close>

type_synonym 'a defined = "'a option"

section \<open>Characters the protocols name\<close>

abbreviation LF :: char where "LF \<equiv> CHR 0x0A"
abbreviation CR :: char where "CR \<equiv> CHR 0x0D"
abbreviation SP :: char where "SP \<equiv> CHR 0x20"
abbreviation TAB :: char where "TAB \<equiv> CHR 0x09"

section \<open>Association lists\<close>

lemma alist_delete_filter: "AList.delete k xs = filter (\<lambda>p. fst p \<noteq> k) xs"
  by (auto simp: AList.delete_eq intro: filter_cong)

lemma map_of_Some_fst: "map_of xs k = Some v \<Longrightarrow> k \<in> fst ` set xs"
  by (metis domI dom_map_of_conv_image_fst)

lemma length_alist_delete:
  assumes "distinct (map fst xs)" and "map_of xs k = Some v"
  shows "length xs = Suc (length (AList.delete k xs))"
  using assms
proof (induction xs)
  case Nil
  then show ?case by simp
next
  case (Cons p xs)
  show ?case
  proof (cases "fst p = k")
    case True
    with Cons.prems(1) have "AList.delete k xs = xs"
      by (intro delete_id) (auto simp: dom_map_of_conv_image_fst)
    with True show ?thesis by (cases p) simp
  next
    case False
    with Cons show ?thesis by (cases p) auto
  qed
qed

lemma set_alist_delete:
  "distinct (map fst xs) \<Longrightarrow> map_of xs k = Some v \<Longrightarrow> set (AList.delete k xs) = set xs - {(k, v)}"
  by (auto simp: alist_delete_filter dest: map_of_SomeD eq_key_imp_eq_value)

lemma alist_delete_absent: "k \<notin> fst ` set xs \<Longrightarrow> AList.delete k xs = xs"
  by (simp add: alist_delete_filter filter_id_conv image_iff) force

lemma distinct_alist_delete [simp]: "distinct (map fst xs) \<Longrightarrow> distinct (map fst (AList.delete k xs))"
  by (simp add: distinct_delete)

section \<open>Truncation\<close>

fun take_cap :: "nat option \<Rightarrow> 'a list \<Rightarrow> 'a list" where
  "take_cap None xs = xs"
| "take_cap (Some n) xs = take n xs"

definition within_cap :: "nat option \<Rightarrow> nat \<Rightarrow> bool" where
  "within_cap cap n \<longleftrightarrow> (case cap of None \<Rightarrow> True | Some m \<Rightarrow> n \<le> m)"

lemma within_cap_simps [simp]:
  "within_cap None n" "within_cap (Some m) n \<longleftrightarrow> n \<le> m"
  by (simp_all add: within_cap_def)

lemma within_cap_mono: "within_cap cap n \<Longrightarrow> m \<le> n \<Longrightarrow> within_cap cap m"
  by (cases cap) auto

lemma take_cap_id [simp]: "within_cap cap (length xs) \<Longrightarrow> take_cap cap xs = xs"
  by (cases cap) auto

lemma within_take_cap [simp]: "within_cap cap (length (take_cap cap xs))"
  by (cases cap) auto

lemma set_take_cap: "set (take_cap cap xs) \<subseteq> set xs"
  by (cases cap) (auto dest: in_set_takeD)

lemma take_cap_map: "take_cap cap (map f xs) = map f (take_cap cap xs)"
  by (cases cap) (auto simp: take_map)

lemma distinct_take_cap [simp]: "distinct xs \<Longrightarrow> distinct (take_cap cap xs)"
  by (cases cap) auto

section \<open>Erasing a position of a list\<close>

definition drop_nth :: "nat \<Rightarrow> 'a list \<Rightarrow> 'a list" where
  "drop_nth i xs = take i xs @ drop (Suc i) xs"

lemma set_drop_nth: "set (drop_nth i xs) \<subseteq> set xs"
  by (auto simp: drop_nth_def dest: in_set_takeD in_set_dropD)

lemma map_drop_nth: "map f (drop_nth i xs) = drop_nth i (map f xs)"
  by (simp add: drop_nth_def take_map drop_map)

lemma distinct_drop_nth: "distinct xs \<Longrightarrow> distinct (drop_nth i xs)"
  by (simp add: drop_nth_def set_take_disj_set_drop_if_distinct)

lemma drop_nth_gone:
  assumes "distinct xs" and "i < length xs"
  shows "xs ! i \<notin> set (drop_nth i xs)"
proof -
  have "distinct (take i xs @ xs ! i # drop (Suc i) xs)"
    using assms(1) by (simp only: id_take_nth_drop [OF assms(2), symmetric])
  then show ?thesis by (auto simp: drop_nth_def)
qed

lemma drop_nth_single [simp]: "drop_nth 0 [x] = []"
  by (simp add: drop_nth_def)

lemma set_drop_nth_eq:
  assumes "distinct xs" and "i < length xs"
  shows "set (drop_nth i xs) = set xs - {xs ! i}"
proof -
  have "set xs = insert (xs ! i) (set (drop_nth i xs))"
    using arg_cong [OF id_take_nth_drop [OF assms(2)], of set] by (simp add: drop_nth_def)
  with drop_nth_gone [OF assms] show ?thesis by auto
qed

lemma length_drop_nth: "i < length xs \<Longrightarrow> length (drop_nth i xs) = length xs - 1"
  by (simp add: drop_nth_def min_def)

lemma sum_map_update:
  "i < length xs \<Longrightarrow> sum_list (map f (xs[i := x])) + f (xs ! i) = sum_list (map f xs) + f x" for f :: "'a \<Rightarrow> nat"
  by (induction xs arbitrary: i) (auto split: nat.splits simp: nth_Cons')

lemma sum_map_update_Suc:
  "i < length xs \<Longrightarrow> f (xs ! i) = Suc (f x) \<Longrightarrow> sum_list (map f xs) = Suc (sum_list (map f (xs[i := x])))" for f :: "'a \<Rightarrow> nat"
  using sum_map_update [of i xs f x] by simp

lemma filter_update:
  "i < length xs \<Longrightarrow> length (filter P (xs[i := x])) + (if P (xs ! i) then 1 else 0) =
     length (filter P xs) + (if P x then 1 else 0)"
proof (induction xs arbitrary: i)
  case (Cons y ys)
  then show ?case by (cases i) auto
qed simp

section \<open>Runs of operations and their refinement\<close>

text \<open>
  A run applies a list of operations one after the other and collects their results. The
  concrete run stops at the first undefined step; the specification's step is total.
\<close>

fun run_defined :: "('op \<Rightarrow> 'c \<Rightarrow> ('c \<times> 'r) defined) \<Rightarrow> 'op list \<Rightarrow> 'c \<Rightarrow> ('c \<times> 'r list) defined" where
  "run_defined step [] c = Some (c, [])"
| "run_defined step (x # xs) c =
     (case step x c of
        None \<Rightarrow> None
      | Some (c', r) \<Rightarrow> map_option (\<lambda>(d, rs). (d, r # rs)) (run_defined step xs c'))"

fun run_spec :: "('op \<Rightarrow> 'a \<Rightarrow> 'a \<times> 'r) \<Rightarrow> 'op list \<Rightarrow> 'a \<Rightarrow> 'a \<times> 'r list" where
  "run_spec step [] a = (a, [])"
| "run_spec step (x # xs) a =
     (case step x a of (b, r) \<Rightarrow> (case run_spec step xs b of (d, rs) \<Rightarrow> (d, r # rs)))"

lemma run_spec_append:
  "run_spec step (xs @ ys) a =
     (case run_spec step xs a of (b, rs) \<Rightarrow>
        (case run_spec step ys b of (d, rs') \<Rightarrow> (d, rs @ rs')))"
  by (induction xs arbitrary: a) (auto split: prod.splits)

lemma run_spec_invariant:
  assumes "\<And>x a. P a \<Longrightarrow> P (fst (step x a))" and "P a"
  shows "P (fst (run_spec step xs a))"
  using assms(2)
proof (induction xs arbitrary: a)
  case (Cons x xs)
  obtain b r where b: "step x a = (b, r)" by fastforce
  with assms(1) [OF Cons.prems, of x] have "P b" by simp
  then have "P (fst (run_spec step xs b))" by (rule Cons.IH)
  with b show ?case by (auto split: prod.splits)
qed simp

text \<open>
  The contract of a component that implements a total specification: from every state that
  satisfies the invariant each operation is defined, keeps the invariant and answers as the
  specification does on the abstract state.
\<close>

locale defined_refinement =
  fixes step :: "'op \<Rightarrow> 'c \<Rightarrow> ('c \<times> 'r) option"
    and spec :: "'op \<Rightarrow> 'a \<Rightarrow> 'a \<times> 'r"
    and abst :: "'c \<Rightarrow> 'a"
    and inv :: "'c \<Rightarrow> bool"
  assumes step_refines:
    "inv c \<Longrightarrow> \<exists>c' r. step x c = Some (c', r) \<and> inv c' \<and> spec x (abst c) = (abst c', r)"
begin

lemma run_refines:
  "inv c \<Longrightarrow> \<exists>c' rs. run_defined step xs c = Some (c', rs) \<and> inv c' \<and>
     run_spec spec xs (abst c) = (abst c', rs)"
proof (induction xs arbitrary: c)
  case Nil
  then show ?case by simp
next
  case (Cons x xs)
  from step_refines [OF Cons.prems, of x] obtain d r
    where d: "step x c = Some (d, r)" "inv d" "spec x (abst c) = (abst d, r)" by blast
  from Cons.IH [OF d(2)] obtain c' rs
    where "run_defined step xs d = Some (c', rs)" "inv c'" "run_spec spec xs (abst d) = (abst c', rs)"
    by blast
  with d show ?case by simp
qed

end


section \<open>Step relations\<close>

text \<open>The contract of an inductive invariant, for the machines that interleave threads.\<close>

locale step_invariant =
  fixes step :: "'s \<Rightarrow> 's \<Rightarrow> bool"
    and inv :: "'s \<Rightarrow> bool"
  assumes step_inv: "inv s \<Longrightarrow> step s t \<Longrightarrow> inv t"
begin

lemma reach_inv: "step\<^sup>*\<^sup>* s t \<Longrightarrow> inv s \<Longrightarrow> inv t"
  by (induction rule: rtranclp_induct) (auto intro: step_inv)

end

text \<open>
  A machine whose every step is matched by steps of another, possibly none: then so is every run.
\<close>

locale simulation =
  fixes step :: "'c \<Rightarrow> 'c \<Rightarrow> bool"
    and spec :: "'a \<Rightarrow> 'a \<Rightarrow> bool"
    and match :: "'c \<Rightarrow> 'a \<Rightarrow> bool"
  assumes step_matched: "match c a \<Longrightarrow> step c c' \<Longrightarrow> \<exists>a'. spec\<^sup>*\<^sup>* a a' \<and> match c' a'"
begin

lemma run_matched: "step\<^sup>*\<^sup>* c c' \<Longrightarrow> match c a \<Longrightarrow> \<exists>a'. spec\<^sup>*\<^sup>* a a' \<and> match c' a'"
proof (induction rule: rtranclp_induct)
  case (step y z)
  then obtain b where "spec\<^sup>*\<^sup>* a b" "match y b" by blast
  with step_matched [OF this(2) step(2)] show ?case by (blast intro: rtranclp_trans)
qed auto

end

end
