(* ===== verification/Decimal.thy ===== *)
theory Decimal
  imports Cachex_Prelude
begin

text \<open>
  Decimal numbers as the C++ standard library prints and reads them: \<open>std::to_string\<close> (and
  \<open>operator<<\<close>) for integers, \<open>std::from_chars\<close> for signed and unsigned 64-bit targets. Reading
  back what was printed is the identity, whatever non-digit follows.
\<close>

section \<open>Digits\<close>

definition digit_char :: "nat \<Rightarrow> char" where
  "digit_char d = char_of (48 + d)"

definition is_digit :: "char \<Rightarrow> bool" where
  "is_digit c \<longleftrightarrow> 48 \<le> (of_char c :: nat) \<and> (of_char c :: nat) \<le> 57"

definition digit_val :: "char \<Rightarrow> nat" where
  "digit_val c = of_char c - 48"

fun digits_val :: "nat \<Rightarrow> string \<Rightarrow> nat" where
  "digits_val acc [] = acc"
| "digits_val acc (c # cs) = digits_val (10 * acc + digit_val c) cs"

lemma digit_chars:
  "digit_char 0 = CHR ''0''" "digit_char 1 = CHR ''1''" "digit_char 2 = CHR ''2''" "digit_char 3 = CHR ''3''"
  "digit_char 4 = CHR ''4''" "digit_char 5 = CHR ''5''" "digit_char 6 = CHR ''6''" "digit_char 7 = CHR ''7''"
  "digit_char 8 = CHR ''8''" "digit_char 9 = CHR ''9''"
  by code_simp+

lemma of_char_digit [simp]: "d < 10 \<Longrightarrow> of_char (digit_char d) = (48 + d :: nat)"
  by (simp add: digit_char_def of_char_of)

lemma is_digit_digit [simp]: "d < 10 \<Longrightarrow> is_digit (digit_char d)"
  by (simp add: is_digit_def)

lemma digit_val_digit [simp]: "d < 10 \<Longrightarrow> digit_val (digit_char d) = d"
  by (simp add: digit_val_def)

lemma digits_val_append [simp]: "digits_val acc (xs @ ys) = digits_val (digits_val acc xs) ys"
  by (induction acc xs rule: digits_val.induct) simp_all

section \<open>\<open>std::to_string\<close>\<close>

fun to_string_nat :: "nat \<Rightarrow> string" where
  "to_string_nat n =
     (if n < 10 then [digit_char n] else to_string_nat (n div 10) @ [digit_char (n mod 10)])"

declare to_string_nat.simps [simp del]

definition to_string :: "int \<Rightarrow> string" where
  "to_string i = (if i < 0 then CHR ''-'' # to_string_nat (nat (- i)) else to_string_nat (nat i))"

lemma to_string_nat_digits: "list_all is_digit (to_string_nat n)"
  by (induction n rule: to_string_nat.induct) (subst to_string_nat.simps, simp)

lemma to_string_nat_nonempty [simp]: "to_string_nat n \<noteq> []"
  by (subst to_string_nat.simps) simp

lemma digits_val_to_string_nat [simp]: "digits_val 0 (to_string_nat n) = n"
proof (induction n rule: to_string_nat.induct)
  case (1 n)
  then show ?case by (subst to_string_nat.simps) auto
qed

lemma length_to_string_nat: "n < 10 ^ k \<Longrightarrow> 0 < k \<Longrightarrow> length (to_string_nat n) \<le> k"
proof (induction k arbitrary: n)
  case (Suc k)
  show ?case
  proof (cases "n < 10")
    case False
    with Suc.prems have "n div 10 < 10 ^ k" "0 < k" by (auto intro: ccontr)
    from Suc.IH [OF this] False show ?thesis by (subst to_string_nat.simps) simp
  qed (subst to_string_nat.simps, simp)
qed simp

lemma to_string_nat_inj [simp]: "to_string_nat m = to_string_nat n \<longleftrightarrow> m = n"
  by (metis digits_val_to_string_nat)

lemma is_digit_minus [simp]: "\<not> is_digit CHR ''-''"
  by (simp add: is_digit_def)

lemma is_digit_plus [simp]: "\<not> is_digit CHR ''+''"
  by (simp add: is_digit_def)

lemma to_string_nat_hd [simp]: "is_digit (hd (to_string_nat n))"
  using to_string_nat_digits [of n] by (cases "to_string_nat n") (auto simp: to_string_nat_nonempty)

lemmas to_string_eval = to_string_def to_string_nat.simps digit_chars digit_chars(2) [unfolded One_nat_def]

section \<open>\<open>std::from_chars\<close>\<close>

text \<open>
  An optional minus sign (signed targets only), then the longest run of digits. No match is
  \<open>invalid_argument\<close>; a number outside the target's range is \<open>result_out_of_range\<close>; otherwise
  the number and what is left of the input. No whitespace and no plus sign is skipped.
\<close>

datatype from_chars_result = FcOk int string | FcInvalid | FcOutOfRange string

definition from_chars_digits :: "(nat \<Rightarrow> int) \<Rightarrow> int \<Rightarrow> int \<Rightarrow> string \<Rightarrow> from_chars_result" where
  "from_chars_digits sign lo hi text =
     (let ds = takeWhile is_digit text; rest = dropWhile is_digit text; v = sign (digits_val 0 ds)
      in if ds = [] then FcInvalid else if lo \<le> v \<and> v \<le> hi then FcOk v rest else FcOutOfRange rest)"

definition from_chars_signed :: "int \<Rightarrow> int \<Rightarrow> string \<Rightarrow> from_chars_result" where
  "from_chars_signed lo hi text =
     (case text of
        CHR ''-'' # body \<Rightarrow> from_chars_digits (\<lambda>n. - int n) lo hi body
      | _ \<Rightarrow> from_chars_digits int lo hi text)"

definition from_chars_unsigned :: "int \<Rightarrow> string \<Rightarrow> from_chars_result" where
  "from_chars_unsigned hi text = from_chars_digits int 0 hi text"

abbreviation int64_min :: int where "int64_min \<equiv> - (2 ^ 63)"
abbreviation int64_max :: int where "int64_max \<equiv> 2 ^ 63 - 1"
abbreviation uint64_max :: int where "uint64_max \<equiv> 2 ^ 64 - 1"

definition ends_number :: "string \<Rightarrow> bool" where
  "ends_number rest \<longleftrightarrow> rest = [] \<or> \<not> is_digit (hd rest)"

lemma span_number:
  assumes "ends_number rest"
  shows "takeWhile is_digit (to_string_nat n @ rest) = to_string_nat n"
    and "dropWhile is_digit (to_string_nat n @ rest) = rest"
proof -
  have "\<forall>c \<in> set (to_string_nat n). is_digit c" using to_string_nat_digits by (simp add: list_all_iff)
  moreover have "takeWhile is_digit rest = []" "dropWhile is_digit rest = rest"
    using assms by (cases rest; simp add: ends_number_def)+
  ultimately show "takeWhile is_digit (to_string_nat n @ rest) = to_string_nat n"
    "dropWhile is_digit (to_string_nat n @ rest) = rest"
    by (simp_all add: takeWhile_append2 dropWhile_append2)
qed

lemma from_chars_print:
  assumes "ends_number rest" and "lo \<le> sign n" and "sign n \<le> hi"
  shows "from_chars_digits sign lo hi (to_string_nat n @ rest) = FcOk (sign n) rest"
  using assms span_number [OF assms(1), of n] by (simp add: from_chars_digits_def)

lemma from_chars_signed_nat:
  "from_chars_signed lo hi (to_string_nat n @ rest) = from_chars_digits int lo hi (to_string_nat n @ rest)"
proof -
  obtain c cs where c: "to_string_nat n = c # cs" by (cases "to_string_nat n") auto
  with to_string_nat_hd [of n] have "c \<noteq> CHR ''-''" by auto
  with c show ?thesis by (simp add: from_chars_signed_def split: char.splits bool.splits)
qed

lemma from_chars_to_string:
  assumes "lo \<le> i" and "i \<le> hi" and "ends_number rest"
  shows "from_chars_signed lo hi (to_string i @ rest) = FcOk i rest"
proof (cases "i < 0")
  case True
  with from_chars_print [OF assms(3), of lo "\<lambda>n. - int n" "nat (- i)" hi] assms show ?thesis
    by (simp add: to_string_def from_chars_signed_def)
next
  case False
  with from_chars_print [OF assms(3), of lo int "nat i" hi] assms show ?thesis
    by (simp add: to_string_def from_chars_signed_nat)
qed

lemma from_chars_unsigned_print:
  assumes "int n \<le> hi" and "ends_number rest"
  shows "from_chars_unsigned hi (to_string_nat n @ rest) = FcOk (int n) rest"
  using from_chars_print [OF assms(2), of 0 int n hi] assms(1) by (simp add: from_chars_unsigned_def)

text \<open>What a complete match looks like.\<close>

lemma from_chars_digits_complete:
  "from_chars_digits sign lo hi text = FcOk v [] \<Longrightarrow>
     text \<noteq> [] \<and> list_all is_digit text \<and> v = sign (digits_val 0 text) \<and> lo \<le> v \<and> v \<le> hi"
  by (auto simp: from_chars_digits_def Let_def list_all_iff dropWhile_eq_Nil_conv split: if_splits)
    (metis takeWhile_eq_all_conv)

end
