(* ===== verification/Protocol.thy ===== *)
theory Protocol
  imports Decimal
begin

text \<open>
  The text protocol (\<open>include/cachex/protocol.hpp\<close>, \<open>src/net/protocol.cpp\<close>): splitting a request
  line into tokens, parsing it into a command or an error message, and formatting replies.
\<close>

section \<open>Commands\<close>

abbreviation SQ :: char where "SQ \<equiv> CHR 0x27"

definition kMaxLineBytes :: nat where
  "kMaxLineBytes = 64 * 1024"

definition kMaxTtlSeconds :: int where
  "kMaxTtlSeconds = 315360000"

datatype command_type = CSet | CGet | CDelete | CExists | CTtl | CPing | CSave | CLoad | CQuit

record command =
  cmd_type :: command_type
  cmd_key :: string
  cmd_value :: string
  cmd_ttl :: "int option"

definition fresh_command :: command where
  "fresh_command = \<lparr>cmd_type = CPing, cmd_key = [], cmd_value = [], cmd_ttl = None\<rparr>"

record parse_result =
  pr_ok :: bool
  pr_command :: command
  pr_error :: string

section \<open>Parsing\<close>

definition is_separator :: "char \<Rightarrow> bool" where
  "is_separator c \<longleftrightarrow> c = SP \<or> c = TAB"

lemma dropWhile_shorter: "xs \<noteq> [] \<Longrightarrow> P (hd xs) \<Longrightarrow> length (dropWhile P xs) < length xs"
  by (cases xs) (simp_all add: length_dropWhile_le less_Suc_eq_le)

text \<open>The view \<open>line\<close> stands for what is left from index \<open>i\<close> on.\<close>

function tokenize :: "string \<Rightarrow> string list" where
  "tokenize line =
     (let rest = dropWhile is_separator line
      in if rest = [] then []
         else takeWhile (\<lambda>c. \<not> is_separator c) rest # tokenize (dropWhile (\<lambda>c. \<not> is_separator c) rest))"
  by auto
termination
proof (relation "measure length")
  fix line :: string and rest
  assume r: "rest = dropWhile is_separator line" "rest \<noteq> []"
  then have "\<not> is_separator (hd rest)" using hd_dropWhile by blast
  from dropWhile_shorter [OF r(2), of "\<lambda>c. \<not> is_separator c", OF this] r show "(dropWhile (\<lambda>c. \<not> is_separator c) rest, line) \<in> measure length"
    using length_dropWhile_le [of is_separator line] by simp
qed simp

declare tokenize.simps [simp del]

definition upper_char :: "char \<Rightarrow> char" where
  "upper_char c =
     (let n = (of_char c :: nat) in if 97 \<le> n \<and> n \<le> 122 then char_of (n - 97 + 65) else c)"

definition to_upper :: "string \<Rightarrow> string" where
  "to_upper s = map upper_char s"

definition fail :: "string \<Rightarrow> parse_result" where
  "fail message = \<lparr>pr_ok = False, pr_command = fresh_command, pr_error = message\<rparr>"

definition succeed :: "command \<Rightarrow> parse_result" where
  "succeed c = \<lparr>pr_ok = True, pr_command = c, pr_error = []\<rparr>"

definition kMaxEcho :: nat where
  "kMaxEcho = 32"

definition quoted :: "string \<Rightarrow> string" where
  "quoted s = [SQ] @ take kMaxEcho s @ (if kMaxEcho < length s then ''...'' else []) @ [SQ]"

definition parse_integer :: "string \<Rightarrow> int option" where
  "parse_integer s =
     (if s = [] then None
      else case from_chars_signed int64_min int64_max s of FcOk v [] \<Rightarrow> Some v | _ \<Rightarrow> None)"

definition parse_key_only :: "command_type \<Rightarrow> string \<Rightarrow> string list \<Rightarrow> parse_result" where
  "parse_key_only type name tokens =
     (if length tokens \<noteq> 2
      then fail (''wrong number of arguments for '' @ [SQ] @ name @ [SQ] @ '' (expected '' @ [SQ] @ name @
        '' key'' @ [SQ] @ '')'')
      else succeed (fresh_command\<lparr>cmd_type := type, cmd_key := tokens ! 1\<rparr>))"

definition parse_no_args :: "command_type \<Rightarrow> string \<Rightarrow> string list \<Rightarrow> parse_result" where
  "parse_no_args type name tokens =
     (if length tokens \<noteq> 1
      then fail (''wrong number of arguments for '' @ [SQ] @ name @ [SQ] @ '' (expected '' @ [SQ] @ name @
        [SQ] @ '')'')
      else succeed (fresh_command\<lparr>cmd_type := type\<rparr>))"

definition parse_set :: "string list \<Rightarrow> parse_result" where
  "parse_set tokens =
     (if length tokens < 3 \<or> 4 < length tokens
      then fail (''wrong number of arguments for '' @ [SQ] @ ''SET'' @ [SQ] @ '' (expected '' @ [SQ] @
        ''SET key value [ttl_seconds]'' @ [SQ] @ '')'')
      else
        let command = fresh_command\<lparr>cmd_type := CSet, cmd_key := tokens ! 1, cmd_value := tokens ! 2\<rparr>
        in if length tokens = 4
           then case parse_integer (tokens ! 3) of
                  None \<Rightarrow> fail (''invalid TTL '' @ quoted (tokens ! 3) @ '' (expected a whole number of seconds)'')
                | Some seconds \<Rightarrow>
                    if seconds < 0 then fail ''TTL must not be negative''
                    else if seconds > kMaxTtlSeconds
                    then fail (''TTL too large (maximum '' @ to_string kMaxTtlSeconds @ '' seconds)'')
                    else succeed (command\<lparr>cmd_ttl := Some seconds\<rparr>)
           else succeed command)"

definition parse_verb :: "string \<Rightarrow> string list \<Rightarrow> parse_result" where
  "parse_verb verb tokens =
     (if verb = ''SET'' then parse_set tokens
      else if verb = ''GET'' then parse_key_only CGet ''GET'' tokens
      else if verb = ''DELETE'' \<or> verb = ''DEL'' then parse_key_only CDelete ''DELETE'' tokens
      else if verb = ''EXISTS'' then parse_key_only CExists ''EXISTS'' tokens
      else if verb = ''TTL'' then parse_key_only CTtl ''TTL'' tokens
      else if verb = ''PING'' then parse_no_args CPing ''PING'' tokens
      else if verb = ''SAVE'' then parse_no_args CSave ''SAVE'' tokens
      else if verb = ''LOAD'' then parse_no_args CLoad ''LOAD'' tokens
      else if verb = ''QUIT'' then parse_no_args CQuit ''QUIT'' tokens
      else fail (''unknown command '' @ quoted (tokens ! 0)))"

definition parse_command :: "string \<Rightarrow> parse_result" where
  "parse_command line =
     (let tokens = tokenize line
      in if tokens = [] then fail ''empty command'' else parse_verb (to_upper (tokens ! 0)) tokens)"

fun command_name :: "command_type \<Rightarrow> string" where
  "command_name CSet = ''SET''"
| "command_name CGet = ''GET''"
| "command_name CDelete = ''DELETE''"
| "command_name CExists = ''EXISTS''"
| "command_name CTtl = ''TTL''"
| "command_name CPing = ''PING''"
| "command_name CSave = ''SAVE''"
| "command_name CLoad = ''LOAD''"
| "command_name CQuit = ''QUIT''"

section \<open>Replies\<close>

definition reply_ok :: string where "reply_ok = ''+OK'' @ [LF]"
definition reply_pong :: string where "reply_pong = ''+PONG'' @ [LF]"
definition reply_bye :: string where "reply_bye = ''+BYE'' @ [LF]"
definition reply_no_expiry :: string where "reply_no_expiry = ''+NOEXPIRE'' @ [LF]"
definition reply_value :: "string \<Rightarrow> string" where "reply_value v = ''='' @ v @ [LF]"
definition reply_nil :: string where "reply_nil = ''_'' @ [LF]"
definition reply_integer :: "int \<Rightarrow> string" where "reply_integer n = '':'' @ to_string n @ [LF]"
definition reply_error :: "string \<Rightarrow> string" where "reply_error message = ''-ERR '' @ message @ [LF]"

lemmas reply_defs = reply_ok_def reply_pong_def reply_bye_def reply_no_expiry_def reply_value_def
  reply_nil_def reply_integer_def reply_error_def

section \<open>Tokens\<close>

definition is_token :: "string \<Rightarrow> bool" where
  "is_token t \<longleftrightarrow> t \<noteq> [] \<and> list_all (\<lambda>c. \<not> is_separator c) t"

lemma tokenize_tokens: "t \<in> set (tokenize line) \<Longrightarrow> is_token t"
proof (induction line rule: tokenize.induct)
  case (1 line)
  let ?rest = "dropWhile is_separator line"
  have "is_token (takeWhile (\<lambda>c. \<not> is_separator c) ?rest)" if "?rest \<noteq> []"
    using that hd_dropWhile [of is_separator line]
    by (cases ?rest) (auto simp: is_token_def list_all_iff dest: set_takeWhileD)
  with 1 show ?case by (subst (asm) (2) tokenize.simps) (auto simp: Let_def split: if_splits)
qed

lemma tokenize_chars: "t \<in> set (tokenize line) \<Longrightarrow> set t \<subseteq> set line"
proof (induction line rule: tokenize.induct)
  case (1 line)
  have "set (dropWhile is_separator line) \<subseteq> set line" by (auto dest: set_dropWhileD)
  with 1 show ?case
    by (subst (asm) (2) tokenize.simps)
      (auto simp: Let_def split: if_splits dest!: set_takeWhileD set_dropWhileD; blast dest: set_dropWhileD)
qed

lemma tokenize_separators: "list_all is_separator s \<Longrightarrow> tokenize (s @ line) = tokenize line"
  by (subst (1 2) tokenize.simps) (simp add: dropWhile_append2 list_all_iff)

lemma tokenize_nil [simp]: "tokenize [] = []"
  by (subst tokenize.simps) simp

definition starts_separated :: "string \<Rightarrow> bool" where
  "starts_separated line \<longleftrightarrow> line = [] \<or> is_separator (hd line)"

lemma tokenize_token:
  assumes "is_token t" and "starts_separated line"
  shows "tokenize (t @ line) = t # tokenize line"
proof -
  have d: "dropWhile is_separator (t @ line) = t @ line"
    using assms(1) by (cases t) (auto simp: is_token_def)
  have t: "\<forall>c \<in> set t. \<not> is_separator c" using assms(1) by (simp add: is_token_def list_all_iff)
  have "takeWhile (\<lambda>c. \<not> is_separator c) line = []" "dropWhile (\<lambda>c. \<not> is_separator c) line = line"
    using assms(2) by (cases line; simp add: starts_separated_def)+
  with t have "takeWhile (\<lambda>c. \<not> is_separator c) (t @ line) = t"
    "dropWhile (\<lambda>c. \<not> is_separator c) (t @ line) = line"
    by (simp_all add: takeWhile_append2 dropWhile_append2)
  with d assms(1) show ?thesis by (subst tokenize.simps) (simp add: is_token_def)
qed

text \<open>Tokens joined by any separators come apart again.\<close>

fun join :: "(string \<times> string) list \<Rightarrow> string" where
  "join [] = []"
| "join ((sep, t) # ts) = sep @ t @ join ts"

lemma tokenize_join:
  assumes "list_all (\<lambda>(sep, t). sep \<noteq> [] \<and> list_all is_separator sep \<and> is_token t) ts"
    and "list_all is_separator trail"
  shows "tokenize (join ts @ trail) = map snd ts \<and> starts_separated (join ts @ trail)"
  using assms
proof (induction ts)
  case Nil
  then show ?case using tokenize_separators [of trail "[]"]
    by (cases trail) (auto simp: starts_separated_def)
next
  case (Cons p ts)
  obtain sep t where p: "p = (sep, t)" by fastforce
  with Cons have "tokenize (join ts @ trail) = map snd ts" "starts_separated (join ts @ trail)" by auto
  with Cons.prems p show ?case
    by (auto simp: tokenize_separators tokenize_token starts_separated_def hd_append list_all_iff)
qed

lemma to_upper_no_lower [simp]:
  "to_upper ''SET'' = ''SET''" "to_upper ''GET'' = ''GET''" "to_upper ''DELETE'' = ''DELETE''"
  "to_upper ''EXISTS'' = ''EXISTS''" "to_upper ''TTL'' = ''TTL''" "to_upper ''PING'' = ''PING''"
  "to_upper ''SAVE'' = ''SAVE''" "to_upper ''LOAD'' = ''LOAD''" "to_upper ''QUIT'' = ''QUIT''"
  by (simp_all add: to_upper_def upper_char_def Let_def)

end
