(* ===== verification/Protocol_Properties.thy ===== *)
theory Protocol_Properties
  imports Protocol
begin

text \<open>
  What the request parser promises: every line is either a well-formed command or a short
  single-line error, and every well-formed command can be written as a line that parses back to it.
\<close>

section \<open>Accepted lines\<close>

fun well_formed_args :: "command_type \<Rightarrow> string \<Rightarrow> string \<Rightarrow> int option \<Rightarrow> bool" where
  "well_formed_args CSet k v ttl \<longleftrightarrow>
     is_token k \<and> is_token v \<and> (case ttl of None \<Rightarrow> True | Some s \<Rightarrow> 0 \<le> s \<and> s \<le> kMaxTtlSeconds)"
| "well_formed_args CGet k v ttl \<longleftrightarrow> is_token k \<and> v = [] \<and> ttl = None"
| "well_formed_args CDelete k v ttl \<longleftrightarrow> is_token k \<and> v = [] \<and> ttl = None"
| "well_formed_args CExists k v ttl \<longleftrightarrow> is_token k \<and> v = [] \<and> ttl = None"
| "well_formed_args CTtl k v ttl \<longleftrightarrow> is_token k \<and> v = [] \<and> ttl = None"
| "well_formed_args CPing k v ttl \<longleftrightarrow> k = [] \<and> v = [] \<and> ttl = None"
| "well_formed_args CSave k v ttl \<longleftrightarrow> k = [] \<and> v = [] \<and> ttl = None"
| "well_formed_args CLoad k v ttl \<longleftrightarrow> k = [] \<and> v = [] \<and> ttl = None"
| "well_formed_args CQuit k v ttl \<longleftrightarrow> k = [] \<and> v = [] \<and> ttl = None"

definition well_formed_command :: "command \<Rightarrow> bool" where
  "well_formed_command c \<longleftrightarrow> well_formed_args (cmd_type c) (cmd_key c) (cmd_value c) (cmd_ttl c)"

lemma parse_results [simp]:
  "pr_ok (succeed c)" "\<not> pr_ok (fail e)" "pr_command (succeed c) = c" "pr_error (fail e) = e"
  by (simp_all add: succeed_def fail_def)

lemma parse_key_only_ok:
  "pr_ok (parse_key_only t n tokens) \<Longrightarrow>
     length tokens = 2 \<and> pr_command (parse_key_only t n tokens) = fresh_command\<lparr>cmd_type := t, cmd_key := tokens ! 1\<rparr>"
  by (auto simp: parse_key_only_def split: if_splits)

lemma parse_no_args_ok:
  "pr_ok (parse_no_args t n tokens) \<Longrightarrow> pr_command (parse_no_args t n tokens) = fresh_command\<lparr>cmd_type := t\<rparr>"
  by (auto simp: parse_no_args_def split: if_splits)

lemma parse_set_ok:
  assumes "pr_ok (parse_set tokens)"
  shows "3 \<le> length tokens \<and> (\<exists>ttl. (case ttl of None \<Rightarrow> True | Some s \<Rightarrow> 0 \<le> s \<and> s \<le> kMaxTtlSeconds) \<and>
    pr_command (parse_set tokens) =
      \<lparr>cmd_type = CSet, cmd_key = tokens ! 1, cmd_value = tokens ! 2, cmd_ttl = ttl\<rparr>)"
  using assms
  by (auto simp: parse_set_def fresh_command_def Let_def split: if_splits option.splits
      intro: exI [of _ None] exI [of _ "Some _"])

text \<open>Where a line goes, by its verb.\<close>

definition key_type :: "command_type \<Rightarrow> bool" where
  "key_type t \<longleftrightarrow> t = CGet \<or> t = CDelete \<or> t = CExists \<or> t = CTtl"

definition bare_type :: "command_type \<Rightarrow> bool" where
  "bare_type t \<longleftrightarrow> t = CPing \<or> t = CSave \<or> t = CLoad \<or> t = CQuit"

lemma parse_verb_cases:
  obtains (set) "parse_verb verb tokens = parse_set tokens"
  | (key) t where "key_type t" "parse_verb verb tokens = parse_key_only t (command_name t) tokens"
  | (bare) t where "bare_type t" "parse_verb verb tokens = parse_no_args t (command_name t) tokens"
  | (unknown) "parse_verb verb tokens = fail (''unknown command '' @ quoted (tokens ! 0))"
proof -
  have key: "thesis" if "key_type t" "parse_verb verb tokens = parse_key_only t n tokens" "n = command_name t"
    for t n using key [of t] that by simp
  have bare: "thesis" if "bare_type t" "parse_verb verb tokens = parse_no_args t n tokens" "n = command_name t"
    for t n using bare [of t] that by simp
  consider "verb = ''SET''" | "verb = ''GET''" | "verb = ''DELETE'' \<or> verb = ''DEL''" | "verb = ''EXISTS''"
    | "verb = ''TTL''" | "verb = ''PING''" | "verb = ''SAVE''" | "verb = ''LOAD''" | "verb = ''QUIT''"
    | "verb \<notin> set [''SET'', ''GET'', ''DELETE'', ''DEL'', ''EXISTS'', ''TTL'', ''PING'', ''SAVE'', ''LOAD'', ''QUIT'']"
    by auto
  then show thesis
  proof cases
    case 1 then show ?thesis by (intro set) (simp add: parse_verb_def)
  next
    case 2 then show ?thesis by (intro key [of CGet]) (simp_all add: parse_verb_def key_type_def)
  next
    case 3 then show ?thesis by (intro key [of CDelete]) (auto simp: parse_verb_def key_type_def)
  next
    case 4 then show ?thesis by (intro key [of CExists]) (simp_all add: parse_verb_def key_type_def)
  next
    case 5 then show ?thesis by (intro key [of CTtl]) (simp_all add: parse_verb_def key_type_def)
  next
    case 6 then show ?thesis by (intro bare [of CPing]) (simp_all add: parse_verb_def bare_type_def)
  next
    case 7 then show ?thesis by (intro bare [of CSave]) (simp_all add: parse_verb_def bare_type_def)
  next
    case 8 then show ?thesis by (intro bare [of CLoad]) (simp_all add: parse_verb_def bare_type_def)
  next
    case 9 then show ?thesis by (intro bare [of CQuit]) (simp_all add: parse_verb_def bare_type_def)
  next
    case 10 then show ?thesis by (intro unknown) (simp add: parse_verb_def)
  qed
qed

lemma parse_verb_ok:
  assumes ok: "pr_ok (parse_verb verb tokens)" and tok: "list_all is_token tokens"
    and c: "c = pr_command (parse_verb verb tokens)"
  shows "well_formed_command c \<and> (cmd_key c = [] \<or> cmd_key c \<in> set tokens) \<and>
    (cmd_value c = [] \<or> cmd_value c \<in> set tokens)"
proof (cases rule: parse_verb_cases [of verb tokens])
  case set
  with ok parse_set_ok [of tokens] tok c show ?thesis
    by (auto simp: well_formed_command_def list_all_iff)
next
  case (key t)
  with ok parse_key_only_ok [of t "command_name t" tokens] tok c show ?thesis
    by (auto simp: well_formed_command_def fresh_command_def list_all_iff key_type_def)
next
  case (bare t)
  with ok parse_no_args_ok [of t "command_name t" tokens] c show ?thesis
    by (auto simp: well_formed_command_def fresh_command_def bare_type_def)
next
  case unknown
  with ok show ?thesis by simp
qed

lemma parse_command_ok:
  assumes "pr_ok (parse_command line)"
  shows "well_formed_command (pr_command (parse_command line)) \<and>
    set (cmd_key (pr_command (parse_command line))) \<union> set (cmd_value (pr_command (parse_command line))) \<subseteq> set line"
proof -
  have tok: "list_all is_token (tokenize line)" by (auto simp: list_all_iff dest: tokenize_tokens)
  from assms have
    verb: "parse_command line = parse_verb (to_upper (tokenize line ! 0)) (tokenize line)"
    by (auto simp: parse_command_def Let_def split: if_splits)
  from parse_verb_ok [OF _ tok refl] assms show ?thesis
    unfolding verb by (fastforce dest: tokenize_chars)
qed

text \<open>
  C14. Every line the parser accepts gives a well-formed command: keys and values are non-empty
  tokens without separators, made of characters of the line, a time-to-live only accompanies
  \<open>SET\<close> and lies between zero and ten years.
\<close>

theorem accepted_command_well_formed:
  assumes "pr_ok (parse_command line)"
  shows "well_formed_command (pr_command (parse_command line)) \<and>
    set (cmd_key (pr_command (parse_command line))) \<union> set (cmd_value (pr_command (parse_command line))) \<subseteq> set line"
  using assms by (rule parse_command_ok)

theorem accepted_command_well_formed_witness:
  "well_formed_command (pr_command (parse_command ''set k v 10'')) \<and>
    set (cmd_key (pr_command (parse_command ''set k v 10''))) \<union>
      set (cmd_value (pr_command (parse_command ''set k v 10''))) \<subseteq> set ''set k v 10''"
proof (rule accepted_command_well_formed)
  show "pr_ok (parse_command ''set k v 10'')" by code_simp
qed

section \<open>Rejected lines\<close>

lemma length_quoted: "length (quoted s) \<le> 37"
  by (simp add: quoted_def kMaxEcho_def)

lemma quoted_chars: "LF \<notin> set s \<Longrightarrow> LF \<notin> set (quoted s)"
  by (auto simp: quoted_def dest: in_set_takeD)

lemma to_string_max_ttl: "to_string kMaxTtlSeconds = ''315360000''"
  by (simp add: kMaxTtlSeconds_def to_string_eval)

lemma parse_key_only_error:
  "length n \<le> 6 \<Longrightarrow> LF \<notin> set n \<Longrightarrow>
     length (pr_error (parse_key_only t n tokens)) \<le> 86 \<and> LF \<notin> set (pr_error (parse_key_only t n tokens))"
  by (auto simp: parse_key_only_def succeed_def)

lemma parse_no_args_error:
  "length n \<le> 6 \<Longrightarrow> LF \<notin> set n \<Longrightarrow>
     length (pr_error (parse_no_args t n tokens)) \<le> 86 \<and> LF \<notin> set (pr_error (parse_no_args t n tokens))"
  by (auto simp: parse_no_args_def succeed_def)

lemma parse_set_error:
  assumes "list_all (\<lambda>t. LF \<notin> set t) tokens"
  shows "length (pr_error (parse_set tokens)) \<le> 86 \<and> LF \<notin> set (pr_error (parse_set tokens))"
  using assms length_quoted [of "tokens ! 3"] quoted_chars [of "tokens ! 3"]
  by (auto simp: parse_set_def Let_def succeed_def to_string_max_ttl list_all_iff split: option.splits)

lemma command_name_short: "length (command_name t) \<le> 6 \<and> LF \<notin> set (command_name t)"
  by (cases t) simp_all

lemma parse_verb_error:
  assumes "list_all (\<lambda>t. LF \<notin> set t) tokens" and "tokens \<noteq> []"
  shows "length (pr_error (parse_verb verb tokens)) \<le> 86 \<and> LF \<notin> set (pr_error (parse_verb verb tokens))"
proof (cases rule: parse_verb_cases [of verb tokens])
  case unknown
  with assms length_quoted [of "tokens ! 0"] quoted_chars [of "tokens ! 0"] show ?thesis
    by (simp add: list_all_iff)
qed (use parse_set_error [OF assms(1)] command_name_short parse_key_only_error parse_no_args_error in simp_all)

lemma parse_command_error:
  assumes "LF \<notin> set line"
  shows "length (pr_error (parse_command line)) \<le> 86 \<and> LF \<notin> set (pr_error (parse_command line))"
proof (cases "tokenize line = []")
  case True
  then show ?thesis by (simp add: parse_command_def)
next
  case False
  moreover have "list_all (\<lambda>t. LF \<notin> set t) (tokenize line)"
    using assms by (auto simp: list_all_iff dest: tokenize_chars)
  ultimately show ?thesis using parse_verb_error by (simp add: parse_command_def Let_def)
qed

text \<open>
  C15. A rejected line is answered with a short error: at most 86 bytes of message, however long
  the line was, and a single line of text.
\<close>

theorem rejected_line_short_error:
  assumes "LF \<notin> set line"
  shows "length (pr_error (parse_command line)) \<le> 86 \<and> LF \<notin> set (pr_error (parse_command line))"
  using assms by (rule parse_command_error)

theorem rejected_line_short_error_witness:
  "length (pr_error (parse_command ''FLUSH everything'')) \<le> 86 \<and>
     LF \<notin> set (pr_error (parse_command ''FLUSH everything''))"
  by (rule rejected_line_short_error) simp

section \<open>Requests round trip\<close>

fun command_args :: "command_type \<Rightarrow> string \<Rightarrow> string \<Rightarrow> int option \<Rightarrow> string list" where
  "command_args CSet k v None = [k, v]"
| "command_args CSet k v (Some s) = [k, v, to_string s]"
| "command_args t k v ttl = (if key_type t then [k] else [])"

lemma to_string_token: "is_token (to_string i)"
proof -
  have "\<not> is_separator c" if "is_digit c" for c using that by (auto simp: is_digit_def is_separator_def)
  then show ?thesis
    using to_string_nat_digits [of "nat i"] to_string_nat_digits [of "nat (- i)"]
    by (auto simp: is_token_def to_string_def list_all_iff is_separator_def)
qed

lemma parse_integer_to_string: "int64_min \<le> i \<Longrightarrow> i \<le> int64_max \<Longrightarrow> parse_integer (to_string i) = Some i"
  using from_chars_to_string [of int64_min i int64_max "[]"] to_string_token [of i]
  by (auto simp: parse_integer_def ends_number_def is_token_def)

lemma parse_verb_render:
  assumes "well_formed_command c" and "to_upper v = command_name (cmd_type c)"
  shows "parse_verb (to_upper v) (v # command_args (cmd_type c) (cmd_key c) (cmd_value c) (cmd_ttl c)) = succeed c"
  using assms
  by (cases c; cases "cmd_type c"; cases "cmd_ttl c")
    (simp_all add: well_formed_command_def parse_verb_def parse_set_def parse_key_only_def parse_no_args_def
      fresh_command_def key_type_def parse_integer_to_string kMaxTtlSeconds_def)

lemma command_args_tokens:
  "well_formed_command c \<Longrightarrow> list_all is_token (command_args (cmd_type c) (cmd_key c) (cmd_value c) (cmd_ttl c))"
  by (cases c; cases "cmd_type c"; cases "cmd_ttl c")
    (simp_all add: well_formed_command_def key_type_def to_string_token)

text \<open>
  C16. Every well-formed command can be sent: its verb in any mixture of cases, followed by its
  arguments, with any runs of spaces and tabs before, between and after them, is a line that
  parses back to exactly that command.
\<close>

theorem request_round_trip:
  assumes "well_formed_command c" and "to_upper v = command_name (cmd_type c)" and "is_token v"
    and "list_all is_separator lead" and "list_all is_separator trail"
    and "list_all (\<lambda>sep. sep \<noteq> [] \<and> list_all is_separator sep) seps"
    and "length seps = length (command_args (cmd_type c) (cmd_key c) (cmd_value c) (cmd_ttl c))"
  shows "parse_command (lead @ v @ join (zip seps (command_args (cmd_type c) (cmd_key c) (cmd_value c) (cmd_ttl c)))
    @ trail) = succeed c"
proof -
  let ?args = "command_args (cmd_type c) (cmd_key c) (cmd_value c) (cmd_ttl c)"
  have "list_all (\<lambda>(sep, t). sep \<noteq> [] \<and> list_all is_separator sep \<and> is_token t) (zip seps ?args)"
    using assms(6) command_args_tokens [OF assms(1)]
    unfolding list_all_iff by (auto dest: set_zip_leftD set_zip_rightD)
  from tokenize_join [OF this assms(5)] assms(3,4,7)
  have "tokenize (lead @ v @ join (zip seps ?args) @ trail) = v # ?args"
    by (simp add: tokenize_separators tokenize_token)
  with parse_verb_render [OF assms(1,2)] show ?thesis by (simp add: parse_command_def)
qed

theorem request_round_trip_witness:
  "parse_command ('' '' @ ''sEt'' @ join (zip [''  '', [TAB], '' ''] [''k'', ''v'', ''60'']) @ '' '') =
     succeed \<lparr>cmd_type = CSet, cmd_key = ''k'', cmd_value = ''v'', cmd_ttl = Some 60\<rparr>"
proof -
  have sixty: "to_string 60 = ''60''" by (simp add: to_string_eval)
  have upper: "to_upper ''sEt'' = ''SET''" by code_simp
  show ?thesis
    using request_round_trip [of "\<lparr>cmd_type = CSet, cmd_key = ''k'', cmd_value = ''v'', cmd_ttl = Some 60\<rparr>"
        "''sEt''" "'' ''" "'' ''" "[''  '', [TAB], '' '']"]
    by (simp add: sixty upper well_formed_command_def is_token_def is_separator_def kMaxTtlSeconds_def)
qed

end
