(* ===== verification/Recency_List.thy ===== *)
theory Recency_List
  imports Cachex_Prelude
begin

text \<open>
  The recency ordering (\<open>include/cachex/recency_list.hpp\<close>, \<open>src/recency_list.cpp\<close>).

  \<open>RecencyList\<close> is a thin layer over \<open>std::list<Entry>\<close>: the front is the most recently used
  entry, the back the eviction candidate. What the cache relies on is iterator stability, so the
  list is modelled with its nodes: an iterator is the identity of a node, allocation gives a
  fresh identity, and an operation through an iterator whose node is gone is undefined
  behaviour (\<open>None\<close>). The locale \<open>recency_order\<close> is the contract the cache uses;
  the interpretation \<open>rl\<close> discharges it for the code's operations.
\<close>

section \<open>Data\<close>

record entry =
  entry_key :: string
  entry_value :: string
  entry_expires_at :: "time_ns option"

type_synonym iterator = nat

record recency_list =
  rl_nodes :: "(iterator \<times> entry) list"
  rl_next :: iterator

section \<open>Operations\<close>

definition rl_empty_list :: recency_list where
  "rl_empty_list = \<lparr>rl_nodes = [], rl_next = 0\<rparr>"

definition insert_newest :: "entry \<Rightarrow> recency_list \<Rightarrow> iterator \<times> recency_list" where
  "insert_newest e l =
     (rl_next l, l\<lparr>rl_nodes := (rl_next l, e) # rl_nodes l, rl_next := Suc (rl_next l)\<rparr>)"

text \<open>Splice: the node itself moves, its identity stays.\<close>

definition mark_used :: "iterator \<Rightarrow> recency_list \<Rightarrow> recency_list defined" where
  "mark_used it l =
     (case map_of (rl_nodes l) it of
        None \<Rightarrow> None
      | Some e \<Rightarrow> Some (l\<lparr>rl_nodes := (it, e) # AList.delete it (rl_nodes l)\<rparr>))"

definition rl_erase :: "iterator \<Rightarrow> recency_list \<Rightarrow> recency_list defined" where
  "rl_erase it l =
     (case map_of (rl_nodes l) it of
        None \<Rightarrow> None
      | Some e \<Rightarrow> Some (l\<lparr>rl_nodes := AList.delete it (rl_nodes l)\<rparr>))"

definition oldest :: "recency_list \<Rightarrow> entry defined" where
  "oldest l = (if rl_nodes l = [] then None else Some (snd (last (rl_nodes l))))"

definition pop_oldest :: "recency_list \<Rightarrow> recency_list defined" where
  "pop_oldest l = (if rl_nodes l = [] then None else Some (l\<lparr>rl_nodes := butlast (rl_nodes l)\<rparr>))"

definition rl_clear :: "recency_list \<Rightarrow> recency_list" where
  "rl_clear l = l\<lparr>rl_nodes := []\<rparr>"

definition rl_size :: "recency_list \<Rightarrow> nat" where
  "rl_size l = length (rl_nodes l)"

definition rl_empty :: "recency_list \<Rightarrow> bool" where
  "rl_empty l \<longleftrightarrow> rl_nodes l = []"

text \<open>The range \<open>begin()\<close> .. \<open>end()\<close>, front to back.\<close>

definition rl_range :: "recency_list \<Rightarrow> entry list" where
  "rl_range l = map snd (rl_nodes l)"

text \<open>Reading and assigning through an iterator, as \<open>*it\<close> and \<open>it->field = x\<close> do.\<close>

definition rl_deref :: "iterator \<Rightarrow> recency_list \<Rightarrow> entry defined" where
  "rl_deref it l = map_of (rl_nodes l) it"

definition rl_assign :: "iterator \<Rightarrow> (entry \<Rightarrow> entry) \<Rightarrow> recency_list \<Rightarrow> recency_list defined" where
  "rl_assign it f l =
     (case map_of (rl_nodes l) it of
        None \<Rightarrow> None
      | Some e \<Rightarrow> Some (l\<lparr>rl_nodes := map (\<lambda>(i, x). (i, if i = it then f x else x)) (rl_nodes l)\<rparr>))"

section \<open>Invariant\<close>

text \<open>Node identities are distinct and below the next one to be handed out.\<close>

definition rl_inv :: "recency_list \<Rightarrow> bool" where
  "rl_inv l \<longleftrightarrow> distinct (map fst (rl_nodes l)) \<and> list_all (\<lambda>i. i < rl_next l) (map fst (rl_nodes l))"

lemma rl_inv_distinct [dest]: "rl_inv l \<Longrightarrow> distinct (map fst (rl_nodes l))"
  by (simp add: rl_inv_def)

lemma rl_inv_empty_list [simp, cx_inv]: "rl_inv rl_empty_list"
  by (simp add: rl_inv_def rl_empty_list_def)

lemma rl_inv_clear [simp, cx_inv]: "rl_inv (rl_clear l)"
  by (simp add: rl_inv_def rl_clear_def)

lemma rl_inv_delete: "rl_inv l \<Longrightarrow> rl_inv (l\<lparr>rl_nodes := AList.delete it (rl_nodes l)\<rparr>)"
  by (auto simp: rl_inv_def alist_delete_filter distinct_map_filter list_all_iff)

lemma rl_inv_butlast: "rl_inv l \<Longrightarrow> rl_inv (l\<lparr>rl_nodes := butlast (rl_nodes l)\<rparr>)"
  by (auto simp: rl_inv_def map_butlast distinct_butlast list_all_iff dest!: in_set_butlastD)

lemma rl_inv_move:
  "rl_inv l \<Longrightarrow> map_of (rl_nodes l) it = Some e
   \<Longrightarrow> rl_inv (l\<lparr>rl_nodes := (it, e) # AList.delete it (rl_nodes l)\<rparr>)"
  by (auto simp: rl_inv_def alist_delete_filter distinct_map_filter list_all_iff dest!: map_of_SomeD)

lemma map_fst_assign:
  "map fst (map (\<lambda>(i, x). (i, if i = it then f x else x)) xs) = map fst xs"
  by (induction xs) auto

lemma map_of_assign:
  "map_of (map (\<lambda>(i, x). (i, if i = it then f x else x)) xs) j =
     (if j = it then map_option f (map_of xs j) else map_of xs j)"
  by (induction xs) auto

lemma delete_assign:
  "AList.delete it (map (\<lambda>(i, x). (i, if i = it then f x else x)) xs) = AList.delete it xs"
  by (induction xs) auto

lemma rl_inv_same_ids: "rl_inv l \<Longrightarrow> map fst ns = map fst (rl_nodes l) \<Longrightarrow> rl_inv (l\<lparr>rl_nodes := ns\<rparr>)"
  by (simp add: rl_inv_def)

lemmas rl_inv_assign = rl_inv_same_ids [OF _ map_fst_assign]

section \<open>The contract of a recency list\<close>

locale recency_order =
  fixes ins :: "'e \<Rightarrow> 'l \<Rightarrow> 'i \<times> 'l"
    and touch :: "'i \<Rightarrow> 'l \<Rightarrow> 'l option"
    and del :: "'i \<Rightarrow> 'l \<Rightarrow> 'l option"
    and old :: "'l \<Rightarrow> 'e option"
    and pop :: "'l \<Rightarrow> 'l option"
    and nodes :: "'l \<Rightarrow> ('i \<times> 'e) list"
    and inv :: "'l \<Rightarrow> bool"
  assumes ids_distinct: "inv l \<Longrightarrow> distinct (map fst (nodes l))"
    and ins_law: "inv l \<Longrightarrow> ins e l = (i, l') \<Longrightarrow>
      inv l' \<and> nodes l' = (i, e) # nodes l \<and> i \<notin> fst ` set (nodes l)"
    and touch_law: "inv l \<Longrightarrow> map_of (nodes l) i = Some e \<Longrightarrow>
      \<exists>l'. touch i l = Some l' \<and> inv l' \<and> nodes l' = (i, e) # AList.delete i (nodes l)"
    and touch_dangling: "map_of (nodes l) i = None \<Longrightarrow> touch i l = None"
    and del_law: "inv l \<Longrightarrow> map_of (nodes l) i = Some e \<Longrightarrow>
      \<exists>l'. del i l = Some l' \<and> inv l' \<and> nodes l' = AList.delete i (nodes l)"
    and old_law: "nodes l \<noteq> [] \<Longrightarrow> old l = Some (snd (last (nodes l)))"
    and pop_law: "inv l \<Longrightarrow> nodes l \<noteq> [] \<Longrightarrow>
      \<exists>l'. pop l = Some l' \<and> inv l' \<and> nodes l' = butlast (nodes l)"
begin

text \<open>Iterator stability: a live iterator keeps its entry under every operation on other nodes.\<close>

lemma stable_ins:
  assumes "inv l" and "ins e l = (i, l')" and "map_of (nodes l) j = Some x"
  shows "map_of (nodes l') j = Some x"
proof -
  from assms(3) have "j \<in> fst ` set (nodes l)" by (rule map_of_Some_fst)
  with ins_law [OF assms(1,2)] assms(3) show ?thesis by auto
qed

lemma stable_touch:
  assumes "inv l" and "touch i l = Some l'"
  shows "map_of (nodes l') j = map_of (nodes l) j"
proof (cases "map_of (nodes l) i")
  case None
  with assms(2) touch_dangling show ?thesis by simp
next
  case (Some e)
  from touch_law [OF assms(1) Some] assms(2)
  have "nodes l' = (i, e) # AList.delete i (nodes l)" by auto
  with Some show ?thesis by (simp add: delete_conv')
qed

lemma stable_del:
  assumes "inv l" and "map_of (nodes l) i = Some e" and "del i l = Some l'" and "j \<noteq> i"
  shows "map_of (nodes l') j = map_of (nodes l) j"
  using del_law [OF assms(1,2)] assms(3,4) by (auto simp: delete_conv')

lemma del_gone:
  assumes "inv l" and "map_of (nodes l) i = Some e" and "del i l = Some l'"
  shows "map_of (nodes l') i = None"
  using del_law [OF assms(1,2)] assms(3) by (auto simp: delete_conv')

text \<open>A touched node is the newest, and it is the eviction candidate only if it is alone.\<close>

lemma touch_is_newest:
  assumes "inv l" and "touch i l = Some l'"
  shows "\<exists>e ns. map_of (nodes l) i = Some e \<and> nodes l' = (i, e) # ns"
proof (cases "map_of (nodes l) i")
  case None
  with assms(2) touch_dangling show ?thesis by simp
next
  case (Some e)
  with touch_law [OF assms(1) Some] assms(2) show ?thesis by auto
qed

lemma new_not_victim:
  assumes "inv l" and "ins e l = (i, l')" and "nodes l \<noteq> []"
  shows "old l' = old l"
proof -
  from ins_law [OF assms(1,2)] have "nodes l' = (i, e) # nodes l" by simp
  with assms(3) show ?thesis by (simp add: old_law)
qed

text \<open>
  Ageing: touching nodes other than \<open>j\<close> never lets \<open>j\<close> move forward, and once every other
  node has been touched \<open>j\<close> is the eviction candidate.
\<close>

fun touch_all :: "'i list \<Rightarrow> 'l \<Rightarrow> 'l option" where
  "touch_all [] l = Some l"
| "touch_all (i # is) l = (case touch i l of None \<Rightarrow> None | Some l' \<Rightarrow> touch_all is l')"

lemma touch_ids:
  assumes "inv l" and "touch i l = Some l'"
  shows "inv l' \<and> map fst (nodes l') = i # removeAll i (map fst (nodes l))"
proof (cases "map_of (nodes l) i")
  case None
  with assms touch_dangling show ?thesis by simp
next
  case (Some e)
  from touch_law [OF assms(1) Some] assms(2)
  have "inv l'" and "nodes l' = (i, e) # AList.delete i (nodes l)" by auto
  moreover have "map fst (AList.delete i xs) = removeAll i (map fst xs)" for xs :: "('i \<times> 'e) list"
    by (induction xs) auto
  ultimately show ?thesis by simp
qed

lemma touch_all_ids:
  assumes "inv l" and "touch_all is l = Some l'"
  shows "inv l' \<and>
    map fst (nodes l') = fold (\<lambda>i ks. i # removeAll i ks) is (map fst (nodes l))"
  using assms
proof (induction "is" arbitrary: l)
  case Nil
  then show ?case by simp
next
  case (Cons i "is")
  from Cons.prems obtain m where m: "touch i l = Some m" "touch_all is m = Some l'"
    by (auto split: option.splits)
  with Cons.IH [of m] touch_ids [OF Cons.prems(1) m(1)] show ?case by simp
qed

end

lemma fold_move_suffix:
  "fold (\<lambda>i ks. i # removeAll i ks) is ks
     = fold (\<lambda>i ks. i # removeAll i ks) is [] @ filter (\<lambda>k. k \<notin> set is) ks"
proof (induction "is" arbitrary: ks rule: rev_induct)
  case Nil
  then show ?case by simp
next
  case (snoc i "is")
  have "removeAll i (filter (\<lambda>k. k \<notin> set is) ks) = filter (\<lambda>k. k \<notin> set (is @ [i])) ks"
    by (induction ks) auto
  then show ?case by (simp add: snoc.IH [of ks])
qed

lemma filter_singleton: "distinct ks \<Longrightarrow> j \<in> set ks \<Longrightarrow> filter (\<lambda>k. k = j) ks = [j]"
  by (induction ks) (auto simp: filter_empty_conv)

context recency_order
begin

lemma untouched_becomes_oldest:
  assumes "inv l" and "touch_all is l = Some l'" and "map_of (nodes l) j = Some e"
    and "set is = fst ` set (nodes l) - {j}"
  shows "fst (last (nodes l')) = j"
proof -
  let ?ks = "map fst (nodes l)"
  from assms(3) have j: "j \<in> set ?ks" by (simp add: map_of_Some_fst)
  have "filter (\<lambda>k. k \<notin> set is) ?ks = filter (\<lambda>k. k = j) ?ks"
    using assms(4) by (intro filter_cong) auto
  also have "\<dots> = [j]"
    using ids_distinct [OF assms(1)] j by (rule filter_singleton)
  finally have "map fst (nodes l') = fold (\<lambda>i ks. i # removeAll i ks) is [] @ [j]"
    using touch_all_ids [OF assms(1,2)] fold_move_suffix [of "is" ?ks] by simp
  then have "nodes l' \<noteq> []" and "last (map fst (nodes l')) = j" by auto
  then show ?thesis by (simp add: last_map)
qed

end

lemma rl_insert_law:
  assumes "rl_inv l" and "insert_newest e l = (i, l')"
  shows "rl_inv l' \<and> rl_nodes l' = (i, e) # rl_nodes l \<and> i \<notin> fst ` set (rl_nodes l)"
proof -
  from assms(1) have below: "\<forall>i \<in> set (map fst (rl_nodes l)). i < rl_next l"
    by (auto simp: rl_inv_def list_all_iff)
  then have fresh: "rl_next l \<notin> set (map fst (rl_nodes l))" by blast
  from below have "list_all (\<lambda>i. i < Suc (rl_next l)) (map fst (rl_nodes l))"
    by (auto simp: list_all_iff less_Suc_eq)
  with assms fresh show ?thesis by (auto simp: insert_newest_def rl_inv_def)
qed

interpretation rl: recency_order insert_newest mark_used rl_erase oldest pop_oldest rl_nodes rl_inv
proof (unfold_locales, goal_cases)
  case (1 l)
  then show ?case by (rule rl_inv_distinct)
next
  case (2 l e i l')
  then show ?case by (rule rl_insert_law)
next
  case (3 l i e)
  then show ?case by (simp add: mark_used_def rl_inv_move)
next
  case (4 l i)
  then show ?case by (simp add: mark_used_def)
next
  case (5 l i e)
  then show ?case by (simp add: rl_erase_def rl_inv_delete)
next
  case (6 l)
  then show ?case by (simp add: oldest_def)
next
  case (7 l)
  then show ?case by (simp add: pop_oldest_def rl_inv_butlast)
qed

end
