(* ===== verification/Lru_Spec.thy ===== *)
theory Lru_Spec
  imports Recency_List
begin

text \<open>
  What a CacheX cache promises, without iterators or an index: a list of entries with distinct
  keys, most recently used first, an optional capacity and two lifetime counters. Every public
  operation of \<open>Cache\<close> has its specification here; \<open>Lru_Cache\<close> shows that the code implements
  them.
\<close>

section \<open>State\<close>

record lru =
  lru_items :: "entry list"
  lru_cap :: "nat option"
  lru_evictions :: nat
  lru_expired :: nat

definition live_at :: "time_ns \<Rightarrow> entry \<Rightarrow> bool" where
  "live_at now e \<longleftrightarrow> (case entry_expires_at e of None \<Rightarrow> True | Some t \<Rightarrow> now < t)"

definition lru_find :: "string \<Rightarrow> entry list \<Rightarrow> entry option" where
  "lru_find k xs = List.find (\<lambda>e. entry_key e = k) xs"

definition lru_drop :: "string \<Rightarrow> entry list \<Rightarrow> entry list" where
  "lru_drop k xs = filter (\<lambda>e. entry_key e \<noteq> k) xs"

definition lru_ok :: "lru \<Rightarrow> bool" where
  "lru_ok s \<longleftrightarrow> distinct (map entry_key (lru_items s)) \<and> within_cap (lru_cap s) (length (lru_items s))"

text \<open>The value a reader sees at an instant.\<close>

definition lru_visible :: "time_ns \<Rightarrow> lru \<Rightarrow> string \<Rightarrow> string option" where
  "lru_visible now s k =
     (case lru_find k (lru_items s) of
        None \<Rightarrow> None
      | Some e \<Rightarrow> if live_at now e then Some (entry_value e) else None)"

section \<open>Operations\<close>

text \<open>A reply of \<open>ttl\<close>: the state and, for an expiring key, the remaining milliseconds.\<close>

datatype ttl_state = Missing | Persistent | Expiring

record ttl_info =
  ttl_info_state :: ttl_state
  ttl_remaining :: duration_ms

record entry_snapshot =
  snap_key :: string
  snap_value :: string
  snap_remaining_ttl :: "duration_ms option"

text \<open>
  Inserting or overwriting puts the entry in front and trims the list to the capacity. What the
  trim cuts off is counted as evicted; overwriting never evicts.
\<close>

definition lru_put :: "entry \<Rightarrow> lru \<Rightarrow> lru" where
  "lru_put e s =
     (let xs = e # lru_drop (entry_key e) (lru_items s);
          ys = take_cap (lru_cap s) xs
      in s\<lparr>lru_items := ys, lru_evictions := lru_evictions s + (length xs - length ys)\<rparr>)"

definition lru_erase :: "time_ns \<Rightarrow> string \<Rightarrow> lru \<Rightarrow> lru \<times> bool" where
  "lru_erase now k s =
     (case lru_find k (lru_items s) of
        None \<Rightarrow> (s, False)
      | Some e \<Rightarrow>
          (s\<lparr>lru_items := lru_drop k (lru_items s),
             lru_expired := lru_expired s + (if live_at now e then 0 else 1)\<rparr>,
           live_at now e))"

definition lru_reclaim :: "string \<Rightarrow> lru \<Rightarrow> lru" where
  "lru_reclaim k s = s\<lparr>lru_items := lru_drop k (lru_items s), lru_expired := Suc (lru_expired s)\<rparr>"

definition lru_get :: "time_ns \<Rightarrow> string \<Rightarrow> lru \<Rightarrow> lru \<times> string option" where
  "lru_get now k s =
     (case lru_find k (lru_items s) of
        None \<Rightarrow> (s, None)
      | Some e \<Rightarrow>
          if live_at now e
          then (s\<lparr>lru_items := e # lru_drop k (lru_items s)\<rparr>, Some (entry_value e))
          else (lru_reclaim k s, None))"

definition lru_ttl :: "time_ns \<Rightarrow> string \<Rightarrow> lru \<Rightarrow> lru \<times> ttl_info" where
  "lru_ttl now k s =
     (case lru_find k (lru_items s) of
        None \<Rightarrow> (s, \<lparr>ttl_info_state = Missing, ttl_remaining = 0\<rparr>)
      | Some e \<Rightarrow>
          (case entry_expires_at e of
             None \<Rightarrow> (s, \<lparr>ttl_info_state = Persistent, ttl_remaining = 0\<rparr>)
           | Some t \<Rightarrow>
               if now < t
               then (s, \<lparr>ttl_info_state = Expiring, ttl_remaining = duration_cast_ms (t - now)\<rparr>)
               else (lru_reclaim k s, \<lparr>ttl_info_state = Missing, ttl_remaining = 0\<rparr>)))"

definition lru_snapshot :: "time_ns \<Rightarrow> entry \<Rightarrow> entry_snapshot" where
  "lru_snapshot now e =
     \<lparr>snap_key = entry_key e, snap_value = entry_value e,
      snap_remaining_ttl = map_option (\<lambda>t. duration_cast_ms (t - now)) (entry_expires_at e)\<rparr>"

definition lru_export :: "time_ns \<Rightarrow> lru \<Rightarrow> entry_snapshot list" where
  "lru_export now s = map (lru_snapshot now) (filter (live_at now) (lru_items s))"

text \<open>
  One call of the public interface, with the instant the call reads from the clock. The deadline
  of a positive time-to-live is computed by the caller's arithmetic \<open>dl\<close>.
\<close>

datatype cache_op =
    OpSet string string
  | OpSetTtl string string duration_ms
  | OpGet string
  | OpGetInto string string
  | OpErase string
  | OpContains string
  | OpTtl string
  | OpClear
  | OpSize
  | OpExport
  | OpKeys

datatype cache_result =
    RUnit
  | RValue "string option"
  | RInto bool string
  | RBool bool
  | RTtl ttl_info
  | RNat nat
  | RSnapshots "entry_snapshot list"
  | RKeys "string list"

fun lru_step :: "(time_ns \<Rightarrow> duration_ms \<Rightarrow> time_ns) \<Rightarrow> time_ns \<times> cache_op \<Rightarrow> lru \<Rightarrow> lru \<times> cache_result" where
  "lru_step dl (now, OpSet k v) s =
     (lru_put \<lparr>entry_key = k, entry_value = v, entry_expires_at = None\<rparr> s, RUnit)"
| "lru_step dl (now, OpSetTtl k v ttl) s =
     (if ttl \<le> 0 then fst (lru_erase now k s)
      else lru_put \<lparr>entry_key = k, entry_value = v, entry_expires_at = Some (dl now ttl)\<rparr> s, RUnit)"
| "lru_step dl (now, OpGet k) s = apsnd RValue (lru_get now k s)"
| "lru_step dl (now, OpGetInto k out) s =
     apsnd (\<lambda>r. RInto (r \<noteq> None) (case r of None \<Rightarrow> out | Some v \<Rightarrow> v)) (lru_get now k s)"
| "lru_step dl (now, OpErase k) s = apsnd RBool (lru_erase now k s)"
| "lru_step dl (now, OpContains k) s = (s, RBool (lru_visible now s k \<noteq> None))"
| "lru_step dl (now, OpTtl k) s = apsnd RTtl (lru_ttl now k s)"
| "lru_step dl (now, OpClear) s = (s\<lparr>lru_items := []\<rparr>, RUnit)"
| "lru_step dl (now, OpSize) s = (s, RNat (length (lru_items s)))"
| "lru_step dl (now, OpExport) s = (s, RSnapshots (lru_export now s))"
| "lru_step dl (now, OpKeys) s = (s, RKeys (map entry_key (lru_items s)))"

section \<open>Lookup and removal\<close>

lemma lru_find_simps [simp]:
  "lru_find k [] = None"
  "lru_find k (e # xs) = (if entry_key e = k then Some e else lru_find k xs)"
  by (simp_all add: lru_find_def)

lemma lru_drop_simps [simp]:
  "lru_drop k [] = []"
  "lru_drop k (e # xs) = (if entry_key e = k then lru_drop k xs else e # lru_drop k xs)"
  by (simp_all add: lru_drop_def)

lemma lru_find_key: "lru_find k xs = Some e \<Longrightarrow> entry_key e = k \<and> e \<in> set xs"
  by (induction xs) (auto split: if_splits)

lemma lru_find_None: "lru_find k xs = None \<longleftrightarrow> k \<notin> entry_key ` set xs"
  by (induction xs) auto

lemma lru_find_in:
  "distinct (map entry_key xs) \<Longrightarrow> e \<in> set xs \<Longrightarrow> lru_find (entry_key e) xs = Some e"
  by (induction xs) auto

lemma lru_find_drop: "lru_find k (lru_drop j xs) = (if k = j then None else lru_find k xs)"
  by (induction xs) auto

lemma lru_drop_absent: "k \<notin> entry_key ` set xs \<Longrightarrow> lru_drop k xs = xs"
  by (induction xs) auto

lemma set_lru_drop: "set (lru_drop k xs) = {e \<in> set xs. entry_key e \<noteq> k}"
  by (auto simp: lru_drop_def)

lemma keys_lru_drop: "map entry_key (lru_drop k xs) = removeAll k (map entry_key xs)"
  by (induction xs) auto

lemma distinct_lru_drop [simp]:
  "distinct (map entry_key xs) \<Longrightarrow> distinct (map entry_key (lru_drop k xs))"
  by (simp add: keys_lru_drop distinct_removeAll)

lemma length_lru_drop:
  "distinct (map entry_key xs) \<Longrightarrow> lru_find k xs = Some e \<Longrightarrow> length xs = Suc (length (lru_drop k xs))"
proof (induction xs)
  case (Cons x xs)
  show ?case
  proof (cases "entry_key x = k")
    case True
    with Cons.prems(1) have "lru_drop k xs = xs" by (intro lru_drop_absent) auto
    with True show ?thesis by simp
  next
    case False
    with Cons show ?thesis by simp
  qed
qed simp

lemma length_lru_drop_le: "length (lru_drop k xs) \<le> length xs"
  by (simp add: lru_drop_def)

lemma lru_find_take:
  "lru_find k (take n xs) = Some e \<Longrightarrow> lru_find k xs = Some e"
proof (induction xs arbitrary: n)
  case (Cons x xs)
  then show ?case by (cases n) (auto split: if_splits)
qed simp

lemma lru_find_take_cap: "lru_find k (take_cap cap xs) = Some e \<Longrightarrow> lru_find k xs = Some e"
  by (cases cap) (auto intro: lru_find_take)

section \<open>The specification keeps its invariant\<close>

lemma lru_ok_put [simp, cx_inv]: "lru_ok s \<Longrightarrow> lru_ok (lru_put e s)"
proof -
  assume "lru_ok s"
  then have "distinct (map entry_key (e # lru_drop (entry_key e) (lru_items s)))"
    by (auto simp: lru_ok_def set_lru_drop)
  then have "distinct (take_cap (lru_cap s) (map entry_key (e # lru_drop (entry_key e) (lru_items s))))"
    by (rule distinct_take_cap)
  then have "distinct (map entry_key (take_cap (lru_cap s) (e # lru_drop (entry_key e) (lru_items s))))"
    by (simp only: take_cap_map)
  then show ?thesis by (simp add: lru_ok_def lru_put_def Let_def)
qed

lemma lru_ok_drop: "lru_ok s \<Longrightarrow> lru_ok (s\<lparr>lru_items := lru_drop k (lru_items s)\<rparr>)"
  using length_lru_drop_le [of k "lru_items s"] within_cap_mono by (auto simp: lru_ok_def)

lemma lru_ok_counters [simp]:
  "lru_ok (s\<lparr>lru_expired := n\<rparr>) = lru_ok s" "lru_ok (s\<lparr>lru_evictions := n\<rparr>) = lru_ok s"
  by (simp_all add: lru_ok_def)

lemma lru_ok_reclaim [simp, cx_inv]: "lru_ok s \<Longrightarrow> lru_ok (lru_reclaim k s)"
  using lru_ok_drop [of s k] by (simp add: lru_reclaim_def lru_ok_def)

lemma lru_ok_erase [simp, cx_inv]: "lru_ok s \<Longrightarrow> lru_ok (fst (lru_erase now k s))"
  using lru_ok_drop [of s k] by (auto simp: lru_erase_def lru_ok_def split: option.splits)

lemma lru_ok_touch:
  assumes "lru_ok s" and "lru_find k (lru_items s) = Some e"
  shows "lru_ok (s\<lparr>lru_items := e # lru_drop k (lru_items s)\<rparr>)"
proof -
  from assms have "length (lru_items s) = Suc (length (lru_drop k (lru_items s)))"
    by (intro length_lru_drop) (auto simp: lru_ok_def)
  with assms lru_find_key [OF assms(2)] show ?thesis
    by (auto simp: lru_ok_def set_lru_drop)
qed

lemma lru_ok_get [simp, cx_inv]: "lru_ok s \<Longrightarrow> lru_ok (fst (lru_get now k s))"
  by (auto simp: lru_get_def lru_ok_touch split: option.splits)

lemma lru_ok_ttl [simp, cx_inv]: "lru_ok s \<Longrightarrow> lru_ok (fst (lru_ttl now k s))"
  by (auto simp: lru_ttl_def split: option.splits)

lemma lru_ok_clear [simp, cx_inv]: "lru_ok (s\<lparr>lru_items := []\<rparr>)"
  by (cases "lru_cap s") (simp_all add: lru_ok_def)

lemma lru_ok_step [cx_inv]: "lru_ok s \<Longrightarrow> lru_ok (fst (lru_step dl x s))"
  by (cases x; cases "snd x") auto

end
