(* ===== verification/Lru_Cache.thy ===== *)
theory Lru_Cache
  imports Lru_Spec "HOL-Library.Monad_Syntax"
begin

text \<open>
  The single-threaded engine (\<open>include/cachex/cache.hpp\<close>, \<open>src/cache.cpp\<close>).

  The state is the code's: the recency list that owns the entries, the index from key to list
  iterator, the optional capacity and the two counters. The index is an
  \<open>unordered_map\<close>, whose order the code never observes; it is kept as an association list, so
  that \<open>find\<close>, \<open>emplace\<close>, \<open>erase\<close> and \<open>size\<close> compute. Each operation reads the
  clock at most once, so the instant it reads is an argument. \<open>None\<close> is undefined behaviour:
  following an iterator to a node that is gone, or asking an empty list for its oldest node.

  The invariant says that index and list describe the same entries. From it every operation is
  defined, keeps the invariant, and does to the abstract list what \<open>Lru_Spec\<close> says.
\<close>

section \<open>State\<close>

record cache =
  c_entries :: recency_list
  c_index :: "(string \<times> iterator) list"
  c_capacity :: "nat option"
  c_evictions :: nat
  c_expired_removals :: nat

definition cache_unbounded :: cache where
  "cache_unbounded = \<lparr>c_entries = rl_empty_list, c_index = [], c_capacity = None,
     c_evictions = 0, c_expired_removals = 0\<rparr>"

definition cache_bounded :: "nat \<Rightarrow> cache" where
  "cache_bounded n = cache_unbounded\<lparr>c_capacity := Some n\<rparr>"

text \<open>The two constructors as one, by the capacity they were given.\<close>

definition fresh_cache :: "nat option \<Rightarrow> cache" where
  "fresh_cache cap = (case cap of None \<Rightarrow> cache_unbounded | Some n \<Rightarrow> cache_bounded n)"

definition index_emplace :: "string \<Rightarrow> iterator \<Rightarrow> (string \<times> iterator) list \<Rightarrow> (string \<times> iterator) list" where
  "index_emplace k it ix = (case map_of ix k of None \<Rightarrow> (k, it) # ix | Some _ \<Rightarrow> ix)"

definition is_expired :: "time_ns \<Rightarrow> entry \<Rightarrow> bool" where
  "is_expired now e = (case entry_expires_at e of None \<Rightarrow> False | Some t \<Rightarrow> t \<le> now)"

section \<open>Operations\<close>

definition evict_oldest :: "cache \<Rightarrow> cache defined" where
  "evict_oldest c = do {
     victim \<leftarrow> oldest (c_entries c);
     let ix = AList.delete (entry_key victim) (c_index c);
     l \<leftarrow> pop_oldest (c_entries c);
     Some (c\<lparr>c_index := ix, c_entries := l, c_evictions := Suc (c_evictions c)\<rparr>)
   }"

lemma evict_oldest_shrinks:
  "evict_oldest c = Some d \<Longrightarrow> rl_size (c_entries d) < rl_size (c_entries c)"
  by (auto simp: evict_oldest_def oldest_def pop_oldest_def rl_size_def Let_def
      bind_eq_Some_conv split: if_splits)

text \<open>The trim loop of \<open>store\<close>: evict while the index is larger than the capacity.\<close>

definition over_capacity :: "cache \<Rightarrow> bool" where
  "over_capacity c = (case c_capacity c of None \<Rightarrow> False | Some n \<Rightarrow> n < length (c_index c))"

function trim :: "cache \<Rightarrow> cache defined" where
  "trim c =
     (if over_capacity c
      then (case evict_oldest c of None \<Rightarrow> None | Some d \<Rightarrow> trim d)
      else Some c)"
  by pat_completeness auto
termination
  by (relation "measure (\<lambda>c. rl_size (c_entries c))") (auto simp: evict_oldest_shrinks)

declare trim.simps [simp del]

definition store :: "string \<Rightarrow> string \<Rightarrow> time_ns option \<Rightarrow> cache \<Rightarrow> cache defined" where
  "store k v expires_at c =
     (case map_of (c_index c) k of
        Some it \<Rightarrow> do {
          l \<leftarrow> rl_assign it (\<lambda>e. e\<lparr>entry_value := v\<rparr>) (c_entries c);
          l \<leftarrow> rl_assign it (\<lambda>e. e\<lparr>entry_expires_at := expires_at\<rparr>) l;
          l \<leftarrow> mark_used it l;
          Some (c\<lparr>c_entries := l\<rparr>)
        }
      | None \<Rightarrow>
          (case insert_newest \<lparr>entry_key = k, entry_value = v, entry_expires_at = expires_at\<rparr>
                  (c_entries c) of
             (node, l) \<Rightarrow>
               trim (c\<lparr>c_entries := l, c_index := index_emplace k node (c_index c)\<rparr>)))"

text \<open>\<open>remove\<close> is called with an index iterator, that is with a key the index holds.\<close>

definition remove_at :: "string \<Rightarrow> cache \<Rightarrow> cache defined" where
  "remove_at k c = do {
     it \<leftarrow> map_of (c_index c) k;
     l \<leftarrow> rl_erase it (c_entries c);
     Some (c\<lparr>c_entries := l, c_index := AList.delete k (c_index c)\<rparr>)
   }"

text \<open>\<open>find_live\<close>: the list iterator of a present, unexpired key; an expired one is reclaimed.\<close>

definition find_live :: "time_ns \<Rightarrow> string \<Rightarrow> cache \<Rightarrow> (cache \<times> iterator option) defined" where
  "find_live now k c =
     (case map_of (c_index c) k of
        None \<Rightarrow> Some (c, None)
      | Some it \<Rightarrow> do {
          e \<leftarrow> rl_deref it (c_entries c);
          if is_expired now e
          then do {
            d \<leftarrow> remove_at k c;
            Some (d\<lparr>c_expired_removals := Suc (c_expired_removals d)\<rparr>, None)
          }
          else Some (c, Some it)
        })"

definition cache_get :: "time_ns \<Rightarrow> string \<Rightarrow> cache \<Rightarrow> (cache \<times> string option) defined" where
  "cache_get now k c = do {
     (d, found) \<leftarrow> find_live now k c;
     (case found of
        None \<Rightarrow> Some (d, None)
      | Some it \<Rightarrow> do {
          l \<leftarrow> mark_used it (c_entries d);
          e \<leftarrow> rl_deref it l;
          Some (d\<lparr>c_entries := l\<rparr>, Some (entry_value e))
        })
   }"

text \<open>\<open>get_into\<close> returns whether it hit, and the caller's buffer after the call.\<close>

definition cache_get_into ::
  "time_ns \<Rightarrow> string \<Rightarrow> string \<Rightarrow> cache \<Rightarrow> (cache \<times> bool \<times> string) defined" where
  "cache_get_into now k out c = do {
     (d, found) \<leftarrow> find_live now k c;
     (case found of
        None \<Rightarrow> Some (d, False, out)
      | Some it \<Rightarrow> do {
          l \<leftarrow> mark_used it (c_entries d);
          e \<leftarrow> rl_deref it l;
          Some (d\<lparr>c_entries := l\<rparr>, True, entry_value e)
        })
   }"

definition cache_ttl :: "time_ns \<Rightarrow> string \<Rightarrow> cache \<Rightarrow> (cache \<times> ttl_info) defined" where
  "cache_ttl now k c =
     (case map_of (c_index c) k of
        None \<Rightarrow> Some (c, \<lparr>ttl_info_state = Missing, ttl_remaining = 0\<rparr>)
      | Some it \<Rightarrow> do {
          e \<leftarrow> rl_deref it (c_entries c);
          (case entry_expires_at e of
             None \<Rightarrow> Some (c, \<lparr>ttl_info_state = Persistent, ttl_remaining = 0\<rparr>)
           | Some t \<Rightarrow>
               if t \<le> now
               then do {
                 d \<leftarrow> remove_at k c;
                 Some (d\<lparr>c_expired_removals := Suc (c_expired_removals d)\<rparr>,
                       \<lparr>ttl_info_state = Missing, ttl_remaining = 0\<rparr>)
               }
               else Some (c, \<lparr>ttl_info_state = Expiring,
                              ttl_remaining = duration_cast_ms (t - now)\<rparr>))
        })"

definition cache_erase :: "time_ns \<Rightarrow> string \<Rightarrow> cache \<Rightarrow> (cache \<times> bool) defined" where
  "cache_erase now k c =
     (case map_of (c_index c) k of
        None \<Rightarrow> Some (c, False)
      | Some it \<Rightarrow> do {
          e \<leftarrow> rl_deref it (c_entries c);
          let was_visible = \<not> is_expired now e;
          let c' = (if \<not> was_visible
                    then c\<lparr>c_expired_removals := Suc (c_expired_removals c)\<rparr> else c);
          d \<leftarrow> remove_at k c';
          Some (d, was_visible)
        })"

definition cache_set :: "string \<Rightarrow> string \<Rightarrow> cache \<Rightarrow> cache defined" where
  "cache_set k v c = store k v None c"

text \<open>
  \<open>Clock::now() + ttl\<close>: milliseconds are first converted to nanoseconds. An overflow, undefined in C++, is
  taken modulo \<open>2 ^ 64\<close>; \<open>deadline_exact\<close> and \<open>deadline_checked_Some\<close> say where there is none.
\<close>

definition deadline :: "time_ns \<Rightarrow> duration_ms \<Rightarrow> time_ns" where
  "deadline now ttl = wrap64 (now + wrap64 (ttl * ns_per_ms))"

definition cache_set_ttl ::
  "time_ns \<Rightarrow> string \<Rightarrow> string \<Rightarrow> duration_ms \<Rightarrow> cache \<Rightarrow> cache defined" where
  "cache_set_ttl now k v ttl c =
     (if ttl \<le> 0
      then map_option fst (cache_erase now k c)
      else store k v (Some (deadline now ttl)) c)"

definition cache_contains :: "time_ns \<Rightarrow> string \<Rightarrow> cache \<Rightarrow> bool defined" where
  "cache_contains now k c =
     (case map_of (c_index c) k of
        None \<Rightarrow> Some False
      | Some it \<Rightarrow> do { e \<leftarrow> rl_deref it (c_entries c); Some (\<not> is_expired now e) })"

definition cache_clear :: "cache \<Rightarrow> cache" where
  "cache_clear c = c\<lparr>c_index := [], c_entries := rl_clear (c_entries c)\<rparr>"

definition cache_size :: "cache \<Rightarrow> nat" where
  "cache_size c = length (c_index c)"

definition cache_empty :: "cache \<Rightarrow> bool" where
  "cache_empty c \<longleftrightarrow> c_index c = []"

text \<open>\<open>export_entries\<close>: one pass front to back against one instant.\<close>

fun export_loop :: "time_ns \<Rightarrow> entry list \<Rightarrow> entry_snapshot list" where
  "export_loop now [] = []"
| "export_loop now (e # es) =
     (case entry_expires_at e of
        None \<Rightarrow>
          \<lparr>snap_key = entry_key e, snap_value = entry_value e, snap_remaining_ttl = None\<rparr>
            # export_loop now es
      | Some t \<Rightarrow>
          if t \<le> now then export_loop now es
          else \<lparr>snap_key = entry_key e, snap_value = entry_value e,
                snap_remaining_ttl = Some (duration_cast_ms (t - now))\<rparr>
            # export_loop now es)"

definition cache_export :: "time_ns \<Rightarrow> cache \<Rightarrow> entry_snapshot list" where
  "cache_export now c = export_loop now (rl_range (c_entries c))"

definition keys_by_recency :: "cache \<Rightarrow> string list" where
  "keys_by_recency c = map entry_key (rl_range (c_entries c))"

section \<open>Invariant and abstraction\<close>

text \<open>
  Index and list agree: every index entry is the key and identity of a live node, and every
  node is indexed exactly once.
\<close>

definition linked :: "(string \<times> iterator) list \<Rightarrow> (iterator \<times> entry) list \<Rightarrow> bool" where
  "linked ix ns \<longleftrightarrow> distinct (map fst ix) \<and> distinct (map fst ns) \<and>
     set ix = (\<lambda>(i, e). (entry_key e, i)) ` set ns"

definition cache_inv :: "cache \<Rightarrow> bool" where
  "cache_inv c \<longleftrightarrow> rl_inv (c_entries c) \<and> linked (c_index c) (rl_nodes (c_entries c)) \<and>
     within_cap (c_capacity c) (length (c_index c))"

definition cache_abs :: "cache \<Rightarrow> lru" where
  "cache_abs c = \<lparr>lru_items = rl_range (c_entries c), lru_cap = c_capacity c,
     lru_evictions = c_evictions c, lru_expired = c_expired_removals c\<rparr>"

lemma cache_abs_simps [simp]:
  "lru_items (cache_abs c) = rl_range (c_entries c)"
  "lru_cap (cache_abs c) = c_capacity c"
  "lru_evictions (cache_abs c) = c_evictions c"
  "lru_expired (cache_abs c) = c_expired_removals c"
  by (simp_all add: cache_abs_def)

subsection \<open>Facts about linked structures\<close>

lemma linked_find:
  assumes "linked ix ns" and "map_of ix k = Some i"
  shows "\<exists>e. map_of ns i = Some e \<and> entry_key e = k"
proof -
  from assms have "(k, i) \<in> (\<lambda>(i, e). (entry_key e, i)) ` set ns"
    by (auto simp: linked_def dest: map_of_SomeD)
  then obtain e where "(i, e) \<in> set ns" "entry_key e = k" by auto
  with assms(1) show ?thesis by (auto simp: linked_def)
qed

lemma linked_node:
  assumes "linked ix ns" and "(i, e) \<in> set ns"
  shows "map_of ix (entry_key e) = Some i"
proof -
  from assms have "(entry_key e, i) \<in> set ix" by (force simp: linked_def)
  with assms(1) show ?thesis by (simp add: linked_def)
qed

lemma linked_keys:
  assumes "linked ix ns"
  shows "distinct (map (entry_key \<circ> snd) ns)"
proof -
  from assms have ids: "distinct ns" "distinct (map fst ns)"
    by (auto simp: linked_def distinct_map)
  have "inj_on (entry_key \<circ> snd) (set ns)"
  proof (rule inj_onI)
    fix p q assume p: "p \<in> set ns" and q: "q \<in> set ns"
      and "(entry_key \<circ> snd) p = (entry_key \<circ> snd) q"
    then have "fst p = fst q"
      using linked_node [OF assms, of "fst p" "snd p"] linked_node [OF assms, of "fst q" "snd q"]
      by simp
    with p q ids(2) show "p = q" by (auto simp: distinct_map dest: inj_onD)
  qed
  with ids(1) show ?thesis by (simp add: distinct_map)
qed

lemma linked_inj:
  assumes "linked ix ns"
  shows "inj_on (\<lambda>(i, e). (entry_key e, i)) (set ns)"
proof (rule inj_onI)
  fix p q assume "p \<in> set ns" "q \<in> set ns"
    and "(case p of (i, e) \<Rightarrow> (entry_key e, i)) = (case q of (i, e) \<Rightarrow> (entry_key e, i))"
  moreover from this have "fst p = fst q" by (simp add: case_prod_beta)
  moreover from assms have "inj_on fst (set ns)" by (simp add: linked_def distinct_map)
  ultimately show "p = q" by (simp add: inj_on_def)
qed

lemma linked_length:
  assumes "linked ix ns"
  shows "length ix = length ns"
proof -
  from assms have "distinct ix" "distinct ns" by (auto simp: linked_def distinct_map)
  moreover have "card (set ix) = card (set ns)"
    using linked_inj [OF assms] assms by (simp add: linked_def card_image)
  ultimately show ?thesis by (simp add: distinct_card)
qed

lemma linked_absent:
  "linked ix ns \<Longrightarrow> map_of ix k = None \<Longrightarrow> k \<notin> entry_key ` snd ` set ns"
  using linked_node by fastforce

lemma linked_find_spec:
  assumes "linked ix ns" and "map_of ns i = Some e"
  shows "lru_find (entry_key e) (map snd ns) = Some e"
proof -
  from linked_keys [OF assms(1)] have "distinct (map entry_key (map snd ns))" by simp
  moreover from assms(2) have "e \<in> set (map snd ns)" by (force dest: map_of_SomeD)
  ultimately show ?thesis by (rule lru_find_in)
qed

lemma linked_delete_spec:
  assumes "linked ix ns" and "map_of ns i = Some e"
  shows "map snd (AList.delete i ns) = lru_drop (entry_key e) (map snd ns)"
proof -
  have "fst p \<noteq> i \<longleftrightarrow> entry_key (snd p) \<noteq> entry_key e" if "p \<in> set ns" for p
  proof -
    from that have p: "map_of ix (entry_key (snd p)) = Some (fst p)"
      by (intro linked_node [OF assms(1)]) simp
    from assms(2) have e: "map_of ix (entry_key e) = Some i"
      by (intro linked_node [OF assms(1)]) (rule map_of_SomeD)
    from assms(1) that have "map_of ns (fst p) = Some (snd p)"
      by (simp add: linked_def)
    with p e assms(2) show ?thesis by auto
  qed
  then have "filter (\<lambda>p. fst p \<noteq> i) ns = filter (\<lambda>p. entry_key (snd p) \<noteq> entry_key e) ns"
    by (intro filter_cong) auto
  then show ?thesis
    by (simp add: alist_delete_filter lru_drop_def filter_map comp_def)
qed

lemma linked_nil [simp]: "linked [] []"
  by (simp add: linked_def)

lemma linked_delete:
  assumes "linked ix ns" and "map_of ix k = Some i"
  shows "linked (AList.delete k ix) (AList.delete i ns)"
proof -
  from linked_find [OF assms] obtain e where e: "map_of ns i = Some e" "entry_key e = k" by blast
  from assms have "set (AList.delete k ix) = set ix - {(k, i)}"
    by (intro set_alist_delete) (auto simp: linked_def)
  also have "\<dots> = (\<lambda>(i, e). (entry_key e, i)) ` set (AList.delete i ns)"
  proof -
    have "set (AList.delete i ns) = set ns - {(i, e)}"
      using assms(1) e(1) by (intro set_alist_delete) (auto simp: linked_def)
    moreover note linked_inj [OF assms(1)]
    moreover have "(i, e) \<in> set ns" using e(1) by (rule map_of_SomeD)
    ultimately show ?thesis
      using assms(1) e(2) by (simp add: linked_def inj_on_image_set_diff)
  qed
  finally show ?thesis using assms(1) by (simp add: linked_def)
qed

lemma linked_move:
  assumes "linked ix ns" and "map_of ns i = Some e"
  shows "linked ix ((i, e) # AList.delete i ns)"
proof -
  from assms have "set ((i, e) # AList.delete i ns) = set ns"
    by (auto simp: linked_def set_alist_delete dest: map_of_SomeD)
  moreover have "distinct (map fst ((i, e) # AList.delete i ns))"
    using assms(1) by (auto simp: linked_def alist_delete_filter distinct_map_filter)
  ultimately show ?thesis using assms(1) by (simp add: linked_def)
qed

lemma linked_assign:
  assumes "linked ix ns" and "\<And>e. entry_key (f e) = entry_key e"
  shows "linked ix (map (\<lambda>(i, x). (i, if i = it then f x else x)) ns)"
proof -
  have "(\<lambda>(i, e). (entry_key e, i)) ` set (map (\<lambda>(i, x). (i, if i = it then f x else x)) ns)
      = (\<lambda>(i, e). (entry_key e, i)) ` set ns"
    by (auto simp: image_image assms(2) intro!: image_cong)
  with assms(1) show ?thesis by (simp only: linked_def map_fst_assign)
qed

lemma linked_insert:
  assumes "linked ix ns" and "map_of ix (entry_key e) = None" and "i \<notin> fst ` set ns"
  shows "linked ((entry_key e, i) # ix) ((i, e) # ns)"
  using assms by (auto simp: linked_def map_of_eq_None_iff)

lemma linked_butlast:
  assumes "linked ix ns" and "ns \<noteq> []"
  shows "linked (AList.delete (entry_key (snd (last ns))) ix) (butlast ns)"
proof -
  let ?p = "last ns"
  from assms(2) have p: "?p \<in> set ns" by simp
  with assms(1) have find: "map_of ix (entry_key (snd ?p)) = Some (fst ?p)"
    by (intro linked_node) auto
  have "AList.delete (fst ?p) (butlast ns @ [?p]) = butlast ns"
  proof -
    from assms have "distinct (map fst (butlast ns @ [?p]))" by (simp add: linked_def)
    then have "fst ?p \<notin> fst ` set (butlast ns)" by simp
    then show ?thesis by (cases ?p) (auto simp: alist_delete_filter filter_id_conv image_iff)
  qed
  with assms(2) have "AList.delete (fst ?p) ns = butlast ns" by simp
  with linked_delete [OF assms(1) find] show ?thesis by simp
qed

subsection \<open>The internal operations\<close>

lemma cache_inv_counters [simp]:
  "cache_inv (c\<lparr>c_expired_removals := n\<rparr>) = cache_inv c"
  "cache_inv (c\<lparr>c_evictions := n\<rparr>) = cache_inv c"
  by (simp_all add: cache_inv_def)

lemma cache_invD:
  assumes "cache_inv c"
  shows "rl_inv (c_entries c)" and "linked (c_index c) (rl_nodes (c_entries c))"
    and "within_cap (c_capacity c) (length (c_index c))"
  using assms by (simp_all add: cache_inv_def)

lemma cache_inv_lru_ok: "cache_inv c \<Longrightarrow> lru_ok (cache_abs c)"
  using linked_keys [OF cache_invD(2)] linked_length [OF cache_invD(2)]
  by (auto simp: lru_ok_def cache_inv_def rl_range_def)

lemma cache_inv_unbounded [simp, cx_inv]: "cache_inv cache_unbounded"
  by (simp add: cache_inv_def cache_unbounded_def rl_empty_list_def rl_inv_def)

lemma cache_inv_bounded [simp, cx_inv]: "cache_inv (cache_bounded n)"
  by (simp add: cache_inv_def cache_bounded_def cache_unbounded_def rl_empty_list_def rl_inv_def)

lemma cache_inv_fresh [simp, cx_inv]: "cache_inv (fresh_cache cap)"
  by (cases cap) (simp_all add: fresh_cache_def)

lemma cache_abs_fresh [simp]:
  "cache_abs (fresh_cache cap) = \<lparr>lru_items = [], lru_cap = cap, lru_evictions = 0, lru_expired = 0\<rparr>"
  by (cases cap) (simp_all add: fresh_cache_def cache_abs_def cache_bounded_def cache_unbounded_def
      rl_range_def rl_empty_list_def)

text \<open>Looking a key up in the index is looking it up in the list.\<close>

lemma index_lookup:
  assumes "cache_inv c"
  obtains (absent) "map_of (c_index c) k = None" "lru_find k (rl_range (c_entries c)) = None"
  | (present) it e where "map_of (c_index c) k = Some it" "rl_deref it (c_entries c) = Some e"
      "entry_key e = k" "lru_find k (rl_range (c_entries c)) = Some e"
proof (cases "map_of (c_index c) k")
  case None
  from linked_absent [OF cache_invD(2) [OF assms] None] have "lru_find k (rl_range (c_entries c)) = None"
    by (simp add: lru_find_None rl_range_def)
  with None show thesis by (rule absent)
next
  case (Some it)
  note links = cache_invD(2) [OF assms]
  from linked_find [OF links Some] obtain e
    where e: "map_of (rl_nodes (c_entries c)) it = Some e" "entry_key e = k" by blast
  from linked_find_spec [OF links e(1)] e(2) have "lru_find k (rl_range (c_entries c)) = Some e"
    by (simp add: rl_range_def)
  with Some e show thesis by (intro present) (auto simp: rl_deref_def)
qed

lemma is_expired_live [simp]: "is_expired now e = (\<not> live_at now e)"
  by (auto simp: is_expired_def live_at_def split: option.splits)

lemma remove_at_refines:
  assumes inv: "cache_inv c" and k: "map_of (c_index c) k = Some it"
  shows "\<exists>d. remove_at k c = Some d \<and> cache_inv d \<and>
    cache_abs d = (cache_abs c)\<lparr>lru_items := lru_drop k (rl_range (c_entries c))\<rparr>"
proof -
  note links = cache_invD(2) [OF inv]
  from linked_find [OF links k] obtain e
    where e: "map_of (rl_nodes (c_entries c)) it = Some e" "entry_key e = k" by blast
  from rl.del_law [OF cache_invD(1) [OF inv] e(1)] obtain l
    where l: "rl_erase it (c_entries c) = Some l" "rl_inv l"
      "rl_nodes l = AList.delete it (rl_nodes (c_entries c))" by blast
  let ?d = "c\<lparr>c_entries := l, c_index := AList.delete k (c_index c)\<rparr>"
  have "remove_at k c = Some ?d" by (simp add: remove_at_def k l)
  moreover have "cache_inv ?d"
  proof -
    from links k have "length (c_index c) = Suc (length (AList.delete k (c_index c)))"
      by (intro length_alist_delete) (auto simp: linked_def)
    with cache_invD(3) [OF inv] have "within_cap (c_capacity c) (length (AList.delete k (c_index c)))"
      by (auto intro: within_cap_mono)
    with l(2,3) linked_delete [OF links k] show ?thesis by (simp add: cache_inv_def)
  qed
  moreover have "cache_abs ?d = (cache_abs c)\<lparr>lru_items := lru_drop k (rl_range (c_entries c))\<rparr>"
    using linked_delete_spec [OF links e(1)] e(2) l(3) by (simp add: cache_abs_def rl_range_def)
  ultimately show ?thesis by blast
qed

lemma mark_used_refines:
  assumes inv: "cache_inv c" and k: "map_of (c_index c) k = Some it"
    and e: "rl_deref it (c_entries c) = Some e" "entry_key e = k"
  shows "\<exists>l. mark_used it (c_entries c) = Some l \<and> rl_deref it l = Some e \<and>
    cache_inv (c\<lparr>c_entries := l\<rparr>) \<and> rl_range l = e # lru_drop k (rl_range (c_entries c))"
proof -
  note links = cache_invD(2) [OF inv]
  from e have n: "map_of (rl_nodes (c_entries c)) it = Some e" by (simp add: rl_deref_def)
  from rl.touch_law [OF cache_invD(1) [OF inv] n] obtain l
    where l: "mark_used it (c_entries c) = Some l" "rl_inv l"
      "rl_nodes l = (it, e) # AList.delete it (rl_nodes (c_entries c))" by blast
  with linked_move [OF links n] cache_invD(3) [OF inv]
  have "cache_inv (c\<lparr>c_entries := l\<rparr>)" by (simp add: cache_inv_def)
  moreover have "rl_range l = e # lru_drop k (rl_range (c_entries c))"
    using linked_delete_spec [OF links n] e(2) l(3) by (simp add: rl_range_def)
  ultimately show ?thesis using l by (simp add: rl_deref_def)
qed

subsection \<open>Eviction and the trim loop\<close>

lemma evict_oldest_refines:
  assumes "rl_inv (c_entries c)" and "linked (c_index c) (rl_nodes (c_entries c))"
    and "rl_nodes (c_entries c) \<noteq> []"
  shows "\<exists>l. evict_oldest c = Some (c\<lparr>c_index := AList.delete (entry_key (snd (last (rl_nodes (c_entries c))))) (c_index c),
      c_entries := l, c_evictions := Suc (c_evictions c)\<rparr>) \<and> rl_inv l \<and>
    rl_nodes l = butlast (rl_nodes (c_entries c)) \<and>
    linked (AList.delete (entry_key (snd (last (rl_nodes (c_entries c))))) (c_index c)) (rl_nodes l)"
proof -
  from rl.pop_law [OF assms(1,3)] obtain l where l: "pop_oldest (c_entries c) = Some l" "rl_inv l"
    "rl_nodes l = butlast (rl_nodes (c_entries c))" by blast
  with rl.old_law [OF assms(3)] linked_butlast [OF assms(2,3)] show ?thesis
    by (intro exI [of _ l]) (simp add: evict_oldest_def Let_def)
qed

lemma trim_refines:
  assumes "rl_inv (c_entries c)" and "linked (c_index c) (rl_nodes (c_entries c))"
  shows "\<exists>d. trim c = Some d \<and> cache_inv d \<and>
    cache_abs d = (cache_abs c)\<lparr>lru_items := take_cap (c_capacity c) (rl_range (c_entries c)),
      lru_evictions := c_evictions c + (length (rl_range (c_entries c))
        - length (take_cap (c_capacity c) (rl_range (c_entries c))))\<rparr>"
  using assms
proof (induction c rule: trim.induct)
  case (1 c)
  note len = linked_length [OF "1.prems"(2)]
  show ?case
  proof (cases "over_capacity c")
    case False
    then have "within_cap (c_capacity c) (length (c_index c))"
      by (auto simp: over_capacity_def split: option.splits)
    with False "1.prems" len show ?thesis
      by (subst trim.simps) (auto simp: cache_inv_def cache_abs_def rl_range_def)
  next
    case True
    then obtain n where n: "c_capacity c = Some n" "n < length (rl_nodes (c_entries c))"
      using len by (auto simp: over_capacity_def split: option.splits)
    then have "rl_nodes (c_entries c) \<noteq> []" by auto
    from evict_oldest_refines [OF "1.prems" this] obtain ix l where
      d: "evict_oldest c = Some (c\<lparr>c_index := ix, c_entries := l, c_evictions := Suc (c_evictions c)\<rparr>)"
         "rl_inv l" "rl_nodes l = butlast (rl_nodes (c_entries c))" "linked ix (rl_nodes l)" by blast
    let ?d = "c\<lparr>c_index := ix, c_entries := l, c_evictions := Suc (c_evictions c)\<rparr>"
    from "1.IH" [OF True d(1)] d(2,4) obtain f where f: "trim ?d = Some f" "cache_inv f"
      "cache_abs f = (cache_abs ?d)\<lparr>lru_items := take n (rl_range l),
         lru_evictions := Suc (c_evictions c) + (length (rl_range l) - length (take n (rl_range l)))\<rparr>"
      using n(1) by auto
    have "take n (rl_range l) = take n (rl_range (c_entries c))"
      using n(2) d(3) by (simp add: rl_range_def take_map take_butlast)
    moreover have "Suc (length (rl_range l)) = length (rl_range (c_entries c))"
      using n(2) d(3) by (simp add: rl_range_def)
    ultimately have "cache_abs f = (cache_abs c)\<lparr>lru_items := take n (rl_range (c_entries c)),
         lru_evictions := c_evictions c + (length (rl_range (c_entries c)) - length (take n (rl_range (c_entries c))))\<rparr>"
      using f(3) n(2) by (simp add: cache_abs_def rl_range_def)
    with True d(1) f n(1) show ?thesis by (subst trim.simps) auto
  qed
qed

subsection \<open>The public operations refine the specification\<close>

lemma assign_refines:
  assumes inv: "cache_inv c" and k: "map_of (c_index c) k = Some it"
    and e: "rl_deref it (c_entries c) = Some e" "entry_key e = k"
    and f: "\<And>e. entry_key (f e) = entry_key e"
  shows "\<exists>l. rl_assign it f (c_entries c) = Some l \<and> cache_inv (c\<lparr>c_entries := l\<rparr>) \<and>
    rl_deref it l = Some (f e) \<and> lru_drop k (rl_range l) = lru_drop k (rl_range (c_entries c))"
proof -
  let ?ns = "rl_nodes (c_entries c)"
  let ?ms = "map (\<lambda>(i, x). (i, if i = it then f x else x)) ?ns"
  let ?l = "(c_entries c)\<lparr>rl_nodes := ?ms\<rparr>"
  note links = cache_invD(2) [OF inv]
  from e have n: "map_of ?ns it = Some e" by (simp add: rl_deref_def)
  then have m: "map_of ?ms it = Some (f e)" by (simp only: map_of_assign simp_thms if_True option.map)
  note links' = linked_assign [OF links, of f it, OF f]
  have inv': "cache_inv (c\<lparr>c_entries := ?l\<rparr>)"
    using links' rl_inv_assign [OF cache_invD(1) [OF inv]] cache_invD(3) [OF inv]
    by (simp add: cache_inv_def)
  have "lru_drop k (map snd ?ms) = lru_drop k (map snd ?ns)"
    using linked_delete_spec [OF links n] linked_delete_spec [OF links' m] e(2) f
    by (metis delete_assign)
  with n m inv' show ?thesis
    by (intro exI [of _ ?l]) (simp add: rl_assign_def rl_deref_def rl_range_def)
qed

lemma store_refines:
  assumes "cache_inv c"
  shows "\<exists>d. store k v x c = Some d \<and> cache_inv d \<and>
    cache_abs d = lru_put \<lparr>entry_key = k, entry_value = v, entry_expires_at = x\<rparr> (cache_abs c)"
  using assms
proof (cases rule: index_lookup [where k = k])
  case absent
  let ?e = "\<lparr>entry_key = k, entry_value = v, entry_expires_at = x\<rparr>"
  obtain i l where il: "insert_newest ?e (c_entries c) = (i, l)" by fastforce
  from rl.ins_law [OF cache_invD(1) [OF assms] il]
  have l: "rl_inv l" "rl_nodes l = (i, ?e) # rl_nodes (c_entries c)" "i \<notin> fst ` set (rl_nodes (c_entries c))"
    by simp_all
  let ?c = "c\<lparr>c_entries := l, c_index := (k, i) # c_index c\<rparr>"
  have "linked ((k, i) # c_index c) (rl_nodes l)"
    using linked_insert [OF cache_invD(2) [OF assms], of ?e i] absent(1) l(2,3) by simp
  with l(1) have "\<exists>d. trim ?c = Some d \<and> cache_inv d \<and>
      cache_abs d = (cache_abs ?c)\<lparr>lru_items := take_cap (c_capacity c) (rl_range l),
      lru_evictions := c_evictions c + (length (rl_range l) - length (take_cap (c_capacity c) (rl_range l)))\<rparr>"
    using trim_refines [of ?c] by simp
  moreover have "rl_range l = ?e # lru_drop k (rl_range (c_entries c))"
    using l(2) absent(2) by (simp add: rl_range_def lru_find_None lru_drop_absent)
  ultimately show ?thesis
    using absent(1) il by (simp add: store_def index_emplace_def lru_put_def Let_def cache_abs_def)
next
  case (present it e)
  from assign_refines [OF assms present(1,2,3), of "\<lambda>e. e\<lparr>entry_value := v\<rparr>"] obtain l1 where
    l1: "rl_assign it (\<lambda>e. e\<lparr>entry_value := v\<rparr>) (c_entries c) = Some l1" "cache_inv (c\<lparr>c_entries := l1\<rparr>)"
      "rl_deref it l1 = Some (e\<lparr>entry_value := v\<rparr>)"
      "lru_drop k (rl_range l1) = lru_drop k (rl_range (c_entries c))" by auto
  from assign_refines [OF l1(2), of k it _ "\<lambda>e. e\<lparr>entry_expires_at := x\<rparr>"] present(1,3) l1(3,4)
  obtain l2 where
    l2: "rl_assign it (\<lambda>e. e\<lparr>entry_expires_at := x\<rparr>) l1 = Some l2" "cache_inv (c\<lparr>c_entries := l2\<rparr>)"
      "rl_deref it l2 = Some (e\<lparr>entry_value := v, entry_expires_at := x\<rparr>)"
      "lru_drop k (rl_range l2) = lru_drop k (rl_range (c_entries c))" by auto
  from mark_used_refines [OF l2(2), of k it] present(1,3) l2(3,4) obtain l3 where
    l3: "mark_used it l2 = Some l3" "cache_inv (c\<lparr>c_entries := l3\<rparr>)"
      "rl_range l3 = e\<lparr>entry_value := v, entry_expires_at := x\<rparr> # lru_drop k (rl_range (c_entries c))"
    by auto
  have e: "e\<lparr>entry_value := v, entry_expires_at := x\<rparr> = \<lparr>entry_key = k, entry_value = v, entry_expires_at = x\<rparr>"
    using present(3) by simp
  have "within_cap (c_capacity c) (length (rl_range l3))"
    using cache_inv_lru_ok [OF l3(2)] by (simp add: lru_ok_def)
  with present(1) l1(1) l2(1) l3 e show ?thesis
    by (intro exI [of _ "c\<lparr>c_entries := l3\<rparr>"])
      (simp add: store_def lru_put_def Let_def cache_abs_def)
qed

lemma find_live_refines:
  assumes "cache_inv c"
  shows "find_live now k c =
      (case lru_find k (rl_range (c_entries c)) of
         None \<Rightarrow> Some (c, None)
       | Some e \<Rightarrow> if live_at now e then Some (c, map_of (c_index c) k)
                   else map_option (\<lambda>d. (d\<lparr>c_expired_removals := Suc (c_expired_removals d)\<rparr>, None)) (remove_at k c))"
  using assms
proof (cases rule: index_lookup [where k = k])
  case absent
  then show ?thesis by (simp add: find_live_def)
next
  case (present it e)
  then show ?thesis by (simp add: find_live_def) (cases "remove_at k c"; simp)
qed

lemma cache_get_refines:
  assumes "cache_inv c"
  shows "\<exists>d. cache_get now k c = Some (d, snd (lru_get now k (cache_abs c))) \<and> cache_inv d \<and>
    cache_abs d = fst (lru_get now k (cache_abs c))"
  using assms
proof (cases rule: index_lookup [where k = k])
  case absent
  with assms show ?thesis by (simp add: cache_get_def find_live_def lru_get_def)
next
  case (present it e)
  show ?thesis
  proof (cases "live_at now e")
    case True
    from mark_used_refines [OF assms present(1,2,3)] obtain l where
      "mark_used it (c_entries c) = Some l" "rl_deref it l = Some e" "cache_inv (c\<lparr>c_entries := l\<rparr>)"
      "rl_range l = e # lru_drop k (rl_range (c_entries c))" by blast
    with True present show ?thesis
      by (simp add: cache_get_def find_live_def lru_get_def cache_abs_def)
  next
    case False
    from remove_at_refines [OF assms present(1)] obtain d where
      "remove_at k c = Some d" "cache_inv d"
      "cache_abs d = (cache_abs c)\<lparr>lru_items := lru_drop k (rl_range (c_entries c))\<rparr>" by blast
    with False present show ?thesis
      by (simp add: cache_get_def find_live_def lru_get_def lru_reclaim_def cache_abs_def)
  qed
qed

text \<open>\<open>get_into\<close> is \<open>get\<close> with the value copied into the caller's buffer.\<close>

lemma cache_get_into_eq:
  "cache_get_into now k out c =
     map_option (\<lambda>(d, r). (d, r \<noteq> None, case r of None \<Rightarrow> out | Some v \<Rightarrow> v)) (cache_get now k c)"
  by (auto simp: cache_get_into_def cache_get_def map_option_case split: option.splits prod.splits
      Option.bind_splits)

lemma cache_erase_refines:
  assumes "cache_inv c"
  shows "\<exists>d. cache_erase now k c = Some (d, snd (lru_erase now k (cache_abs c))) \<and> cache_inv d \<and>
    cache_abs d = fst (lru_erase now k (cache_abs c))"
  using assms
proof (cases rule: index_lookup [where k = k])
  case absent
  with assms show ?thesis by (simp add: cache_erase_def lru_erase_def)
next
  case (present it e)
  let ?c = "if live_at now e then c else c\<lparr>c_expired_removals := Suc (c_expired_removals c)\<rparr>"
  have "cache_inv ?c" "map_of (c_index ?c) k = Some it" using assms present(1) by simp_all
  from remove_at_refines [OF this] obtain d where
    "remove_at k ?c = Some d" "cache_inv d"
    "cache_abs d = (cache_abs ?c)\<lparr>lru_items := lru_drop k (rl_range (c_entries ?c))\<rparr>" by blast
  with present show ?thesis
    by (auto simp: cache_erase_def lru_erase_def Let_def cache_abs_def split: if_splits)
qed

lemma cache_ttl_refines:
  assumes "cache_inv c"
  shows "\<exists>d. cache_ttl now k c = Some (d, snd (lru_ttl now k (cache_abs c))) \<and> cache_inv d \<and>
    cache_abs d = fst (lru_ttl now k (cache_abs c))"
  using assms
proof (cases rule: index_lookup [where k = k])
  case absent
  with assms show ?thesis by (simp add: cache_ttl_def lru_ttl_def)
next
  case (present it e)
  from remove_at_refines [OF assms present(1)] obtain d where
    "remove_at k c = Some d" "cache_inv d"
    "cache_abs d = (cache_abs c)\<lparr>lru_items := lru_drop k (rl_range (c_entries c))\<rparr>" by blast
  with assms present show ?thesis
    by (auto simp: cache_ttl_def lru_ttl_def lru_reclaim_def cache_abs_def split: option.splits)
qed

lemma cache_contains_refines:
  assumes "cache_inv c"
  shows "cache_contains now k c = Some (lru_visible now (cache_abs c) k \<noteq> None)"
  using assms
  by (cases rule: index_lookup [where k = k]) (auto simp: cache_contains_def lru_visible_def)

lemma export_loop_eq: "export_loop now es = map (lru_snapshot now) (filter (live_at now) es)"
  by (induction es) (auto simp: lru_snapshot_def live_at_def split: option.splits)

lemma cache_export_refines: "cache_export now c = lru_export now (cache_abs c)"
  by (simp add: cache_export_def lru_export_def export_loop_eq)

lemma cache_size_refines: "cache_inv c \<Longrightarrow> cache_size c = length (lru_items (cache_abs c))"
  using linked_length [OF cache_invD(2)] by (simp add: cache_size_def rl_range_def)

lemma cache_set_ttl_refines:
  assumes "cache_inv c"
  shows "\<exists>d. cache_set_ttl now k v ttl c = Some d \<and> cache_inv d \<and>
    cache_abs d = fst (lru_step deadline (now, OpSetTtl k v ttl) (cache_abs c))"
proof (cases "ttl \<le> 0")
  case True
  with cache_erase_refines [OF assms, of now k] show ?thesis by (auto simp: cache_set_ttl_def)
next
  case False
  with store_refines [OF assms, of k v "Some (deadline now ttl)"] show ?thesis
    by (simp add: cache_set_ttl_def)
qed

lemma cache_inv_clear [simp, cx_inv]: "cache_inv (cache_clear c)"
  by (cases "c_capacity c") (simp_all add: cache_inv_def cache_clear_def rl_clear_def rl_inv_def)

section \<open>Sequences of calls\<close>

fun cache_step :: "time_ns \<times> cache_op \<Rightarrow> cache \<Rightarrow> (cache \<times> cache_result) defined" where
  "cache_step (now, OpSet k v) c = map_option (\<lambda>d. (d, RUnit)) (cache_set k v c)"
| "cache_step (now, OpSetTtl k v ttl) c = map_option (\<lambda>d. (d, RUnit)) (cache_set_ttl now k v ttl c)"
| "cache_step (now, OpGet k) c = map_option (apsnd RValue) (cache_get now k c)"
| "cache_step (now, OpGetInto k out) c =
     map_option (\<lambda>(d, hit, buf). (d, RInto hit buf)) (cache_get_into now k out c)"
| "cache_step (now, OpErase k) c = map_option (apsnd RBool) (cache_erase now k c)"
| "cache_step (now, OpContains k) c = map_option (\<lambda>b. (c, RBool b)) (cache_contains now k c)"
| "cache_step (now, OpTtl k) c = map_option (apsnd RTtl) (cache_ttl now k c)"
| "cache_step (now, OpClear) c = Some (cache_clear c, RUnit)"
| "cache_step (now, OpSize) c = Some (c, RNat (cache_size c))"
| "cache_step (now, OpExport) c = Some (c, RSnapshots (cache_export now c))"
| "cache_step (now, OpKeys) c = Some (c, RKeys (keys_by_recency c))"

lemma cache_step_refines:
  assumes "cache_inv c"
  shows "\<exists>d r. cache_step x c = Some (d, r) \<and> cache_inv d \<and>
    lru_step deadline x (cache_abs c) = (cache_abs d, r)"
proof -
  obtain now op where x: "x = (now, op)" by fastforce
  show ?thesis
  proof (cases op)
    case (OpSet k v)
    with x store_refines [OF assms, of k v None] show ?thesis by (auto simp: cache_set_def)
  next
    case (OpSetTtl k v ttl)
    with x cache_set_ttl_refines [OF assms, of now k v ttl] show ?thesis by auto
  next
    case (OpGet k)
    with x cache_get_refines [OF assms, of now k] show ?thesis
      by (cases "lru_get now k (cache_abs c)") auto
  next
    case (OpGetInto k out)
    with x cache_get_refines [OF assms, of now k] show ?thesis
      by (cases "lru_get now k (cache_abs c)") (auto simp: cache_get_into_eq)
  next
    case (OpErase k)
    with x cache_erase_refines [OF assms, of now k] show ?thesis
      by (cases "lru_erase now k (cache_abs c)") auto
  next
    case (OpTtl k)
    with x cache_ttl_refines [OF assms, of now k] show ?thesis
      by (cases "lru_ttl now k (cache_abs c)") auto
  qed (use x assms cache_contains_refines [OF assms] cache_size_refines [OF assms]
      in \<open>auto simp: cache_export_refines keys_by_recency_def cache_clear_def cache_abs_def
        rl_clear_def rl_range_def cache_inv_clear [unfolded cache_clear_def rl_clear_def]\<close>)
qed

interpretation cache_lru: defined_refinement cache_step "lru_step deadline" cache_abs cache_inv
  by unfold_locales (rule cache_step_refines)

end
