(* ===== verification/Kv_Spec.thy ===== *)
theory Kv_Spec
  imports Lru_Cache
begin

text \<open>
  The key-value contract of an unbounded cache, with the order of entries forgotten: a map from
  key to entry. \<open>Cache\<close> and \<open>ShardedCache\<close> expose the same single-key interface; both are shown
  to implement this specification, and the locale \<open>same_answers\<close> concludes that a client
  cannot tell them apart.
\<close>

type_synonym kv_map = "string \<Rightarrow> entry option"

datatype kv_op =
    KvSet string string
  | KvSetTtl string string duration_ms
  | KvGet string
  | KvGetInto string string
  | KvErase string
  | KvContains string
  | KvTtl string
  | KvClear

fun cache_op_of :: "kv_op \<Rightarrow> cache_op" where
  "cache_op_of (KvSet k v) = OpSet k v"
| "cache_op_of (KvSetTtl k v ttl) = OpSetTtl k v ttl"
| "cache_op_of (KvGet k) = OpGet k"
| "cache_op_of (KvGetInto k out) = OpGetInto k out"
| "cache_op_of (KvErase k) = OpErase k"
| "cache_op_of (KvContains k) = OpContains k"
| "cache_op_of (KvTtl k) = OpTtl k"
| "cache_op_of KvClear = OpClear"

fun kv_key :: "kv_op \<Rightarrow> string option" where
  "kv_key (KvSet k v) = Some k"
| "kv_key (KvSetTtl k v ttl) = Some k"
| "kv_key (KvGet k) = Some k"
| "kv_key (KvGetInto k out) = Some k"
| "kv_key (KvErase k) = Some k"
| "kv_key (KvContains k) = Some k"
| "kv_key (KvTtl k) = Some k"
| "kv_key KvClear = None"

section \<open>The specification\<close>

text \<open>What a call does to the entry of its own key, and what it answers.\<close>

definition kv_reap :: "time_ns \<Rightarrow> entry option \<Rightarrow> entry option" where
  "kv_reap now x = (case x of None \<Rightarrow> None | Some e \<Rightarrow> if live_at now e then Some e else None)"

definition kv_ttl :: "time_ns \<Rightarrow> entry option \<Rightarrow> ttl_info" where
  "kv_ttl now x =
     (case x of
        None \<Rightarrow> \<lparr>ttl_info_state = Missing, ttl_remaining = 0\<rparr>
      | Some e \<Rightarrow>
          (case entry_expires_at e of
             None \<Rightarrow> \<lparr>ttl_info_state = Persistent, ttl_remaining = 0\<rparr>
           | Some t \<Rightarrow> \<lparr>ttl_info_state = Expiring, ttl_remaining = duration_cast_ms (t - now)\<rparr>))"

fun kv_slot :: "(time_ns \<Rightarrow> duration_ms \<Rightarrow> time_ns) \<Rightarrow> time_ns \<Rightarrow> kv_op \<Rightarrow> entry option \<Rightarrow>
    entry option \<times> cache_result" where
  "kv_slot dl now (KvSet k v) x =
     (Some \<lparr>entry_key = k, entry_value = v, entry_expires_at = None\<rparr>, RUnit)"
| "kv_slot dl now (KvSetTtl k v ttl) x =
     (if ttl \<le> 0 then None
      else Some \<lparr>entry_key = k, entry_value = v, entry_expires_at = Some (dl now ttl)\<rparr>, RUnit)"
| "kv_slot dl now (KvGet k) x = (kv_reap now x, RValue (map_option entry_value (kv_reap now x)))"
| "kv_slot dl now (KvGetInto k out) x =
     (kv_reap now x,
      case kv_reap now x of None \<Rightarrow> RInto False out | Some e \<Rightarrow> RInto True (entry_value e))"
| "kv_slot dl now (KvErase k) x = (None, RBool (kv_reap now x \<noteq> None))"
| "kv_slot dl now (KvContains k) x = (x, RBool (kv_reap now x \<noteq> None))"
| "kv_slot dl now (KvTtl k) x = (kv_reap now x, RTtl (kv_ttl now (kv_reap now x)))"
| "kv_slot dl now KvClear x = (None, RUnit)"

definition kv_step :: "(time_ns \<Rightarrow> duration_ms \<Rightarrow> time_ns) \<Rightarrow> time_ns \<times> kv_op \<Rightarrow> kv_map \<Rightarrow> kv_map \<times> cache_result" where
  "kv_step dl x m =
     (case kv_key (snd x) of
        None \<Rightarrow> (Map.empty, RUnit)
      | Some k \<Rightarrow> (case kv_slot dl (fst x) (snd x) (m k) of (y, r) \<Rightarrow> (m(k := y), r)))"

section \<open>An unbounded LRU list implements it\<close>

definition kv_of :: "entry list \<Rightarrow> kv_map" where
  "kv_of xs = (\<lambda>k. lru_find k xs)"

lemma kv_of_drop [simp]: "kv_of (lru_drop k xs) = (kv_of xs)(k := None)"
  by (auto simp: kv_of_def lru_find_drop)

lemma kv_of_nil [simp]: "kv_of [] = Map.empty"
  by (simp add: kv_of_def)

lemma kv_of_Cons [simp]: "kv_of (e # xs) = (kv_of xs)(entry_key e \<mapsto> e)"
  by (auto simp: kv_of_def)

lemma kv_of_key: "kv_of xs k = Some e \<Longrightarrow> entry_key e = k"
  by (simp add: kv_of_def lru_find_key)

lemma kv_upd_same: "m k = x \<Longrightarrow> m(k := x) = m"
  by auto

lemma kv_lru_get:
  "kv_of (lru_items (fst (lru_get now k s))) = (kv_of (lru_items s))(k := kv_reap now (kv_of (lru_items s) k))"
  "snd (lru_get now k s) = map_option entry_value (kv_reap now (kv_of (lru_items s) k))"
  "lru_cap (fst (lru_get now k s)) = lru_cap s"
  using lru_find_key [of k "lru_items s"]
  by (auto simp: lru_get_def lru_reclaim_def kv_reap_def kv_of_def lru_find_drop fun_eq_iff
      split: option.splits)

lemma kv_lru_erase:
  "kv_of (lru_items (fst (lru_erase now k s))) = (kv_of (lru_items s))(k := None)"
  "snd (lru_erase now k s) \<longleftrightarrow> kv_reap now (kv_of (lru_items s) k) \<noteq> None"
  "lru_cap (fst (lru_erase now k s)) = lru_cap s"
  by (auto simp: lru_erase_def kv_reap_def kv_of_def lru_find_drop fun_eq_iff split: option.splits)

lemma kv_lru_ttl:
  "kv_of (lru_items (fst (lru_ttl now k s))) = (kv_of (lru_items s))(k := kv_reap now (kv_of (lru_items s) k))"
  "snd (lru_ttl now k s) = kv_ttl now (kv_reap now (kv_of (lru_items s) k))"
  "lru_cap (fst (lru_ttl now k s)) = lru_cap s"
  by (auto simp: lru_ttl_def kv_ttl_def lru_reclaim_def kv_reap_def kv_of_def lru_find_drop live_at_def fun_eq_iff
      split: option.splits)

lemma kv_lru_put:
  "lru_cap s = None \<Longrightarrow> kv_of (lru_items (lru_put e s)) = (kv_of (lru_items s))(entry_key e \<mapsto> e)"
  "lru_cap (lru_put e s) = lru_cap s"
  by (auto simp: lru_put_def Let_def)

lemma kv_lru_visible: "lru_visible now s k = map_option entry_value (kv_reap now (kv_of (lru_items s) k))"
  by (auto simp: lru_visible_def kv_reap_def kv_of_def split: option.splits)

lemmas kv_lru_facts = kv_lru_get kv_lru_erase kv_lru_ttl kv_lru_put kv_lru_visible

lemma lru_step_kv:
  assumes "lru_cap s = None"
  shows "lru_cap (fst (lru_step dl (now, cache_op_of op) s)) = None"
    and "kv_step dl (now, op) (kv_of (lru_items s)) =
      (kv_of (lru_items (fst (lru_step dl (now, cache_op_of op) s))),
       snd (lru_step dl (now, cache_op_of op) s))"
  using assms
  by (cases op; auto simp: kv_step_def kv_lru_facts kv_upd_same split: option.splits)+

section \<open>Interchangeable implementations\<close>

locale same_answers =
  one: defined_refinement step1 spec abst1 inv1 + two: defined_refinement step2 spec abst2 inv2
  for step1 :: "'op \<Rightarrow> 'c \<Rightarrow> ('c \<times> 'r) option"
    and step2 :: "'op \<Rightarrow> 'd \<Rightarrow> ('d \<times> 'r) option"
    and spec :: "'op \<Rightarrow> 'a \<Rightarrow> 'a \<times> 'r"
    and abst1 abst2 inv1 inv2
begin

lemma runs_agree:
  assumes "inv1 c" and "inv2 d" and "abst1 c = abst2 d"
  shows "\<exists>c' d' rs. run_defined step1 xs c = Some (c', rs) \<and> run_defined step2 xs d = Some (d', rs)"
  using one.run_refines [OF assms(1), of xs] two.run_refines [OF assms(2), of xs] assms(3) by auto

end

definition cache_kv_step :: "time_ns \<times> kv_op \<Rightarrow> cache \<Rightarrow> (cache \<times> cache_result) defined" where
  "cache_kv_step x c = cache_step (fst x, cache_op_of (snd x)) c"

definition cache_kv :: "cache \<Rightarrow> kv_map" where
  "cache_kv c = kv_of (rl_range (c_entries c))"

definition cache_kv_inv :: "cache \<Rightarrow> bool" where
  "cache_kv_inv c \<longleftrightarrow> cache_inv c \<and> c_capacity c = None"

interpretation cache_map: defined_refinement cache_kv_step "kv_step deadline" cache_kv cache_kv_inv
proof
  fix c x
  assume c: "cache_kv_inv c"
  then have inv: "cache_inv c" "lru_cap (cache_abs c) = None" by (auto simp: cache_kv_inv_def)
  from cache_step_refines [OF inv(1), of "(fst x, cache_op_of (snd x))"] obtain d r where
    d: "cache_kv_step x c = Some (d, r)" "cache_inv d"
      "lru_step deadline (fst x, cache_op_of (snd x)) (cache_abs c) = (cache_abs d, r)"
    by (auto simp: cache_kv_step_def)
  from lru_step_kv [OF inv(2), of deadline "fst x" "snd x"] d
  show "\<exists>d r. cache_kv_step x c = Some (d, r) \<and> cache_kv_inv d \<and>
      kv_step deadline x (cache_kv c) = (cache_kv d, r)"
    by (auto simp: cache_kv_inv_def cache_kv_def)
qed

end
