(* ===== verification/Sync_Cache.thy ===== *)
theory Sync_Cache
  imports Lru_Cache
begin

text \<open>
  The thread-safe wrapper (\<open>include/cachex/sync_cache.hpp\<close>): a mutex and a cache. Every method
  takes the lock, makes exactly one call on the cache and releases the lock on every way out
  (\<open>std::lock_guard\<close>). \<open>with_lock\<close> is that pattern for one thread; taking a mutex that is
  already held by the caller is undefined behaviour. \<open>Shard_Concurrency\<close> interleaves threads.
\<close>

record sync_cache =
  sy_locked :: bool
  sy_cache :: cache

definition sync_fresh :: "nat option \<Rightarrow> sync_cache" where
  "sync_fresh cap = \<lparr>sy_locked = False, sy_cache = fresh_cache cap\<rparr>"

definition lock_mutex :: "sync_cache \<Rightarrow> sync_cache defined" where
  "lock_mutex s = (if sy_locked s then None else Some (s\<lparr>sy_locked := True\<rparr>))"

definition unlock_mutex :: "sync_cache \<Rightarrow> sync_cache" where
  "unlock_mutex s = s\<lparr>sy_locked := False\<rparr>"

definition with_lock :: "(cache \<Rightarrow> (cache \<times> 'r) defined) \<Rightarrow> sync_cache \<Rightarrow> (sync_cache \<times> 'r) defined" where
  "with_lock f s = do {
     s1 \<leftarrow> lock_mutex s;
     (c, r) \<leftarrow> f (sy_cache s1);
     Some (unlock_mutex (s1\<lparr>sy_cache := c\<rparr>), r)
   }"

section \<open>Methods\<close>

definition sync_set :: "string \<Rightarrow> string \<Rightarrow> sync_cache \<Rightarrow> (sync_cache \<times> unit) defined" where
  "sync_set k v = with_lock (\<lambda>c. map_option (\<lambda>d. (d, ())) (cache_set k v c))"

definition sync_set_ttl ::
  "time_ns \<Rightarrow> string \<Rightarrow> string \<Rightarrow> duration_ms \<Rightarrow> sync_cache \<Rightarrow> (sync_cache \<times> unit) defined" where
  "sync_set_ttl now k v ttl = with_lock (\<lambda>c. map_option (\<lambda>d. (d, ())) (cache_set_ttl now k v ttl c))"

definition sync_get :: "time_ns \<Rightarrow> string \<Rightarrow> sync_cache \<Rightarrow> (sync_cache \<times> string option) defined" where
  "sync_get now k = with_lock (cache_get now k)"

definition sync_get_into ::
  "time_ns \<Rightarrow> string \<Rightarrow> string \<Rightarrow> sync_cache \<Rightarrow> (sync_cache \<times> bool \<times> string) defined" where
  "sync_get_into now k out = with_lock (cache_get_into now k out)"

definition sync_erase :: "time_ns \<Rightarrow> string \<Rightarrow> sync_cache \<Rightarrow> (sync_cache \<times> bool) defined" where
  "sync_erase now k = with_lock (cache_erase now k)"

definition sync_contains :: "time_ns \<Rightarrow> string \<Rightarrow> sync_cache \<Rightarrow> (sync_cache \<times> bool) defined" where
  "sync_contains now k = with_lock (\<lambda>c. map_option (\<lambda>b. (c, b)) (cache_contains now k c))"

definition sync_ttl :: "time_ns \<Rightarrow> string \<Rightarrow> sync_cache \<Rightarrow> (sync_cache \<times> ttl_info) defined" where
  "sync_ttl now k = with_lock (cache_ttl now k)"

definition sync_size :: "sync_cache \<Rightarrow> (sync_cache \<times> nat) defined" where
  "sync_size = with_lock (\<lambda>c. Some (c, cache_size c))"

definition sync_empty :: "sync_cache \<Rightarrow> (sync_cache \<times> bool) defined" where
  "sync_empty = with_lock (\<lambda>c. Some (c, cache_empty c))"

definition sync_clear :: "sync_cache \<Rightarrow> (sync_cache \<times> unit) defined" where
  "sync_clear = with_lock (\<lambda>c. Some (cache_clear c, ()))"

definition sync_capacity :: "sync_cache \<Rightarrow> (sync_cache \<times> nat option) defined" where
  "sync_capacity = with_lock (\<lambda>c. Some (c, c_capacity c))"

definition sync_evictions :: "sync_cache \<Rightarrow> (sync_cache \<times> nat) defined" where
  "sync_evictions = with_lock (\<lambda>c. Some (c, c_evictions c))"

definition sync_expired_removals :: "sync_cache \<Rightarrow> (sync_cache \<times> nat) defined" where
  "sync_expired_removals = with_lock (\<lambda>c. Some (c, c_expired_removals c))"

definition sync_export :: "time_ns \<Rightarrow> sync_cache \<Rightarrow> (sync_cache \<times> entry_snapshot list) defined" where
  "sync_export now = with_lock (\<lambda>c. Some (c, cache_export now c))"

definition sync_keys_by_recency :: "sync_cache \<Rightarrow> (sync_cache \<times> string list) defined" where
  "sync_keys_by_recency = with_lock (\<lambda>c. Some (c, keys_by_recency c))"

lemmas sync_defs = sync_set_def sync_set_ttl_def sync_get_def sync_get_into_def sync_erase_def
  sync_contains_def sync_ttl_def sync_size_def sync_empty_def sync_clear_def sync_capacity_def
  sync_evictions_def sync_expired_removals_def sync_export_def sync_keys_by_recency_def

section \<open>An unlocked wrapper behaves as its cache\<close>

definition sync_inv :: "sync_cache \<Rightarrow> bool" where
  "sync_inv s \<longleftrightarrow> \<not> sy_locked s \<and> cache_inv (sy_cache s)"

definition sync_of :: "cache \<Rightarrow> sync_cache" where
  "sync_of c = \<lparr>sy_locked = False, sy_cache = c\<rparr>"

lemma sync_of_cache [simp]: "sy_cache (sync_of c) = c" "\<not> sy_locked (sync_of c)"
  by (simp_all add: sync_of_def)

lemma sync_inv_of [simp]: "sync_inv (sync_of c) = cache_inv c"
  by (simp add: sync_inv_def)

lemma sync_inv_eq: "sync_inv s \<Longrightarrow> s = sync_of (sy_cache s)"
  by (cases s) (simp add: sync_inv_def sync_of_def)

lemma sync_inv_fresh [simp, cx_inv]: "sync_inv (sync_fresh cap)"
  by (simp add: sync_inv_def sync_fresh_def)

lemma with_lock_of [simp]:
  "with_lock f (sync_of c) = map_option (\<lambda>(d, r). (sync_of d, r)) (f c)"
  by (cases "f c") (auto simp: with_lock_def lock_mutex_def unlock_mutex_def sync_of_def)

lemma with_lock_inv: "sync_inv s \<Longrightarrow> with_lock f s = map_option (\<lambda>(d, r). (sync_of d, r)) (f (sy_cache s))"
  by (subst sync_inv_eq, assumption) simp

text \<open>The lock is free again after every method, and a held lock is never entered twice.\<close>

lemma with_lock_releases: "with_lock f s = Some (s', r) \<Longrightarrow> \<not> sy_locked s'"
  by (auto simp: with_lock_def unlock_mutex_def bind_eq_Some_conv)

lemma with_lock_held: "sy_locked s \<Longrightarrow> with_lock f s = None"
  by (simp add: with_lock_def lock_mutex_def)

end
