(* ===== verification/Sharded_Cache.thy ===== *)
theory Sharded_Cache
  imports Kv_Spec Sync_Cache "HOL-Library.Word"
begin

text \<open>
  The sharded cache (\<open>include/cachex/sharded_cache.hpp\<close>, \<open>src/sharded_cache.cpp\<close>): the keys are
  split over independent locked caches by a mixed hash. \<open>std::hash\<close> is a parameter, of which
  nothing is assumed. The specification is one LRU list per shard; for unbounded caches it
  collapses to the map of \<open>Kv_Spec\<close>.
\<close>

unbundle bit_operations_syntax

section \<open>Choosing a shard\<close>

type_synonym hash_fn = "string \<Rightarrow> 64 word"

definition mix :: "64 word \<Rightarrow> 64 word" where
  "mix h0 =
     (let h = h0 XOR drop_bit 30 h0;
          h = h * 0xbf58476d1ce4e5b9;
          h = h XOR drop_bit 27 h;
          h = h * 0x94d049bb133111eb
      in h XOR drop_bit 31 h)"

definition shard_hash :: "hash_fn \<Rightarrow> string \<Rightarrow> 64 word" where
  "shard_hash std_hash key = mix (std_hash key)"

record sharded_cache =
  shards :: "sync_cache list"

definition shard_index_for :: "hash_fn \<Rightarrow> string \<Rightarrow> sharded_cache \<Rightarrow> nat" where
  "shard_index_for std_hash key s = unat (shard_hash std_hash key) mod length (shards s)"

section \<open>Construction\<close>

definition sane_shard_count :: "nat \<Rightarrow> nat" where
  "sane_shard_count requested = (if requested = 0 then 1 else requested)"

definition sharded_unbounded :: "nat \<Rightarrow> sharded_cache" where
  "sharded_unbounded shard_count =
     \<lparr>shards = map (\<lambda>i. sync_fresh None) [0..<sane_shard_count shard_count]\<rparr>"

definition bounded_count :: "nat \<Rightarrow> nat \<Rightarrow> nat" where
  "bounded_count shard_count total_capacity =
     (let count = sane_shard_count shard_count
      in if total_capacity < count then max 1 total_capacity else count)"

definition sharded_bounded :: "nat \<Rightarrow> nat \<Rightarrow> sharded_cache" where
  "sharded_bounded shard_count total_capacity =
     (let count = bounded_count shard_count total_capacity;
          base = total_capacity div count;
          remainder = total_capacity mod count
      in \<lparr>shards = map (\<lambda>i. sync_fresh (Some (base + (if i < remainder then 1 else 0)))) [0..<count]\<rparr>)"

section \<open>Operations\<close>

text \<open>
  \<open>shard_for\<close> followed by one method of that shard. Indexing past the end (only possible without
  shards, where the modulus is a division by zero as well) is undefined.
\<close>

definition on_shard :: "hash_fn \<Rightarrow> string \<Rightarrow> (sync_cache \<Rightarrow> (sync_cache \<times> 'r) defined) \<Rightarrow>
    sharded_cache \<Rightarrow> (sharded_cache \<times> 'r) defined" where
  "on_shard std_hash key f s =
     (let i = shard_index_for std_hash key s
      in if i < length (shards s)
         then map_option (\<lambda>(sh, r). (s\<lparr>shards := (shards s)[i := sh]\<rparr>, r)) (f (shards s ! i))
         else None)"

definition sharded_set :: "hash_fn \<Rightarrow> string \<Rightarrow> string \<Rightarrow> sharded_cache \<Rightarrow> (sharded_cache \<times> unit) defined" where
  "sharded_set h key v = on_shard h key (sync_set key v)"

definition sharded_set_ttl :: "hash_fn \<Rightarrow> time_ns \<Rightarrow> string \<Rightarrow> string \<Rightarrow> duration_ms \<Rightarrow>
    sharded_cache \<Rightarrow> (sharded_cache \<times> unit) defined" where
  "sharded_set_ttl h now key v ttl = on_shard h key (sync_set_ttl now key v ttl)"

definition sharded_get ::
  "hash_fn \<Rightarrow> time_ns \<Rightarrow> string \<Rightarrow> sharded_cache \<Rightarrow> (sharded_cache \<times> string option) defined" where
  "sharded_get h now key = on_shard h key (sync_get now key)"

definition sharded_get_into :: "hash_fn \<Rightarrow> time_ns \<Rightarrow> string \<Rightarrow> string \<Rightarrow>
    sharded_cache \<Rightarrow> (sharded_cache \<times> bool \<times> string) defined" where
  "sharded_get_into h now key out = on_shard h key (sync_get_into now key out)"

definition sharded_erase ::
  "hash_fn \<Rightarrow> time_ns \<Rightarrow> string \<Rightarrow> sharded_cache \<Rightarrow> (sharded_cache \<times> bool) defined" where
  "sharded_erase h now key = on_shard h key (sync_erase now key)"

definition sharded_contains ::
  "hash_fn \<Rightarrow> time_ns \<Rightarrow> string \<Rightarrow> sharded_cache \<Rightarrow> (sharded_cache \<times> bool) defined" where
  "sharded_contains h now key = on_shard h key (sync_contains now key)"

definition sharded_ttl ::
  "hash_fn \<Rightarrow> time_ns \<Rightarrow> string \<Rightarrow> sharded_cache \<Rightarrow> (sharded_cache \<times> ttl_info) defined" where
  "sharded_ttl h now key = on_shard h key (sync_ttl now key)"

text \<open>The range-for over \<open>shards_\<close>: call \<open>f i\<close> on shard \<open>i\<close> and fold its result into the total.\<close>

fun shard_loop :: "(nat \<Rightarrow> sync_cache \<Rightarrow> (sync_cache \<times> 'r) defined) \<Rightarrow> ('a \<Rightarrow> 'r \<Rightarrow> 'a) \<Rightarrow> nat \<Rightarrow> 'a \<Rightarrow>
    sync_cache list \<Rightarrow> (sync_cache list \<times> 'a) defined" where
  "shard_loop f add i acc [] = Some ([], acc)"
| "shard_loop f add i acc (sh # shs) = do {
     (sh', r) \<leftarrow> f i sh;
     (shs', acc') \<leftarrow> shard_loop f add (Suc i) (add acc r) shs;
     Some (sh' # shs', acc')
   }"

definition for_shards :: "(nat \<Rightarrow> sync_cache \<Rightarrow> (sync_cache \<times> 'r) defined) \<Rightarrow> ('a \<Rightarrow> 'r \<Rightarrow> 'a) \<Rightarrow> 'a \<Rightarrow>
    sharded_cache \<Rightarrow> (sharded_cache \<times> 'a) defined" where
  "for_shards f add acc s =
     map_option (\<lambda>(shs, r). (s\<lparr>shards := shs\<rparr>, r)) (shard_loop f add 0 acc (shards s))"

definition sharded_clear :: "sharded_cache \<Rightarrow> (sharded_cache \<times> unit) defined" where
  "sharded_clear = for_shards (\<lambda>i. sync_clear) (\<lambda>_ _. ()) ()"

definition sharded_size :: "sharded_cache \<Rightarrow> (sharded_cache \<times> nat) defined" where
  "sharded_size = for_shards (\<lambda>i. sync_size) (+) 0"

definition sharded_empty :: "sharded_cache \<Rightarrow> (sharded_cache \<times> bool) defined" where
  "sharded_empty s = map_option (apsnd (\<lambda>n. n = 0)) (sharded_size s)"

definition sharded_capacity :: "sharded_cache \<Rightarrow> (sharded_cache \<times> nat option) defined" where
  "sharded_capacity s =
     (case shards s of
        [] \<Rightarrow> None
      | front # rest \<Rightarrow> do {
          (front', cap) \<leftarrow> sync_capacity front;
          if cap = None then Some (s\<lparr>shards := front' # rest\<rparr>, None)
          else map_option (apsnd Some)
            (for_shards (\<lambda>i. sync_capacity) (\<lambda>acc c. acc + (case c of None \<Rightarrow> 0 | Some n \<Rightarrow> n)) 0
              (s\<lparr>shards := front' # rest\<rparr>))
        })"

definition sharded_evictions :: "sharded_cache \<Rightarrow> (sharded_cache \<times> nat) defined" where
  "sharded_evictions = for_shards (\<lambda>i. sync_evictions) (+) 0"

definition sharded_expired_removals :: "sharded_cache \<Rightarrow> (sharded_cache \<times> nat) defined" where
  "sharded_expired_removals = for_shards (\<lambda>i. sync_expired_removals) (+) 0"

text \<open>Each shard reads the clock for itself: \<open>clock i\<close> is the instant shard \<open>i\<close> is exported.\<close>

definition sharded_export ::
  "(nat \<Rightarrow> time_ns) \<Rightarrow> sharded_cache \<Rightarrow> (sharded_cache \<times> entry_snapshot list) defined" where
  "sharded_export clock = for_shards (\<lambda>i. sync_export (clock i)) (\<lambda>all part. all @ part) []"

fun sharded_step :: "hash_fn \<Rightarrow> time_ns \<times> kv_op \<Rightarrow> sharded_cache \<Rightarrow> (sharded_cache \<times> cache_result) defined" where
  "sharded_step h (now, KvSet k v) s = map_option (apsnd (\<lambda>_. RUnit)) (sharded_set h k v s)"
| "sharded_step h (now, KvSetTtl k v ttl) s =
     map_option (apsnd (\<lambda>_. RUnit)) (sharded_set_ttl h now k v ttl s)"
| "sharded_step h (now, KvGet k) s = map_option (apsnd RValue) (sharded_get h now k s)"
| "sharded_step h (now, KvGetInto k out) s =
     map_option (apsnd (\<lambda>(b, v). RInto b v)) (sharded_get_into h now k out s)"
| "sharded_step h (now, KvErase k) s = map_option (apsnd RBool) (sharded_erase h now k s)"
| "sharded_step h (now, KvContains k) s = map_option (apsnd RBool) (sharded_contains h now k s)"
| "sharded_step h (now, KvTtl k) s = map_option (apsnd RTtl) (sharded_ttl h now k s)"
| "sharded_step h (now, KvClear) s = map_option (apsnd (\<lambda>_. RUnit)) (sharded_clear s)"


text \<open>Shard introspection; indexing the vector out of range is undefined.\<close>

definition shard_count :: "sharded_cache \<Rightarrow> nat" where
  "shard_count s = length (shards s)"

definition shard_at :: "nat \<Rightarrow> sharded_cache \<Rightarrow> sync_cache defined" where
  "shard_at index s = (if index < length (shards s) then Some (shards s ! index) else None)"

section \<open>The mixing step loses nothing\<close>

definition unmix :: "64 word \<Rightarrow> 64 word" where
  "unmix h0 =
     (let h = h0 XOR drop_bit 31 h0 XOR drop_bit 62 h0;
          h = h * 0x319642b2d24d8ec3;
          h = h XOR drop_bit 27 h XOR drop_bit 54 h;
          h = h * 0x96de1b173f119089
      in h XOR drop_bit 30 h XOR drop_bit 60 h)"

lemma drop_bit_all: "64 \<le> n \<Longrightarrow> drop_bit n (h :: 64 word) = 0"
  by (simp add: bit_eq_iff bit_drop_bit_eq)

lemma xorshift_inverse:
  fixes h :: "64 word"
  assumes "64 \<le> 3 * n"
  shows "(h XOR drop_bit n h) XOR drop_bit n (h XOR drop_bit n h) XOR drop_bit (2 * n) (h XOR drop_bit n h) = h"
  using assms drop_bit_all [of "3 * n" h]
  by (simp add: drop_bit_xor xor.assoc xor.left_commute mult_2 add.assoc [symmetric])

lemma unmix_mix [simp]: "unmix (mix h) = h"
proof -
  have inverses: "0x94d049bb133111eb * 0x319642b2d24d8ec3 = (1 :: 64 word)"
    "0xbf58476d1ce4e5b9 * 0x96de1b173f119089 = (1 :: 64 word)"
    by simp_all
  have "x * 0x94d049bb133111eb * 0x319642b2d24d8ec3 = x" "x * 0xbf58476d1ce4e5b9 * 0x96de1b173f119089 = x"
    for x :: "64 word"
    by (simp_all only: mult.assoc inverses mult_1_right)
  moreover have
    "(x XOR drop_bit 31 x) XOR drop_bit 31 (x XOR drop_bit 31 x) XOR drop_bit 62 (x XOR drop_bit 31 x) = x"
    "(x XOR drop_bit 27 x) XOR drop_bit 27 (x XOR drop_bit 27 x) XOR drop_bit 54 (x XOR drop_bit 27 x) = x"
    "(x XOR drop_bit 30 x) XOR drop_bit 30 (x XOR drop_bit 30 x) XOR drop_bit 60 (x XOR drop_bit 30 x) = x"
    for x :: "64 word"
    using xorshift_inverse [of 31 x] xorshift_inverse [of 27 x] xorshift_inverse [of 30 x] by simp_all
  ultimately show ?thesis by (simp only: mix_def unmix_def Let_def)
qed

lemma mix_inj: "mix a = mix b \<longleftrightarrow> a = b"
  by (metis unmix_mix)


section \<open>Invariant: every entry sits in the shard its key selects\<close>

definition shard_keys :: "sync_cache \<Rightarrow> string set" where
  "shard_keys sh = entry_key ` set (rl_range (c_entries (sy_cache sh)))"

definition sharded_inv :: "hash_fn \<Rightarrow> sharded_cache \<Rightarrow> bool" where
  "sharded_inv h s \<longleftrightarrow> shards s \<noteq> [] \<and>
     (\<forall>i < length (shards s). sync_inv (shards s ! i) \<and>
        (\<forall>k \<in> shard_keys (shards s ! i). shard_index_for h k s = i))"

definition sharded_abs :: "sharded_cache \<Rightarrow> lru list" where
  "sharded_abs s = map (\<lambda>sh. cache_abs (sy_cache sh)) (shards s)"

text \<open>The specification: independent LRU lists, a call going to the one its key selects.\<close>

definition shards_spec :: "hash_fn \<Rightarrow> (time_ns \<Rightarrow> duration_ms \<Rightarrow> time_ns) \<Rightarrow> time_ns \<times> kv_op \<Rightarrow>
    lru list \<Rightarrow> lru list \<times> cache_result" where
  "shards_spec h dl x ls =
     (case kv_key (snd x) of
        None \<Rightarrow> (map (\<lambda>l. fst (lru_step dl (fst x, OpClear) l)) ls, RUnit)
      | Some k \<Rightarrow>
          let i = unat (shard_hash h k) mod length ls;
              (l, r) = lru_step dl (fst x, cache_op_of (snd x)) (ls ! i)
          in (ls[i := l], r))"

lemma shard_index_less: "shards s \<noteq> [] \<Longrightarrow> shard_index_for h k s < length (shards s)"
  by (simp add: shard_index_for_def)

lemma sharded_inv_shard:
  assumes "sharded_inv h s" and "i < length (shards s)"
  shows "sync_inv (shards s ! i)" and "cache_inv (sy_cache (shards s ! i))"
    and "shards s ! i = sync_of (sy_cache (shards s ! i))"
  using assms sync_inv_eq by (auto simp: sharded_inv_def sync_inv_def)

lemma length_sharded_abs [simp]: "length (sharded_abs s) = length (shards s)"
  by (simp add: sharded_abs_def)

lemma shard_keys_fresh [simp]: "shard_keys (sync_fresh cap) = {}"
  by (simp add: shard_keys_def sync_fresh_def fresh_cache_def cache_unbounded_def cache_bounded_def
      rl_range_def rl_empty_list_def split: option.splits)

lemma sharded_inv_unbounded [simp, cx_inv]: "sharded_inv h (sharded_unbounded n)"
  by (auto simp: sharded_inv_def sharded_unbounded_def sane_shard_count_def)

lemma bounded_count_pos [simp]: "0 < bounded_count n total_capacity"
  by (auto simp: bounded_count_def Let_def sane_shard_count_def max_def)

lemma sharded_inv_bounded [simp, cx_inv]: "sharded_inv h (sharded_bounded n total_capacity)"
  by (auto simp: sharded_inv_def sharded_bounded_def Let_def)

text \<open>An operation adds no key but its own.\<close>

lemma lru_step_keys:
  "entry_key ` set (lru_items (fst (lru_step dl (now, cache_op_of op) l)))
     \<subseteq> entry_key ` set (lru_items l) \<union> set_option (kv_key op)"
  by (cases op) (auto simp: lru_get_def lru_erase_def lru_ttl_def lru_reclaim_def lru_put_def Let_def
      set_lru_drop split: option.splits dest!: subsetD [OF set_take_cap] dest: lru_find_key)

section \<open>A call on one key is a call on one cache\<close>

lemma on_shard_with_lock:
  assumes "sharded_inv h s"
  shows "on_shard h k (with_lock f) s =
    (let i = shard_index_for h k s
     in map_option (\<lambda>(c, r). (s\<lparr>shards := (shards s)[i := sync_of c]\<rparr>, r)) (f (sy_cache (shards s ! i))))"
proof -
  from assms have i: "shard_index_for h k s < length (shards s)"
    by (simp add: sharded_inv_def shard_index_less)
  show ?thesis
    using i with_lock_of [of f "sy_cache (shards s ! shard_index_for h k s)"]
      sharded_inv_shard(3) [OF assms i]
    by (simp add: on_shard_def option.map_comp comp_def case_prod_unfold Let_def)
qed

lemma sharded_step_key:
  assumes "sharded_inv h s" and "kv_key op = Some k"
  shows "sharded_step h (now, op) s =
    (let i = shard_index_for h k s
     in map_option (\<lambda>(c, r). (s\<lparr>shards := (shards s)[i := sync_of c]\<rparr>, r))
          (cache_step (now, cache_op_of op) (sy_cache (shards s ! i))))"
  using assms
  by (cases op)
    (simp_all add: sharded_set_def sharded_set_ttl_def sharded_get_def sharded_get_into_def
      sharded_erase_def sharded_contains_def sharded_ttl_def sync_defs on_shard_with_lock
      option.map_comp comp_def case_prod_beta apsnd_def map_prod_def Let_def)

text \<open>Storing a well-formed cache whose keys belong to the shard keeps the invariant.\<close>

lemma sharded_inv_update:
  assumes "sharded_inv h s" and "cache_inv c"
    and "\<forall>k \<in> shard_keys (sync_of c). shard_index_for h k s = i"
  shows "sharded_inv h (s\<lparr>shards := (shards s)[i := sync_of c]\<rparr>)"
proof -
  have "sync_inv ((shards s)[i := sync_of c] ! j) \<and>
      (\<forall>k \<in> shard_keys ((shards s)[i := sync_of c] ! j). shard_index_for h k s = j)"
    if "j < length (shards s)" for j
    using assms that by (cases "i = j") (auto simp: sharded_inv_def)
  with assms(1) show ?thesis by (simp add: sharded_inv_def shard_index_for_def)
qed

lemma sharded_step_key_refines:
  assumes "sharded_inv h s" and "kv_key op = Some k"
  shows "\<exists>c r. sharded_step h (now, op) s =
      Some (s\<lparr>shards := (shards s)[shard_index_for h k s := sync_of c]\<rparr>, r) \<and>
    sharded_inv h (s\<lparr>shards := (shards s)[shard_index_for h k s := sync_of c]\<rparr>) \<and>
    lru_step deadline (now, cache_op_of op) (cache_abs (sy_cache (shards s ! shard_index_for h k s)))
      = (cache_abs c, r)"
proof -
  define i where "i = shard_index_for h k s"
  from assms(1) have i: "i < length (shards s)"
    by (simp add: i_def sharded_inv_def shard_index_less)
  note old = sharded_inv_shard [OF assms(1) i]
  from cache_step_refines [OF old(2), of "(now, cache_op_of op)"] obtain c r where
    c: "cache_step (now, cache_op_of op) (sy_cache (shards s ! i)) = Some (c, r)" "cache_inv c"
      "lru_step deadline (now, cache_op_of op) (cache_abs (sy_cache (shards s ! i))) = (cache_abs c, r)"
    by blast
  have "\<forall>k' \<in> shard_keys (sync_of c). shard_index_for h k' s = i"
    using lru_step_keys [of deadline now op "cache_abs (sy_cache (shards s ! i))"] c(3) assms i
    by (auto simp: shard_keys_def sharded_inv_def i_def)
  from sharded_inv_update [OF assms(1) c(2) this] show ?thesis
    using c sharded_step_key [OF assms, of now] by (auto simp: i_def Let_def)
qed


section \<open>Loops over all shards\<close>

lemma upt_Suc_front: "[i..<Suc (i + n)] = i # [Suc i..<Suc i + n]"
  by (simp add: upt_conv_Cons del: upt_Suc)

lemma shard_loop_eq:
  assumes "\<forall>sh \<in> set shs. sync_inv sh"
  shows "shard_loop (\<lambda>i. with_lock (\<lambda>c. Some (g c, f i c))) add i acc shs =
    Some (map (\<lambda>sh. sync_of (g (sy_cache sh))) shs,
          fold (\<lambda>(j, sh) a. add a (f j (sy_cache sh))) (zip [i..<i + length shs] shs) acc)"
  using assms
proof (induction shs arbitrary: i acc)
  case (Cons sh shs)
  have "with_lock (\<lambda>c. Some (g c, f i c)) sh = Some (sync_of (g (sy_cache sh)), f i (sy_cache sh))"
    using Cons.prems by (simp add: with_lock_inv)
  with Cons show ?case by (simp add: upt_Suc_front del: upt_Suc)
qed simp

lemma for_shards_read:
  assumes "sharded_inv h s"
  shows "for_shards (\<lambda>i. with_lock (\<lambda>c. Some (c, f i c))) add acc s =
    Some (s, fold (\<lambda>(j, sh) a. add a (f j (sy_cache sh))) (zip [0..<length (shards s)] (shards s)) acc)"
proof -
  from assms have all: "\<forall>sh \<in> set (shards s). sync_inv sh"
    by (auto simp: sharded_inv_def in_set_conv_nth)
  then have "map (\<lambda>sh. sync_of (sy_cache sh)) (shards s) = shards s"
    by (auto intro!: map_idI dest!: sync_inv_eq)
  then show ?thesis by (simp add: for_shards_def shard_loop_eq [OF all, of "\<lambda>c. c"])
qed

lemma fold_zip_sum:
  "length js = length xs \<Longrightarrow>
     fold (\<lambda>(j, x) a. a + f x) (zip js xs) (n :: nat) = n + sum_list (map f xs)"
  by (induction js xs arbitrary: n rule: list_induct2) simp_all

lemma fold_zip_concat:
  "fold (\<lambda>(j, x) a. a @ f j x) (zip js xs) ys = ys @ concat (map (\<lambda>(j, x). f j x) (zip js xs))"
  by (induction js xs arbitrary: ys rule: list_induct2') auto

lemma sharded_reads:
  assumes "sharded_inv h s"
  shows "sharded_size s = Some (s, \<Sum>sh \<leftarrow> shards s. cache_size (sy_cache sh))"
    and "sharded_evictions s = Some (s, \<Sum>sh \<leftarrow> shards s. c_evictions (sy_cache sh))"
    and "sharded_expired_removals s = Some (s, \<Sum>sh \<leftarrow> shards s. c_expired_removals (sy_cache sh))"
    and "sharded_export clock s = Some (s,
      concat (map (\<lambda>(i, sh). cache_export (clock i) (sy_cache sh)) (zip [0..<length (shards s)] (shards s))))"
  by (simp_all add: for_shards_read [OF assms] fold_zip_sum sharded_size_def sharded_evictions_def sharded_expired_removals_def
      sharded_export_def sync_defs fold_zip_concat)

lemma sharded_capacity_eq:
  assumes "sharded_inv h s"
  shows "sharded_capacity s =
    Some (s, if c_capacity (sy_cache (hd (shards s))) = None then None
             else Some (\<Sum>sh \<leftarrow> shards s. case c_capacity (sy_cache sh) of None \<Rightarrow> 0 | Some n \<Rightarrow> n))"
proof -
  from assms obtain front rest where fr: "shards s = front # rest"
    by (cases "shards s") (auto simp: sharded_inv_def)
  with assms have front: "front = sync_of (sy_cache front)"
    using sharded_inv_shard(3) [OF assms, of 0] by simp
  have "with_lock (\<lambda>c. Some (c, c_capacity c)) front = Some (front, c_capacity (sy_cache front))"
    using assms fr by (auto simp: with_lock_inv sharded_inv_def simp flip: front)
  then have "sharded_capacity s =
      (if c_capacity (sy_cache front) = None then Some (s\<lparr>shards := shards s\<rparr>, None)
       else map_option (apsnd Some) (for_shards (\<lambda>i. sync_capacity)
         (\<lambda>acc c. acc + (case c of None \<Rightarrow> 0 | Some n \<Rightarrow> n)) 0 (s\<lparr>shards := shards s\<rparr>)))"
    using fr by (simp add: sharded_capacity_def sync_defs)
  also have "s\<lparr>shards := shards s\<rparr> = s" by simp
  finally show ?thesis
    using fr by (simp add: sync_defs for_shards_read [OF assms] fold_zip_sum)
qed

lemma sharded_clear_eq:
  assumes "sharded_inv h s"
  shows "sharded_clear s = Some (s\<lparr>shards := map (\<lambda>sh. sync_of (cache_clear (sy_cache sh))) (shards s)\<rparr>, ())"
proof -
  from assms have "\<forall>sh \<in> set (shards s). sync_inv sh"
    by (auto simp: sharded_inv_def in_set_conv_nth)
  then show ?thesis
    by (simp add: sharded_clear_def for_shards_def sync_clear_def shard_loop_eq [where g = cache_clear])
qed


section \<open>Refinements\<close>

lemma cache_clear_abs [simp]: "cache_abs (cache_clear c) = (cache_abs c)\<lparr>lru_items := []\<rparr>"
  by (simp add: cache_clear_def cache_abs_def rl_range_def rl_clear_def)

lemma cache_clear_inv: "cache_inv c \<Longrightarrow> cache_inv (cache_clear c)"
  using cache_step_refines [of c "(now, OpClear)"] by auto

lemma sharded_step_clear:
  assumes "sharded_inv h s"
  shows "\<exists>s'. sharded_step h (now, KvClear) s = Some (s', RUnit) \<and> sharded_inv h s' \<and>
    sharded_abs s' = map (\<lambda>l. l\<lparr>lru_items := []\<rparr>) (sharded_abs s)"
proof -
  have "shard_keys (sync_of (cache_clear c)) = {}" for c
    using cache_clear_abs [of c] by (simp add: shard_keys_def cache_abs_def)
  with assms have "sharded_inv h (s\<lparr>shards := map (\<lambda>sh. sync_of (cache_clear (sy_cache sh))) (shards s)\<rparr>)"
    by (simp add: sharded_inv_def sync_inv_def cache_clear_inv)
  then show ?thesis
    using sharded_clear_eq [OF assms] by (simp add: sharded_abs_def)
qed

lemma sharded_step_refines:
  assumes "sharded_inv h s"
  shows "\<exists>s' r. sharded_step h x s = Some (s', r) \<and> sharded_inv h s' \<and>
    shards_spec h deadline x (sharded_abs s) = (sharded_abs s', r)"
proof -
  obtain now op where x: "x = (now, op)" by fastforce
  show ?thesis
  proof (cases "kv_key op")
    case None
    then have "op = KvClear" by (cases op) auto
    with sharded_step_clear [OF assms, of now] x show ?thesis by (auto simp: shards_spec_def)
  next
    case (Some k)
    from assms have "shard_index_for h k s < length (shards s)"
      by (simp add: sharded_inv_def shard_index_less)
    then have "sharded_abs s ! shard_index_for h k s = cache_abs (sy_cache (shards s ! shard_index_for h k s))"
      by (simp add: sharded_abs_def)
    with sharded_step_key_refines [OF assms Some, of now] x Some show ?thesis
      by (auto simp: shards_spec_def sharded_abs_def map_update shard_index_for_def Let_def)
  qed
qed

interpretation sharded_lru: defined_refinement "sharded_step h" "shards_spec h deadline" sharded_abs "sharded_inv h"
  for h
  by unfold_locales (rule sharded_step_refines)

text \<open>The split of the capacity never changes.\<close>

definition shard_capacities :: "sharded_cache \<Rightarrow> nat option list" where
  "shard_capacities s = map (\<lambda>sh. c_capacity (sy_cache sh)) (shards s)"

lemma shard_capacities_abs: "shard_capacities s = map lru_cap (sharded_abs s)"
  by (simp add: shard_capacities_def sharded_abs_def)

lemma lru_step_cap: "lru_cap (fst (lru_step dl (now, op) l)) = lru_cap l"
  by (cases op) (auto simp: kv_lru_facts)

lemma shards_spec_cap: "ls \<noteq> [] \<Longrightarrow> map lru_cap (fst (shards_spec h dl x ls)) = map lru_cap ls"
  using lru_step_cap [of dl "fst x" "cache_op_of (snd x)"]
  by (auto simp: shards_spec_def Let_def map_update case_prod_beta split: option.splits)
    (metis length_map list_update_id list_update_same_conv mod_less_divisor length_greater_0_conv nth_map)

lemma sharded_step_capacities:
  assumes "sharded_inv h s" and "sharded_step h x s = Some (s', r)"
  shows "shard_capacities s' = shard_capacities s"
proof -
  have "sharded_abs s \<noteq> []" using assms(1) by (auto simp: sharded_inv_def sharded_abs_def)
  with shards_spec_cap [OF this, of h deadline x] sharded_step_refines [OF assms(1), of x] assms(2)
  show ?thesis by (auto simp: shard_capacities_abs)
qed

text \<open>Unbounded: a map from key to entry, whatever the number of shards.\<close>

definition sharded_kv :: "hash_fn \<Rightarrow> sharded_cache \<Rightarrow> kv_map" where
  "sharded_kv h s = (\<lambda>k. kv_of (lru_items (sharded_abs s ! shard_index_for h k s)) k)"

definition sharded_kv_inv :: "hash_fn \<Rightarrow> sharded_cache \<Rightarrow> bool" where
  "sharded_kv_inv h s \<longleftrightarrow> sharded_inv h s \<and> set (shard_capacities s) = {None}"

lemma sync_fresh_capacity [simp]: "c_capacity (sy_cache (sync_fresh cap)) = cap"
  by (simp add: sync_fresh_def fresh_cache_def cache_unbounded_def cache_bounded_def split: option.splits)

lemma sync_fresh_items [simp]: "rl_range (c_entries (sy_cache (sync_fresh cap))) = []"
  by (simp add: sync_fresh_def fresh_cache_def cache_unbounded_def cache_bounded_def rl_range_def
      rl_empty_list_def split: option.splits)

lemma shard_capacities_unbounded: "set (shard_capacities (sharded_unbounded n)) = {None}"
  by (auto simp: shard_capacities_def sharded_unbounded_def sane_shard_count_def)

lemma sharded_kv_inv_unbounded [simp, cx_inv]: "sharded_kv_inv h (sharded_unbounded n)"
  by (simp add: sharded_kv_inv_def shard_capacities_unbounded)

lemma sharded_kv_unbounded [simp]: "sharded_kv h (sharded_unbounded n) = Map.empty"
  using shard_index_less [of "sharded_unbounded n" h]
  by (auto simp: sharded_kv_def sharded_abs_def sharded_unbounded_def sane_shard_count_def fun_eq_iff)

lemma sharded_kv_update:
  assumes i: "shard_index_for h k s < length (shards s)"
    and l: "sharded_abs s' = (sharded_abs s)[shard_index_for h k s := l]"
    and items: "kv_of (lru_items l) = (kv_of (lru_items (sharded_abs s ! shard_index_for h k s)))(k := y)"
  shows "sharded_kv h s' = (sharded_kv h s)(k := y)"
proof
  fix k'
  have "length (shards s') = length (shards s)"
    using l by (metis length_list_update length_sharded_abs)
  then have idx: "shard_index_for h k' s' = shard_index_for h k' s" by (simp add: shard_index_for_def)
  show "sharded_kv h s' k' = ((sharded_kv h s)(k := y)) k'"
    unfolding sharded_kv_def l idx
    by (cases "shard_index_for h k' s = shard_index_for h k s") (use i items in auto)
qed

lemma sharded_step_kv:
  assumes "sharded_kv_inv h s"
  shows "\<exists>s' r. sharded_step h (now, op) s = Some (s', r) \<and> sharded_kv_inv h s' \<and>
    kv_step deadline (now, op) (sharded_kv h s) = (sharded_kv h s', r)"
proof -
  from assms have inv: "sharded_inv h s" by (simp add: sharded_kv_inv_def)
  then have ne: "shards s \<noteq> []" by (simp add: sharded_inv_def)
  obtain s' r where s': "sharded_step h (now, op) s = Some (s', r)" "sharded_inv h s'"
    "shards_spec h deadline (now, op) (sharded_abs s) = (sharded_abs s', r)"
    using sharded_step_refines [OF inv, of "(now, op)"] by blast
  then have len: "length (shards s') = length (shards s)"
    using sharded_step_capacities [OF inv s'(1)] by (metis length_map shard_capacities_def)
  have "kv_step deadline (now, op) (sharded_kv h s) = (sharded_kv h s', r)"
  proof (cases "kv_key op")
    case None
    with s'(3) have "sharded_abs s' = map (\<lambda>l. l\<lparr>lru_items := []\<rparr>) (sharded_abs s)" "r = RUnit"
      by (auto simp: shards_spec_def)
    with None ne show ?thesis
      by (simp add: kv_step_def sharded_kv_def shard_index_for_def len)
  next
    case (Some k)
    let ?i = "shard_index_for h k s"
    have i: "?i < length (shards s)" by (rule shard_index_less [OF ne])
    then have "lru_cap (sharded_abs s ! ?i) \<in> set (shard_capacities s)"
      by (simp add: shard_capacities_abs)
    with assms have "lru_cap (sharded_abs s ! ?i) = None" by (simp add: sharded_kv_inv_def)
    note l = lru_step_kv(2) [OF this, of deadline now op]
    obtain y t where y: "kv_slot deadline now op (kv_of (lru_items (sharded_abs s ! ?i)) k) = (y, t)"
      by fastforce
    have abs': "sharded_abs s' = (sharded_abs s)[?i := fst (lru_step deadline (now, cache_op_of op) (sharded_abs s ! ?i))]"
      "r = snd (lru_step deadline (now, cache_op_of op) (sharded_abs s ! ?i))"
      using s'(3) Some by (auto simp: shards_spec_def shard_index_for_def Let_def split: prod.splits)
    from l y Some abs'(2)
    have items: "kv_of (lru_items (fst (lru_step deadline (now, cache_op_of op) (sharded_abs s ! ?i))))
        = (kv_of (lru_items (sharded_abs s ! ?i)))(k := y)" and t: "t = r"
      by (simp_all add: kv_step_def)
    from sharded_kv_update [OF i abs'(1) items] have "sharded_kv h s' = (sharded_kv h s)(k := y)" .
    with y Some t show ?thesis by (simp add: kv_step_def sharded_kv_def)
  qed
  with s' sharded_step_capacities [OF inv s'(1)] assms show ?thesis
    by (auto simp: sharded_kv_inv_def)
qed

interpretation sharded_map: defined_refinement "sharded_step h" "kv_step deadline" "sharded_kv h" "sharded_kv_inv h"
  for h
  by unfold_locales (metis sharded_step_kv surj_pair)

interpretation sharded_as_cache: same_answers cache_kv_step "sharded_step h" "kv_step deadline"
    cache_kv "sharded_kv h" cache_kv_inv "sharded_kv_inv h"
  for h
  by unfold_locales

end
