(* ===== verification/Istream.thy ===== *)
theory Istream
  imports Decimal
begin

text \<open>
  The part of \<open>std::ifstream\<close> that reading a snapshot uses: a byte sequence with a read position
  and the \<open>eofbit\<close> and \<open>failbit\<close>. Formatted extraction skips whitespace (C locale), reads an
  optionally signed decimal number or a word, and sets \<open>eofbit\<close> when it looked past the end;
  on a stream that is not good every operation fails and changes nothing else.
\<close>

record istream =
  is_bytes :: string
  is_pos :: nat
  is_eof :: bool
  is_fail :: bool

definition is_open :: "string \<Rightarrow> istream" where
  "is_open bytes = \<lparr>is_bytes = bytes, is_pos = 0, is_eof = False, is_fail = False\<rparr>"

definition is_rest :: "istream \<Rightarrow> string" where
  "is_rest s = drop (is_pos s) (is_bytes s)"

definition is_good :: "istream \<Rightarrow> bool" where
  "is_good s \<longleftrightarrow> \<not> is_eof s \<and> \<not> is_fail s"

definition is_advance :: "nat \<Rightarrow> istream \<Rightarrow> istream" where
  "is_advance n s = s\<lparr>is_pos := is_pos s + n\<rparr>"

definition is_space :: "char \<Rightarrow> bool" where
  "is_space c \<longleftrightarrow> c = SP \<or> (9 \<le> (of_char c :: nat) \<and> (of_char c :: nat) \<le> 13)"

text \<open>The sentry of a formatted extraction: skip whitespace; nothing left is end of file.\<close>

definition skip_ws :: "istream \<Rightarrow> istream" where
  "skip_ws s =
     (if \<not> is_good s then s\<lparr>is_fail := True\<rparr>
      else let s' = is_advance (length (takeWhile is_space (is_rest s))) s
           in if is_rest s' = [] then s'\<lparr>is_eof := True, is_fail := True\<rparr> else s')"

text \<open>Consume \<open>n\<close> characters, having looked at the one after them.\<close>

definition consume :: "nat \<Rightarrow> istream \<Rightarrow> istream" where
  "consume n s = (let s' = is_advance n s in s'\<lparr>is_eof := (is_rest s' = [])\<rparr>)"

definition extract_word :: "istream \<Rightarrow> istream \<times> string" where
  "extract_word s =
     (let s1 = skip_ws s
      in if is_fail s1 then (s1, [])
         else let w = takeWhile (\<lambda>c. \<not> is_space c) (is_rest s1) in (consume (length w) s1, w))"

definition sign_length :: "string \<Rightarrow> nat" where
  "sign_length xs = (if xs \<noteq> [] \<and> (hd xs = CHR ''-'' \<or> hd xs = CHR ''+'') then 1 else 0)"

definition extract_int :: "int \<Rightarrow> int \<Rightarrow> istream \<Rightarrow> istream \<times> int" where
  "extract_int lo hi s =
     (let s1 = skip_ws s
      in if is_fail s1 then (s1, 0)
         else
           let body = drop (sign_length (is_rest s1)) (is_rest s1);
               ds = takeWhile is_digit body;
               s2 = consume (sign_length (is_rest s1) + length ds) s1;
               v = (if hd (is_rest s1) = CHR ''-'' then - int (digits_val 0 ds) else int (digits_val 0 ds))
           in if ds = [] then (s2\<lparr>is_fail := True\<rparr>, 0)
              else if v < lo then (s2\<lparr>is_fail := True\<rparr>, lo)
              else if hi < v then (s2\<lparr>is_fail := True\<rparr>, hi)
              else (s2, v))"

text \<open>Unformatted input: one character (\<open>None\<close> is \<open>EOF\<close>), a block, the position.\<close>

definition is_get :: "istream \<Rightarrow> istream \<times> char option" where
  "is_get s =
     (if \<not> is_good s then (s\<lparr>is_fail := True\<rparr>, None)
      else case is_rest s of
             [] \<Rightarrow> (s\<lparr>is_eof := True, is_fail := True\<rparr>, None)
           | c # _ \<Rightarrow> (is_advance 1 s, Some c))"

definition is_read :: "nat \<Rightarrow> istream \<Rightarrow> istream \<times> string" where
  "is_read n s =
     (if \<not> is_good s then (s\<lparr>is_fail := True\<rparr>, [])
      else let got = take n (is_rest s); s' = is_advance (length got) s
           in if length got < n then (s'\<lparr>is_eof := True, is_fail := True\<rparr>, got) else (s', got))"

definition is_tellg :: "istream \<Rightarrow> istream \<times> int" where
  "is_tellg s = (if is_good s then (s, int (is_pos s)) else (s\<lparr>is_fail := True\<rparr>, - 1))"

section \<open>Reading what was written\<close>

text \<open>The position never passes the end.\<close>

definition is_inv :: "istream \<Rightarrow> bool" where
  "is_inv s \<longleftrightarrow> is_pos s \<le> length (is_bytes s)"

text \<open>A good stream with \<open>xs\<close> still to be read.\<close>

definition positioned :: "istream \<Rightarrow> string \<Rightarrow> bool" where
  "positioned s xs \<longleftrightarrow> is_good s \<and> is_inv s \<and> is_rest s = xs"

lemma positioned_open: "positioned (is_open xs) xs"
  by (simp add: positioned_def is_open_def is_good_def is_rest_def is_inv_def)

lemma positioned_pos: "positioned s xs \<Longrightarrow> is_pos s + length xs = length (is_bytes s)"
  by (auto simp: positioned_def is_inv_def is_rest_def)

lemma is_inv_advance [simp]: "is_inv s \<Longrightarrow> n \<le> length (is_rest s) \<Longrightarrow> is_inv (is_advance n s)"
  by (auto simp: is_inv_def is_advance_def is_rest_def)

lemma is_inv_flags [simp]: "is_inv (s\<lparr>is_eof := b\<rparr>) = is_inv s" "is_inv (s\<lparr>is_fail := b\<rparr>) = is_inv s"
  by (simp_all add: is_inv_def)

lemma advance_simps [simp]:
  "is_bytes (is_advance n s) = is_bytes s" "is_eof (is_advance n s) = is_eof s"
  "is_fail (is_advance n s) = is_fail s" "is_rest (is_advance n s) = drop n (is_rest s)"
  "is_good (is_advance n s) = is_good s"
  by (simp_all add: is_advance_def is_rest_def is_good_def add.commute)

lemma is_rest_flags [simp]:
  "is_rest (s\<lparr>is_eof := b\<rparr>) = is_rest s" "is_rest (s\<lparr>is_fail := b\<rparr>) = is_rest s"
  by (simp_all add: is_rest_def)

lemma positioned_skip:
  assumes "positioned s (ws @ xs)" and "list_all is_space ws" and "xs \<noteq> []" and "\<not> is_space (hd xs)"
  shows "positioned (skip_ws s) xs" and "is_bytes (skip_ws s) = is_bytes s" and "\<not> is_fail (skip_ws s)"
proof -
  have "takeWhile is_space xs = []" using assms(3,4) by (cases xs) auto
  with assms(2) have "takeWhile is_space (ws @ xs) = ws"
    by (simp add: takeWhile_append2 list_all_iff)
  with assms show "positioned (skip_ws s) xs" "is_bytes (skip_ws s) = is_bytes s" "\<not> is_fail (skip_ws s)"
    by (auto simp: skip_ws_def positioned_def Let_def is_good_def)
qed

lemma consume_positioned:
  assumes "positioned s (w @ xs)" and "xs \<noteq> []"
  shows "positioned (consume (length w) s) xs" and "is_bytes (consume (length w) s) = is_bytes s"
  using assms by (auto simp: consume_def positioned_def Let_def is_good_def)

lemma extract_word_reads:
  assumes "positioned s (w @ xs)" and "w \<noteq> []" and "list_all (\<lambda>c. \<not> is_space c) w"
    and "xs \<noteq> []" and "is_space (hd xs)"
  shows "\<exists>s'. extract_word s = (s', w) \<and> positioned s' xs \<and> is_bytes s' = is_bytes s"
proof -
  have "\<not> is_space (hd (w @ xs))" using assms(2,3) by (cases w) auto
  with assms(1,2) positioned_skip [of s "[]" "w @ xs"] have sk: "positioned (skip_ws s) (w @ xs)"
    "is_bytes (skip_ws s) = is_bytes s" "\<not> is_fail (skip_ws s)" by auto
  have "takeWhile (\<lambda>c. \<not> is_space c) xs = []" using assms(4,5) by (cases xs) auto
  with assms(3) have "takeWhile (\<lambda>c. \<not> is_space c) (w @ xs) = w"
    by (simp add: takeWhile_append2 list_all_iff)
  with sk consume_positioned [OF sk(1) assms(4)] show ?thesis
    by (simp add: extract_word_def positioned_def)
qed

lemma digit_not_space: "is_digit c \<Longrightarrow> \<not> is_space c"
  by (auto simp: is_digit_def is_space_def)

lemma to_string_sign:
  "sign_length (to_string i @ xs) = (if i < 0 then 1 else 0)"
  "hd (to_string i @ xs) = CHR ''-'' \<longleftrightarrow> i < 0"
  "\<not> is_space (hd (to_string i @ xs))"
proof -
  have "is_digit (hd (to_string_nat n @ xs))" for n
    using to_string_nat_hd [of n] by (cases "to_string_nat n") auto
  then have "hd (to_string_nat n @ xs) \<noteq> CHR ''-''" "hd (to_string_nat n @ xs) \<noteq> CHR ''+''"
    "\<not> is_space (hd (to_string_nat n @ xs))" for n
    by (metis is_digit_minus, metis is_digit_plus, metis digit_not_space)
  then show "sign_length (to_string i @ xs) = (if i < 0 then 1 else 0)"
    "hd (to_string i @ xs) = CHR ''-'' \<longleftrightarrow> i < 0" "\<not> is_space (hd (to_string i @ xs))"
    by (auto simp: sign_length_def to_string_def is_space_def)
qed


lemma extract_int_reads:
  assumes "positioned s (ws @ to_string i @ xs)" and "list_all is_space ws"
    and "lo \<le> i" and "i \<le> hi" and "xs \<noteq> []" and "\<not> is_digit (hd xs)"
  shows "\<exists>s'. extract_int lo hi s = (s', i) \<and> positioned s' xs \<and> is_bytes s' = is_bytes s"
proof -
  have ne: "to_string i @ xs \<noteq> []" using assms(5) by simp
  note sk = positioned_skip [OF assms(1,2) ne to_string_sign(3)]
  define ds where "ds = (if i < 0 then to_string_nat (nat (- i)) else to_string_nat (nat i))"
  have ds: "ds \<noteq> []" "digits_val 0 ds = nat (abs i)"
    "drop (sign_length (to_string i @ xs)) (to_string i @ xs) = ds @ xs"
    "sign_length (to_string i @ xs) + length ds = length (to_string i)"
    unfolding to_string_sign(1) by (auto simp: ds_def to_string_def)
  have tw: "takeWhile is_digit (ds @ xs) = ds"
    using span_number(1) [of xs] assms(5,6) by (simp add: ds_def ends_number_def)
  have rest: "is_rest (skip_ws s) = to_string i @ xs" using sk(1) by (simp add: positioned_def)
  show ?thesis
    using sk consume_positioned [OF sk(1) assms(5)] assms(3,4) ds tw to_string_sign(2) [of i xs]
    by (auto simp: extract_int_def rest Let_def)
qed

lemma get_reads:
  "positioned s (c # xs) \<Longrightarrow> \<exists>s'. is_get s = (s', Some c) \<and> positioned s' xs \<and> is_bytes s' = is_bytes s"
  by (simp add: positioned_def is_get_def)

lemma read_reads:
  "positioned s (w @ xs) \<Longrightarrow> \<exists>s'. is_read (length w) s = (s', w) \<and> positioned s' xs \<and> is_bytes s' = is_bytes s"
  by (simp add: positioned_def is_read_def Let_def)

end
