(* ===== verification/Persistence.thy ===== *)
theory Persistence
  imports Sharded_Cache Istream
begin

text \<open>
  Snapshots (\<open>include/cachex/persistence.hpp\<close>, \<open>src/persistence.cpp\<close>). The file system is a map
  from path to contents; what the outside world decides in a save (the clocks, the process id,
  whether opening, writing and renaming succeed) is an argument. A file that is absent or
  cannot be opened is not in the map. Signed 64-bit subtraction wraps where it overflows.
\<close>

section \<open>The format\<close>

definition kMagic :: string where "kMagic = ''CACHEX-SNAPSHOT''"
definition kVersion :: int where "kVersion = 1"
definition kNoExpiry :: int where "kNoExpiry = - 1"
definition kMinRecordBytes :: int where "kMinRecordBytes = 7"

record snap_record =
  rec_key :: string
  rec_value :: string
  rec_ttl_ms :: int

record save_result =
  sr_ok :: bool
  sr_entries :: nat
  sr_bytes :: nat
  sr_error :: string

record load_result =
  lr_ok :: bool
  lr_loaded :: nat
  lr_expired :: nat
  lr_error :: string

type_synonym files = "string \<Rightarrow> string option"

text \<open>The file system and the counter of \<open>unique_temp_path\<close> (an \<open>unsigned long\<close>).\<close>

record disk =
  dk_files :: files
  dk_counter :: nat

record save_env =
  se_clock :: "nat \<Rightarrow> time_ns"
  se_wall :: int
  se_pid :: nat
  se_open_ok :: bool
  se_write_ok :: bool
  se_rename_error :: "string option"

definition unique_temp_path :: "string \<Rightarrow> nat \<Rightarrow> nat \<Rightarrow> string" where
  "unique_temp_path path pid counter = path @ ''.tmp.'' @ to_string_nat pid @ ''.'' @ to_string_nat counter"

section \<open>Saving\<close>

definition header_bytes :: "int \<Rightarrow> nat \<Rightarrow> string" where
  "header_bytes wall n =
     kMagic @ '' '' @ to_string kVersion @ '' '' @ to_string wall @ [LF] @ to_string_nat n @ [LF]"

definition entry_ttl :: "entry_snapshot \<Rightarrow> int" where
  "entry_ttl e = (case snap_remaining_ttl e of Some t \<Rightarrow> t | None \<Rightarrow> kNoExpiry)"

definition entry_bytes :: "entry_snapshot \<Rightarrow> string" where
  "entry_bytes e =
     to_string_nat (length (snap_key e)) @ '' '' @ to_string_nat (length (snap_value e)) @ '' '' @
     to_string (entry_ttl e) @ [LF] @ snap_key e @ snap_value e @ [LF]"

definition snapshot_bytes :: "int \<Rightarrow> entry_snapshot list \<Rightarrow> string" where
  "snapshot_bytes wall entries = header_bytes wall (length entries) @ concat (map entry_bytes entries)"

definition save_failed :: "string \<Rightarrow> save_result" where
  "save_failed e = \<lparr>sr_ok = False, sr_entries = 0, sr_bytes = 0, sr_error = e\<rparr>"

text \<open>\<open>wall_clock_ms\<close>: the system clock, in nanoseconds since the epoch, as milliseconds.\<close>

definition wall_clock_ms :: "time_ns \<Rightarrow> int" where
  "wall_clock_ms now = duration_cast_ms now"

text \<open>\<open>save\<close> after the cache is read: write the entries beside the snapshot and rename into place.\<close>

definition write_snapshot :: "string \<Rightarrow> save_env \<Rightarrow> entry_snapshot list \<Rightarrow> disk \<Rightarrow> disk \<times> save_result" where
  "write_snapshot path env entries d =
     (let temp_path = unique_temp_path path (se_pid env) (dk_counter d);
          d1 = d\<lparr>dk_counter := (dk_counter d + 1) mod 2 ^ 64\<rparr>;
          bytes = snapshot_bytes (se_wall env) entries;
          removed = d1\<lparr>dk_files := (dk_files d1)(temp_path := None)\<rparr>;
          renamed = d1\<lparr>dk_files := (dk_files d1)(temp_path := None, path \<mapsto> bytes)\<rparr>
      in if \<not> se_open_ok env then (d1, save_failed (''cannot open '' @ [CHR 0x27] @ temp_path @ [CHR 0x27] @ '' for writing''))
         else if \<not> se_write_ok env then (removed, save_failed ''write failed (disk full?)'')
         else case se_rename_error env of
                Some reason \<Rightarrow>
                  (removed, (save_failed (''cannot rename snapshot into place: '' @ reason))\<lparr>sr_bytes := length bytes\<rparr>)
              | None \<Rightarrow> (renamed, \<lparr>sr_ok = True, sr_entries = length entries, sr_bytes = length bytes, sr_error = []\<rparr>))"

definition save :: "string \<Rightarrow> save_env \<Rightarrow> sharded_cache \<Rightarrow> disk \<Rightarrow>
    (sharded_cache \<times> disk \<times> save_result) defined" where
  "save path env cache d = do {
     (cache', entries) \<leftarrow> sharded_export (se_clock env) cache;
     Some (cache', write_snapshot path env entries d)
   }"

definition snapshot_exists :: "string \<Rightarrow> disk \<Rightarrow> bool" where
  "snapshot_exists path d \<longleftrightarrow> dk_files d path \<noteq> None"

section \<open>Loading\<close>

definition read_exact :: "nat \<Rightarrow> istream \<Rightarrow> istream \<times> string \<times> bool" where
  "read_exact count s =
     (if count = 0 then (s, [], True)
      else case is_read count s of (s', got) \<Rightarrow> (s', got, length got = count))"

definition read_record :: "int \<Rightarrow> int \<Rightarrow> istream \<Rightarrow> string + istream \<times> snap_record" where
  "read_record i file_bytes s =
     (let (s, key_len) = extract_int int64_min int64_max s;
          (s, value_len) = extract_int int64_min int64_max s;
          (s, ttl_ms) = extract_int int64_min int64_max s
      in if is_fail s then Inl (''truncated entry header at record '' @ to_string i)
         else if key_len < 0 \<or> value_len < 0 then Inl (''negative length at record '' @ to_string i)
         else
           let (s, c) = is_get s
           in if c \<noteq> Some LF then Inl (''malformed entry header at record '' @ to_string i)
              else if key_len > file_bytes \<or> value_len > file_bytes - key_len
              then Inl (''length exceeds file size at record '' @ to_string i)
              else
                let (s, key, ok1) = read_exact (nat key_len) s;
                    (s, val, ok2) = (if ok1 then read_exact (nat value_len) s else (s, [], False))
                in if \<not> ok2 then Inl (''truncated payload at record '' @ to_string i)
                   else
                     let (s, c) = is_get s
                     in if c \<noteq> Some LF then Inl (''payload length mismatch at record '' @ to_string i)
                        else Inr (s, \<lparr>rec_key = key, rec_value = val, rec_ttl_ms = ttl_ms\<rparr>))"

text \<open>The loop from record \<open>i\<close> on, \<open>n\<close> records remaining.\<close>

fun read_records :: "nat \<Rightarrow> int \<Rightarrow> int \<Rightarrow> istream \<Rightarrow> string + snap_record list" where
  "read_records 0 i file_bytes s = Inr []"
| "read_records (Suc n) i file_bytes s =
     (case read_record i file_bytes s of
        Inl e \<Rightarrow> Inl e
      | Inr (s', r) \<Rightarrow>
          (case read_records n (i + 1) file_bytes s' of Inl e \<Rightarrow> Inl e | Inr rs \<Rightarrow> Inr (r # rs)))"

text \<open>The header: the stream behind it and the time of the save, or the reason for rejection.\<close>

definition read_header :: "string \<Rightarrow> string + istream \<times> int" where
  "read_header bytes =
     (let (s, magic) = extract_word (is_open bytes);
          (s, version) = extract_int (- (2 ^ 31)) (2 ^ 31 - 1) s;
          (s, saved_at_ms) = extract_int int64_min int64_max s
      in if is_fail s \<or> magic \<noteq> kMagic then Inl ''not a CacheX snapshot''
         else if version \<noteq> kVersion then Inl (''unsupported snapshot version '' @ to_string version)
         else Inr (s, saved_at_ms))"

text \<open>The count and the records behind the header.\<close>

definition read_body :: "int \<Rightarrow> istream \<Rightarrow> string + snap_record list" where
  "read_body file_bytes s =
     (let (s, count) = extract_int int64_min int64_max s
      in if is_fail s \<or> count < 0 then Inl ''missing or invalid entry count''
         else
           let (s, _) = is_get s;
               (s, pos) = is_tellg s
           in if count > (file_bytes - pos) div kMinRecordBytes
              then Inl (''entry count '' @ to_string count @ '' exceeds what the file can hold'')
              else read_records (nat count) 0 file_bytes s)"

text \<open>The whole validation: the time of the save and the records, or the reason for rejection.\<close>

definition parse_snapshot :: "string \<Rightarrow> string + int \<times> snap_record list" where
  "parse_snapshot bytes =
     (case read_header bytes of
        Inl e \<Rightarrow> Inl e
      | Inr (s, saved_at_ms) \<Rightarrow>
          (case read_body (int (length bytes)) s of
             Inl e \<Rightarrow> Inl e
           | Inr rs \<Rightarrow> Inr (saved_at_ms, rs)))"

lemmas parse_snapshot_defs = parse_snapshot_def read_header_def read_body_def

text \<open>
  Applying the records, given in the order they are applied; \<open>clock i\<close> is the instant the
  \<open>i\<close>-th of them is set. Here and in \<open>elapsed_ms\<close> differences of times are taken modulo \<open>2 ^ 64\<close>;
  \<open>load_checked\<close> below has their overflow as undefined behaviour.
\<close>

fun apply_records :: "hash_fn \<Rightarrow> (nat \<Rightarrow> time_ns) \<Rightarrow> int \<Rightarrow> nat \<Rightarrow> snap_record list \<Rightarrow>
    sharded_cache \<Rightarrow> load_result \<Rightarrow> (sharded_cache \<times> load_result) defined" where
  "apply_records h clock elapsed i [] cache res = Some (cache, res)"
| "apply_records h clock elapsed i (r # rs) cache res =
     (if rec_ttl_ms r = kNoExpiry then do {
        (cache', _) \<leftarrow> sharded_set h (rec_key r) (rec_value r) cache;
        apply_records h clock elapsed (Suc i) rs cache' (res\<lparr>lr_loaded := lr_loaded res + 1\<rparr>)
      }
      else
        let remaining_ms = wrap64 (rec_ttl_ms r - elapsed)
        in if remaining_ms > 0 then do {
             (cache', _) \<leftarrow> sharded_set_ttl h (clock i) (rec_key r) (rec_value r) remaining_ms cache;
             apply_records h clock elapsed (Suc i) rs cache' (res\<lparr>lr_loaded := lr_loaded res + 1\<rparr>)
           }
           else apply_records h clock elapsed (Suc i) rs cache (res\<lparr>lr_expired := lr_expired res + 1\<rparr>))"

definition load_start :: load_result where
  "load_start = \<lparr>lr_ok = False, lr_loaded = 0, lr_expired = 0, lr_error = []\<rparr>"

definition elapsed_ms :: "int \<Rightarrow> int \<Rightarrow> int" where
  "elapsed_ms wall saved_at_ms = max 0 (wrap64 (wall - saved_at_ms))"

definition load :: "hash_fn \<Rightarrow> string \<Rightarrow> int \<Rightarrow> (nat \<Rightarrow> time_ns) \<Rightarrow> disk \<Rightarrow> sharded_cache \<Rightarrow>
    (sharded_cache \<times> load_result) defined" where
  "load h path wall clock d cache =
     (case dk_files d path of
        None \<Rightarrow> Some (cache, load_start\<lparr>lr_ok := True\<rparr>)
      | Some bytes \<Rightarrow>
          (case parse_snapshot bytes of
             Inl e \<Rightarrow> Some (cache, load_start\<lparr>lr_error := e\<rparr>)
           | Inr (saved_at_ms, records) \<Rightarrow>
               map_option (apsnd (\<lambda>res. res\<lparr>lr_ok := True\<rparr>))
                 (apply_records h clock (elapsed_ms wall saved_at_ms) 0 (rev records) cache load_start)))"

section \<open>Loading without overflow\<close>

text \<open>
  \<open>load\<close> above computes with times modulo \<open>2 ^ 64\<close>, which makes it total. In C++ a signed overflow is
  undefined, and the times come from the file unchecked: the difference to the clock, the time left
  of a record, and in \<open>Cache::set\<close> its conversion to nanoseconds and the deadline. \<open>load_checked\<close> is the
  same code with each of these overflows as undefined behaviour, at the place where the code computes.
\<close>

definition checked64 :: "int \<Rightarrow> int defined" where
  "checked64 x = (if int64_range x then Some x else None)"

definition deadline_checked :: "time_ns \<Rightarrow> duration_ms \<Rightarrow> time_ns defined" where
  "deadline_checked now ttl = do { ns \<leftarrow> checked64 (ttl * ns_per_ms); checked64 (now + ns) }"

definition elapsed_checked :: "int \<Rightarrow> int \<Rightarrow> int defined" where
  "elapsed_checked wall saved_at_ms = map_option (max 0) (checked64 (wall - saved_at_ms))"

fun apply_records_checked :: "hash_fn \<Rightarrow> (nat \<Rightarrow> time_ns) \<Rightarrow> int \<Rightarrow> nat \<Rightarrow> snap_record list \<Rightarrow>
    sharded_cache \<Rightarrow> load_result \<Rightarrow> (sharded_cache \<times> load_result) defined" where
  "apply_records_checked h clock elapsed i [] cache res = Some (cache, res)"
| "apply_records_checked h clock elapsed i (r # rs) cache res =
     (if rec_ttl_ms r = kNoExpiry then do {
        (cache', _) \<leftarrow> sharded_set h (rec_key r) (rec_value r) cache;
        apply_records_checked h clock elapsed (Suc i) rs cache' (res\<lparr>lr_loaded := lr_loaded res + 1\<rparr>)
      }
      else do {
        remaining_ms \<leftarrow> checked64 (rec_ttl_ms r - elapsed);
        if remaining_ms > 0 then do {
          _ \<leftarrow> deadline_checked (clock i) remaining_ms;
          (cache', _) \<leftarrow> sharded_set_ttl h (clock i) (rec_key r) (rec_value r) remaining_ms cache;
          apply_records_checked h clock elapsed (Suc i) rs cache' (res\<lparr>lr_loaded := lr_loaded res + 1\<rparr>)
        }
        else apply_records_checked h clock elapsed (Suc i) rs cache (res\<lparr>lr_expired := lr_expired res + 1\<rparr>)
      })"

definition load_checked :: "hash_fn \<Rightarrow> string \<Rightarrow> int \<Rightarrow> (nat \<Rightarrow> time_ns) \<Rightarrow> disk \<Rightarrow> sharded_cache \<Rightarrow>
    (sharded_cache \<times> load_result) defined" where
  "load_checked h path wall clock d cache =
     (case dk_files d path of
        None \<Rightarrow> Some (cache, load_start\<lparr>lr_ok := True\<rparr>)
      | Some bytes \<Rightarrow>
          (case read_header bytes of
             Inl e \<Rightarrow> Some (cache, load_start\<lparr>lr_error := e\<rparr>)
           | Inr (s, saved_at_ms) \<Rightarrow> do {
               elapsed \<leftarrow> elapsed_checked wall saved_at_ms;
               (case read_body (int (length bytes)) s of
                  Inl e \<Rightarrow> Some (cache, load_start\<lparr>lr_error := e\<rparr>)
                | Inr records \<Rightarrow>
                    map_option (apsnd (\<lambda>res. res\<lparr>lr_ok := True\<rparr>))
                      (apply_records_checked h clock elapsed 0 (rev records) cache load_start))
             }))"

section \<open>Reading back a snapshot\<close>

definition to_record :: "entry_snapshot \<Rightarrow> snap_record" where
  "to_record e = \<lparr>rec_key = snap_key e, rec_value = snap_value e, rec_ttl_ms = entry_ttl e\<rparr>"

definition saveable :: "entry_snapshot \<Rightarrow> bool" where
  "saveable e \<longleftrightarrow> length (snap_key e) < 2 ^ 63 \<and> length (snap_value e) < 2 ^ 63 \<and>
     int64_min \<le> entry_ttl e \<and> entry_ttl e \<le> int64_max"

lemma to_string_of_nat: "to_string (int n) = to_string_nat n"
  by (simp add: to_string_def)

lemma space_chars [simp]: "is_space SP" "is_space LF" "\<not> is_digit SP" "\<not> is_digit LF"
  by (simp_all add: is_space_def is_digit_def)


lemma read_exact_reads:
  "positioned s (w @ xs) \<Longrightarrow>
     \<exists>s'. read_exact (length w) s = (s', w, True) \<and> positioned s' xs \<and> is_bytes s' = is_bytes s"
  using read_reads [of s w xs] by (cases "w = []") (auto simp: read_exact_def)

lemma positioned_good: "positioned s xs \<Longrightarrow> \<not> is_fail s"
  by (simp add: positioned_def is_good_def)

lemma read_record_reads:
  assumes "positioned s (entry_bytes e @ xs)" and "saveable e"
    and "int (length (snap_key e)) + int (length (snap_value e)) \<le> file_bytes"
  shows "\<exists>s'. read_record i file_bytes s = Inr (s', to_record e) \<and> positioned s' xs"
proof -
  let ?k = "length (snap_key e)" and ?v = "length (snap_value e)"
  let ?payload = "snap_key e @ snap_value e @ LF # xs"
  let ?r2 = "'' '' @ to_string (entry_ttl e) @ LF # ?payload"
  let ?r1 = "'' '' @ to_string (int ?v) @ ?r2"
  have bounds: "int64_min \<le> int ?k" "int ?k \<le> int64_max" "int64_min \<le> int ?v" "int ?v \<le> int64_max"
    "int64_min \<le> entry_ttl e" "entry_ttl e \<le> int64_max"
    using assms(2) by (auto simp: saveable_def)
  have start: "positioned s ([] @ to_string (int ?k) @ ?r1)"
    using assms(1) by (simp add: entry_bytes_def to_string_of_nat)
  obtain s1 where s1: "extract_int int64_min int64_max s = (s1, int ?k)" "positioned s1 ?r1"
    using extract_int_reads [OF start, of int64_min int64_max] bounds by auto
  obtain s2 where s2: "extract_int int64_min int64_max s1 = (s2, int ?v)" "positioned s2 ?r2"
    using extract_int_reads [OF s1(2), of int64_min int64_max] bounds by auto
  obtain s3 where s3: "extract_int int64_min int64_max s2 = (s3, entry_ttl e)" "positioned s3 (LF # ?payload)"
    using extract_int_reads [OF s2(2), of int64_min int64_max] bounds by auto
  obtain s4 where s4: "is_get s3 = (s4, Some LF)" "positioned s4 ?payload"
    using get_reads [OF s3(2)] by blast
  obtain s5 where s5: "read_exact ?k s4 = (s5, snap_key e, True)" "positioned s5 (snap_value e @ LF # xs)"
    using read_exact_reads [OF s4(2)] by blast
  obtain s6 where s6: "read_exact ?v s5 = (s6, snap_value e, True)" "positioned s6 (LF # xs)"
    using read_exact_reads [OF s5(2)] by blast
  obtain s7 where s7: "is_get s6 = (s7, Some LF)" "positioned s7 xs"
    using get_reads [OF s6(2)] by blast
  show ?thesis
    using s1(1) s2(1) s3(1) s4(1) s5(1) s6(1) s7 positioned_good [OF s3(2)] assms(3)
    by (simp add: read_record_def to_record_def Let_def)
qed

lemma read_records_reads:
  assumes "positioned s (concat (map entry_bytes es))" and "list_all saveable es"
    and "list_all (\<lambda>e. int (length (snap_key e)) + int (length (snap_value e)) \<le> file_bytes) es"
  shows "read_records (length es) i file_bytes s = Inr (map to_record es)"
  using assms
proof (induction es arbitrary: i s)
  case (Cons e es)
  from read_record_reads [of s e "concat (map entry_bytes es)" file_bytes i] Cons.prems obtain s' where
    "read_record i file_bytes s = Inr (s', to_record e)" "positioned s' (concat (map entry_bytes es))"
    by auto
  with Cons show ?case by simp
qed simp

lemma length_entry_bytes: "length (snap_key e) + length (snap_value e) + 7 \<le> length (entry_bytes e)"
proof -
  have "1 \<le> length (to_string_nat n)" for n by (simp add: Suc_le_eq)
  moreover have "1 \<le> length (to_string i)" for i
    using calculation by (simp add: to_string_def)
  ultimately have "1 \<le> length (to_string_nat (length (snap_key e)))"
    "1 \<le> length (to_string_nat (length (snap_value e)))" "1 \<le> length (to_string (entry_ttl e))" by blast+
  then show ?thesis by (simp add: entry_bytes_def)
qed

lemma length_entries: "7 * length es \<le> length (concat (map entry_bytes es))"
proof (induction es)
  case (Cons e es)
  then show ?case using length_entry_bytes [of e] by simp
qed simp

lemma entry_in_snapshot:
  "e \<in> set es \<Longrightarrow> length (snap_key e) + length (snap_value e) \<le> length (snapshot_bytes wall es)"
proof -
  assume "e \<in> set es"
  then have "length (entry_bytes e) \<le> length (concat (map entry_bytes es))"
    by (induction es) auto
  with length_entry_bytes [of e] show ?thesis by (simp add: snapshot_bytes_def)
qed

lemma parse_snapshot_bytes:
  assumes "list_all saveable es" and "length es < 2 ^ 63" and "int64_min \<le> wall" and "wall \<le> int64_max"
  shows "parse_snapshot (snapshot_bytes wall es) = Inr (wall, map to_record es)"
proof -
  let ?body = "concat (map entry_bytes es)" and ?bytes = "snapshot_bytes wall es"
  let ?fb = "int (length ?bytes)"
  let ?r3 = "LF # to_string (int (length es)) @ LF # ?body"
  let ?r2 = "'' '' @ to_string wall @ ?r3"
  let ?r1 = "'' '' @ to_string kVersion @ ?r2"
  have start: "positioned (is_open ?bytes) (kMagic @ ?r1)"
    using positioned_open by (simp add: snapshot_bytes_def header_bytes_def to_string_of_nat)
  have magic: "kMagic \<noteq> []" "list_all (\<lambda>c. \<not> is_space c) kMagic"
    by (simp_all add: kMagic_def is_space_def)
  obtain s1 where s1: "extract_word (is_open ?bytes) = (s1, kMagic)" "positioned s1 ?r1" "is_bytes s1 = ?bytes"
    using extract_word_reads [OF start magic] by (auto simp: is_open_def)
  obtain s2 where s2: "extract_int (- (2 ^ 31)) (2 ^ 31 - 1) s1 = (s2, kVersion)" "positioned s2 ?r2" "is_bytes s2 = ?bytes"
    using extract_int_reads [OF s1(2), of "- (2 ^ 31)" "2 ^ 31 - 1"] s1(3) by (auto simp: kVersion_def)
  obtain s3 where s3: "extract_int int64_min int64_max s2 = (s3, wall)" "positioned s3 ?r3" "is_bytes s3 = ?bytes"
    using extract_int_reads [OF s2(2), of int64_min int64_max] assms(3,4) s2(3) by auto
  have r3: "positioned s3 ([LF] @ to_string (int (length es)) @ LF # ?body)" using s3(2) by simp
  obtain s4 where s4: "extract_int int64_min int64_max s3 = (s4, int (length es))" "positioned s4 (LF # ?body)"
      "is_bytes s4 = ?bytes"
    using extract_int_reads [OF r3, of int64_min int64_max] assms(2) s3(3) by auto
  obtain s5 where s5: "is_get s4 = (s5, Some LF)" "positioned s5 ?body" "is_bytes s5 = ?bytes"
    using get_reads [OF s4(2)] s4(3) by auto
  have "7 * int (length es) \<le> ?fb - int (is_pos s5)"
    using positioned_pos [OF s5(2)] s5(3) length_entries [of es] by simp
  moreover have "is_tellg s5 = (s5, int (is_pos s5))" using s5(2) by (simp add: is_tellg_def positioned_def)
  moreover have "read_records (length es) 0 ?fb s5 = Inr (map to_record es)"
    using read_records_reads [OF s5(2) assms(1), of ?fb 0] entry_in_snapshot [of _ es wall]
    by (force simp: list_all_iff simp flip: of_nat_add)
  ultimately show ?thesis
    using s1(1) s2(1) s3(1) s4(1) s5(1) positioned_good [OF s3(2)] positioned_good [OF s4(2)]
    by (auto simp: parse_snapshot_defs Let_def kMinRecordBytes_def)
qed


section \<open>Loading is a sequence of \<open>set\<close> calls\<close>

definition record_op :: "time_ns \<Rightarrow> int \<Rightarrow> snap_record \<Rightarrow> (time_ns \<times> kv_op) option" where
  "record_op now elapsed r =
     (if rec_ttl_ms r = kNoExpiry then Some (now, KvSet (rec_key r) (rec_value r))
      else if wrap64 (rec_ttl_ms r - elapsed) > 0
      then Some (now, KvSetTtl (rec_key r) (rec_value r) (wrap64 (rec_ttl_ms r - elapsed)))
      else None)"

fun load_ops :: "(nat \<Rightarrow> time_ns) \<Rightarrow> int \<Rightarrow> nat \<Rightarrow> snap_record list \<Rightarrow> (time_ns \<times> kv_op) list" where
  "load_ops clock elapsed i [] = []"
| "load_ops clock elapsed i (r # rs) =
     (case record_op (clock i) elapsed r of
        None \<Rightarrow> load_ops clock elapsed (Suc i) rs
      | Some x \<Rightarrow> x # load_ops clock elapsed (Suc i) rs)"

lemma length_load_ops: "length (load_ops clock elapsed i rs) \<le> length rs"
  by (induction rs arbitrary: i) (auto simp: le_SucI split: option.splits)

lemma apply_records_run:
  assumes "sharded_inv h s"
  shows "\<exists>s' out. run_defined (sharded_step h) (load_ops clock elapsed i rs) s = Some (s', out) \<and>
    sharded_inv h s' \<and>
    apply_records h clock elapsed i rs s res =
      Some (s', res\<lparr>lr_loaded := lr_loaded res + length (load_ops clock elapsed i rs),
        lr_expired := lr_expired res + (length rs - length (load_ops clock elapsed i rs))\<rparr>)"
  using assms
proof (induction rs arbitrary: i s res)
  case (Cons r rs)
  show ?case
  proof (cases "record_op (clock i) elapsed r")
    case None
    then have "\<not> rec_ttl_ms r = kNoExpiry" "\<not> wrap64 (rec_ttl_ms r - elapsed) > 0"
      by (auto simp: record_op_def split: if_splits)
    with None Cons.IH [OF Cons.prems, of "Suc i" "res\<lparr>lr_expired := lr_expired res + 1\<rparr>"]
      length_load_ops [of clock elapsed "Suc i" rs]
    show ?thesis by (auto simp: Suc_diff_le)
  next
    case (Some x)
    from sharded_step_refines [OF Cons.prems, of x] obtain t a
      where t: "sharded_step h x s = Some (t, a)" "sharded_inv h t" by blast
    from Cons.IH [OF t(2), of "Suc i" "res\<lparr>lr_loaded := lr_loaded res + 1\<rparr>"] Some t(1) show ?thesis
      by (auto simp: record_op_def Let_def split: if_splits)
  qed
qed simp

end
