(* ===== verification/Sharded_Properties.thy ===== *)
theory Sharded_Properties
  imports Sharded_Cache
begin

text \<open>
  What the sharded cache promises: its capacity is split exactly, it never exceeds that capacity,
  each shard is an LRU cache of its own keys, and an unbounded sharded cache answers like one
  unsharded cache for every hash function and every number of shards.
\<close>

section \<open>Splitting the capacity\<close>

lemma sum_remainder: "(\<Sum>i \<leftarrow> [0..<n]. b + (if i < r then 1 else 0 :: nat)) = n * b + min r n"
  by (induction n) auto

lemma shard_capacities_bounded:
  "shard_capacities (sharded_bounded n cap) =
     map (\<lambda>i. Some (cap div bounded_count n cap + (if i < cap mod bounded_count n cap then 1 else 0)))
       [0..<bounded_count n cap]"
  by (simp add: shard_capacities_def sharded_bounded_def Let_def comp_def)

lemma bounded_capacity_sum: "(\<Sum>c \<leftarrow> shard_capacities (sharded_bounded n cap). the c) = cap"
proof -
  have "min (cap mod bounded_count n cap) (bounded_count n cap) = cap mod bounded_count n cap"
    using mod_less_divisor [OF bounded_count_pos, of cap n cap] by simp
  then show ?thesis
    using sum_remainder [where n = "bounded_count n cap" and b = "cap div bounded_count n cap"
        and r = "cap mod bounded_count n cap"]
    by (simp add: shard_capacities_bounded comp_def)
qed

lemma capacity_from_list:
  assumes "sharded_inv h s" and "None \<notin> set (shard_capacities s)"
  shows "sharded_capacity s = Some (s, Some (\<Sum>c \<leftarrow> shard_capacities s. the c))"
proof -
  from assms have "c_capacity (sy_cache (hd (shards s))) \<noteq> None"
    by (cases "shards s") (auto simp: sharded_inv_def shard_capacities_def)
  moreover have "map (\<lambda>sh. case c_capacity (sy_cache sh) of None \<Rightarrow> 0 | Some n \<Rightarrow> n) (shards s)
      = map the (shard_capacities s)"
    using assms(2) by (force simp: shard_capacities_def split: option.splits)
  ultimately show ?thesis using sharded_capacity_eq [OF assms(1)] by simp
qed

text \<open>
  C11. The bounded constructor splits the requested capacity: the shard capacities sum to it exactly
  (and \<open>capacity()\<close> reports it), no two differ by more than one, there are never more shards than
  asked for, and every shard can hold an entry unless the requested capacity is zero.
\<close>

theorem capacity_split_exactly:
  "sharded_capacity (sharded_bounded n cap) = Some (sharded_bounded n cap, Some cap) \<and>
   length (shards (sharded_bounded n cap)) \<le> max 1 n \<and>
   list_all (\<lambda>c. \<exists>m. c = Some m \<and> min 1 cap \<le> m \<and>
       cap div length (shards (sharded_bounded n cap)) \<le> m \<and>
       m \<le> cap div length (shards (sharded_bounded n cap)) + 1)
     (shard_capacities (sharded_bounded n cap))"
proof (intro conjI)
  have "None \<notin> set (shard_capacities (sharded_bounded n cap))"
    by (auto simp: shard_capacities_bounded)
  from capacity_from_list [OF sharded_inv_bounded this]
  show "sharded_capacity (sharded_bounded n cap) = Some (sharded_bounded n cap, Some cap)"
    by (simp add: bounded_capacity_sum)
  have len: "length (shards (sharded_bounded n cap)) = bounded_count n cap"
    by (simp add: sharded_bounded_def Let_def)
  then show "length (shards (sharded_bounded n cap)) \<le> max 1 n"
    by (auto simp: bounded_count_def sane_shard_count_def Let_def)
  have "bounded_count n cap \<le> cap" if "0 < cap"
    using that by (auto simp: bounded_count_def sane_shard_count_def Let_def)
  then have "min 1 cap \<le> cap div bounded_count n cap"
    by (cases "cap = 0") (simp_all add: div_greater_zero_iff Suc_le_eq)
  then show "list_all (\<lambda>c. \<exists>m. c = Some m \<and> min 1 cap \<le> m \<and>
       cap div length (shards (sharded_bounded n cap)) \<le> m \<and>
       m \<le> cap div length (shards (sharded_bounded n cap)) + 1)
     (shard_capacities (sharded_bounded n cap))"
    by (simp add: list_all_iff shard_capacities_bounded len)
qed

section \<open>Runs of the bounded cache\<close>

lemma run_capacities:
  assumes "sharded_inv h s" and "run_defined (sharded_step h) xs s = Some (s', rs)"
  shows "shard_capacities s' = shard_capacities s"
  using assms
proof (induction xs arbitrary: s rs)
  case (Cons x xs)
  from sharded_step_refines [OF Cons.prems(1), of x] obtain t r where
    t: "sharded_step h x s = Some (t, r)" "sharded_inv h t" by blast
  with Cons sharded_step_capacities [OF Cons.prems(1) t(1)] show ?case
    by (auto simp: bind_eq_Some_conv)
qed simp

lemma sharded_run:
  assumes "sharded_inv h s"
  obtains s' rs where "run_defined (sharded_step h) xs s = Some (s', rs)" "sharded_inv h s'"
    "shard_capacities s' = shard_capacities s"
    "run_spec (shards_spec h deadline) xs (sharded_abs s) = (sharded_abs s', rs)"
  using sharded_lru.run_refines [OF assms, of xs] run_capacities [OF assms, of xs] by blast

text \<open>
  C10. Under any sequence of calls every shard of a bounded sharded cache behaves as an LRU list of
  its own capacity: no call is undefined, and the answers are those of independent LRU lists, each
  call going to the list its key selects. There is no global recency order.
\<close>

theorem sharded_implements_lru_per_shard:
  "\<exists>s rs. run_defined (sharded_step h) xs (sharded_bounded n cap) = Some (s, rs) \<and>
     run_spec (shards_spec h deadline) xs
       (map (\<lambda>c. \<lparr>lru_items = [], lru_cap = c, lru_evictions = 0, lru_expired = 0\<rparr>)
         (shard_capacities (sharded_bounded n cap))) = (sharded_abs s, rs)"
proof -
  have "cache_abs (sy_cache (sync_fresh c)) = \<lparr>lru_items = [], lru_cap = c, lru_evictions = 0, lru_expired = 0\<rparr>" for c
    by (simp add: cache_abs_def) (simp add: sync_fresh_def fresh_cache_def cache_unbounded_def
        cache_bounded_def split: option.splits)
  then have "sharded_abs (sharded_bounded n cap) =
      map (\<lambda>c. \<lparr>lru_items = [], lru_cap = c, lru_evictions = 0, lru_expired = 0\<rparr>)
        (shard_capacities (sharded_bounded n cap))"
    by (simp add: sharded_abs_def shard_capacities_def sharded_bounded_def Let_def)
  with sharded_lru.run_refines [OF sharded_inv_bounded, of h xs n cap] show ?thesis by metis
qed

text \<open>A bounded shard holds at most its capacity, so the whole holds at most the total.\<close>

lemma size_within_capacity:
  assumes "sharded_inv h s" and "None \<notin> set (shard_capacities s)"
  shows "(\<Sum>sh \<leftarrow> shards s. cache_size (sy_cache sh)) \<le> (\<Sum>c \<leftarrow> shard_capacities s. the c)"
proof -
  have "cache_size (sy_cache sh) \<le> the (c_capacity (sy_cache sh))" if "sh \<in> set (shards s)" for sh
  proof -
    from that assms(1) have "cache_inv (sy_cache sh)"
      by (auto simp: sharded_inv_def sync_inv_def in_set_conv_nth)
    from cache_inv_lru_ok [OF this] cache_size_refines [OF this] that assms(2) show ?thesis
      by (force simp: lru_ok_def within_cap_def shard_capacities_def split: option.splits)
  qed
  then show ?thesis by (simp add: shard_capacities_def comp_def sum_list_mono)
qed

text \<open>
  A bounded sharded cache never holds more entries than the capacity it was built with, after
  any sequence of calls, and it keeps reporting that capacity.
\<close>

lemma sharded_size_bounded:
  "\<exists>s rs m. run_defined (sharded_step h) xs (sharded_bounded n cap) = Some (s, rs) \<and>
     sharded_size s = Some (s, m) \<and> m \<le> cap \<and> sharded_capacity s = Some (s, Some cap)"
proof -
  obtain s rs where s: "run_defined (sharded_step h) xs (sharded_bounded n cap) = Some (s, rs)"
    "sharded_inv h s" "shard_capacities s = shard_capacities (sharded_bounded n cap)"
    using sharded_run [OF sharded_inv_bounded] by blast
  then have "None \<notin> set (shard_capacities s)" by (auto simp: shard_capacities_bounded)
  from capacity_from_list [OF s(2) this] size_within_capacity [OF s(2) this] s sharded_reads(1) [OF s(2)]
  show ?thesis by (auto simp: bounded_capacity_sum)
qed


section \<open>Every key has one place\<close>

lemma distinct_concat_labelled:
  assumes "\<And>i. i < length xss \<Longrightarrow> distinct (xss ! i)"
    and "\<And>i x. i < length xss \<Longrightarrow> x \<in> set (xss ! i) \<Longrightarrow> g x = i"
  shows "distinct (concat xss)"
  using assms
proof (induction xss rule: rev_induct)
  case (snoc xs xss)
  have "distinct (concat xss)"
  proof (rule snoc.IH)
    fix i assume i: "i < length xss"
    show "distinct (xss ! i)" using snoc.prems(1) [of i] i by (simp add: nth_append)
    show "g x = i" if "x \<in> set (xss ! i)" for x using snoc.prems(2) [of i x] i that by (simp add: nth_append)
  qed
  moreover have "g x \<noteq> length xss" if "x \<in> set (concat xss)" for x
  proof -
    from that obtain i where "i < length xss" "x \<in> set (xss ! i)" by (auto simp: in_set_conv_nth [of _ xss])
    with snoc.prems(2) [of i x] show ?thesis by (simp add: nth_append)
  qed
  moreover have "distinct xs" "\<And>x. x \<in> set xs \<Longrightarrow> g x = length xss"
    using snoc.prems [of "length xss"] by simp_all
  ultimately show ?case by auto
qed simp

lemma export_keys: "map snap_key (lru_export now l) = map entry_key (filter (live_at now) (lru_items l))"
  by (simp add: lru_export_def lru_snapshot_def comp_def)

lemma sharded_export_distinct:
  assumes "sharded_inv h s"
  shows "\<exists>es. sharded_export clock s = Some (s, es) \<and> distinct (map snap_key es)"
proof -
  let ?part = "\<lambda>i. map snap_key (cache_export (clock i) (sy_cache (shards s ! i)))"
  have part: "?part i = map entry_key (filter (live_at (clock i)) (rl_range (c_entries (sy_cache (shards s ! i)))))"
    for i
    by (simp add: cache_export_refines export_keys)
  have "distinct (concat (map ?part [0..<length (shards s)]))"
  proof (rule distinct_concat_labelled [where g = "\<lambda>k. shard_index_for h k s"])
    fix i assume "i < length (map ?part [0..<length (shards s)])"
    then have i: "i < length (shards s)" by simp
    from cache_inv_lru_ok [OF sharded_inv_shard(2) [OF assms i]]
    show "distinct (map ?part [0..<length (shards s)] ! i)"
      using i by (simp add: part lru_ok_def distinct_map_filter)
    show "shard_index_for h k s = i" if "k \<in> set (map ?part [0..<length (shards s)] ! i)" for k
      using that i assms by (auto simp: part sharded_inv_def shard_keys_def)
  qed
  moreover have "map snap_key (concat (map (\<lambda>(i, sh). cache_export (clock i) (sy_cache sh))
      (zip [0..<length (shards s)] (shards s)))) = concat (map ?part [0..<length (shards s)])"
    by (simp add: map_concat comp_def case_prod_beta)
      (rule arg_cong [where f = concat], rule nth_equalityI, simp_all)
  ultimately show ?thesis using sharded_reads(4) [OF assms] by auto
qed

text \<open>
  Whatever calls are made, an entry sits only in the shard its key selects, so no key is held
  twice and an export lists every key at most once, although each shard is exported at an
  instant of its own.
\<close>

lemma key_has_one_place:
  "\<exists>s rs es. run_defined (sharded_step h) xs (sharded_bounded n cap) = Some (s, rs) \<and>
     sharded_export clock s = Some (s, es) \<and> distinct (map snap_key es) \<and>
     list_all (\<lambda>i. list_all (\<lambda>k. shard_index_for h k s = i) (keys_by_recency (sy_cache (shards s ! i))))
       [0..<length (shards s)]"
proof -
  obtain s rs where s: "run_defined (sharded_step h) xs (sharded_bounded n cap) = Some (s, rs)"
    "sharded_inv h s"
    using sharded_run [OF sharded_inv_bounded] by blast
  then have "list_all (\<lambda>i. list_all (\<lambda>k. shard_index_for h k s = i) (keys_by_recency (sy_cache (shards s ! i))))
       [0..<length (shards s)]"
    by (auto simp: sharded_inv_def list_all_iff keys_by_recency_def shard_keys_def)
  with s sharded_export_distinct [OF s(2), of clock] show ?thesis by blast
qed

text \<open>
  C12. The mixing step of \<open>shard_hash\<close> loses nothing: two keys have the same shard hash exactly
  when \<open>std::hash\<close> already gives them the same hash.
\<close>

theorem shard_hash_separates: "shard_hash h a = shard_hash h b \<longleftrightarrow> h a = h b"
  by (simp add: shard_hash_def mix_inj)

section \<open>Sharding is invisible\<close>

text \<open>
  C9. An unbounded sharded cache gives, for every sequence of calls, the answers of a single
  unsharded cache: for every hash function, every requested number of shards, and with
  expiry included.
\<close>

theorem sharding_unobservable:
  "\<exists>c s rs. run_defined cache_kv_step xs (fresh_cache None) = Some (c, rs) \<and>
     run_defined (sharded_step h) xs (sharded_unbounded n) = Some (s, rs)"
proof -
  have "cache_kv_inv (fresh_cache None)" "cache_kv (fresh_cache None) = sharded_kv h (sharded_unbounded n)"
    using cache_inv_fresh [of None]
    by (simp_all add: cache_kv_inv_def cache_kv_def)
      (simp_all add: fresh_cache_def cache_unbounded_def rl_range_def rl_empty_list_def)
  from sharded_as_cache.runs_agree [OF this(1) sharded_kv_inv_unbounded this(2)] show ?thesis by blast
qed

text \<open>
  A call on one key touches one shard: every other shard is the same object in the same state
  afterwards, lock included.
\<close>

lemma other_shards_untouched:
  assumes "sharded_inv h s" and "kv_key op = Some k"
    and "j < length (shards s)" and "j \<noteq> shard_index_for h k s"
  shows "\<exists>s' r. sharded_step h (now, op) s = Some (s', r) \<and> shards s' ! j = shards s ! j"
  using sharded_step_key_refines [OF assms(1,2), of now] assms(3,4) by fastforce


lemma other_shards_untouched_instance:
  "\<exists>s' r. sharded_step (\<lambda>_. 0) (0, KvSet ''a'' ''b'') (sharded_bounded 2 4) = Some (s', r) \<and>
     shards s' ! 1 = shards (sharded_bounded 2 4) ! 1"
proof (rule other_shards_untouched)
  have len: "length (shards (sharded_bounded 2 4)) = 2"
    by (simp add: sharded_bounded_def bounded_count_def sane_shard_count_def)
  then show "1 < length (shards (sharded_bounded 2 4))" by simp
  show "1 \<noteq> shard_index_for (\<lambda>_. 0) ''a'' (sharded_bounded 2 4)"
    by (simp add: shard_index_for_def len shard_hash_def mix_def)
qed (simp_all)

end
