(* ===== verification/Persistence_Properties.thy ===== *)
theory Persistence_Properties
  imports Persistence Sharded_Properties
begin

text \<open>
  What snapshots promise: loading is safe on any file contents, a saved cache comes back with the
  same values, the remaining times to live and the recency order, and restarting with another
  number of shards loses nothing.
\<close>

section \<open>Loading anything is safe\<close>

text \<open>What \<open>load\<close> returns, by what it finds at the path.\<close>

definition load_outcome :: "(string + int \<times> snap_record list) option \<Rightarrow> sharded_cache \<Rightarrow> sharded_cache \<times> load_result \<Rightarrow> bool" where
  "load_outcome found s x =
     (case found of
        None \<Rightarrow> x = (s, \<lparr>lr_ok = True, lr_loaded = 0, lr_expired = 0, lr_error = []\<rparr>)
      | Some (Inl e) \<Rightarrow> x = (s, \<lparr>lr_ok = False, lr_loaded = 0, lr_expired = 0, lr_error = e\<rparr>)
      | Some (Inr (_, rs)) \<Rightarrow> lr_ok (snd x) \<and> lr_error (snd x) = [] \<and>
          lr_loaded (snd x) + lr_expired (snd x) = length rs)"

lemma load_returns:
  assumes "sharded_inv h s"
  obtains s' res where "load h path wall clock d s = Some (s', res)" "sharded_inv h s'"
    "load_outcome (map_option parse_snapshot (dk_files d path)) s (s', res)"
proof (cases "map_option parse_snapshot (dk_files d path)")
  case None
  then show thesis using assms that [of s "load_start\<lparr>lr_ok := True\<rparr>"]
    by (simp add: load_def load_outcome_def load_start_def)
next
  case (Some x)
  show thesis
  proof (cases x)
    case (Inl e)
    with Some assms that [of s "load_start\<lparr>lr_error := e\<rparr>"] show thesis
      by (auto simp: load_def load_outcome_def load_start_def)
  next
    case (Inr p)
    obtain t rs where p: "p = (t, rs)" by fastforce
    from apply_records_run [OF assms, of clock "elapsed_ms wall t" 0 "rev rs" load_start]
      length_load_ops [of clock "elapsed_ms wall t" 0 "rev rs"] Inr p Some that
    show thesis by (auto simp: load_def load_outcome_def load_start_def)
  qed
qed

lemma load_reaches:
  assumes "sharded_inv h s"
  obtains s' res where "load h path wall clock d s = Some (s', res)" "sharded_inv h s'"
    "\<not> lr_ok res \<Longrightarrow> s' = s"
  by (rule load_returns [OF assms, of path wall clock d])
    (auto simp: load_outcome_def intro: that split: option.splits sum.splits prod.splits)

lemma load_capacities:
  assumes "sharded_inv h s" and "load h path wall clock d s = Some (s', res)"
  shows "shard_capacities s' = shard_capacities s"
proof (cases "map_option parse_snapshot (dk_files d path)")
  case (Some x)
  then show ?thesis
  proof (cases x)
    case (Inr p)
    obtain t rs where p: "p = (t, rs)" by fastforce
    from apply_records_run [OF assms(1), of clock "elapsed_ms wall t" 0 "rev rs" load_start] run_capacities [OF assms(1)]
      Inr p Some assms(2) show ?thesis by (fastforce simp: load_def)
  qed (use assms(2) in \<open>auto simp: load_def\<close>)
qed (use assms(2) in \<open>simp add: load_def\<close>)

text \<open>
  The times of a file stay in 64 bits: those of a record when it is applied at \<open>now\<close>, and all that
  \<open>load\<close> computes from the file at \<open>path\<close>. Nothing is computed from a file whose header is bad, and only
  the age of the snapshot when the header is good and the rest is not.
\<close>

definition record_in_range :: "time_ns \<Rightarrow> int \<Rightarrow> snap_record \<Rightarrow> bool" where
  "record_in_range now elapsed r \<longleftrightarrow> rec_ttl_ms r = kNoExpiry \<or>
     int64_range (rec_ttl_ms r - elapsed) \<and>
     (0 < rec_ttl_ms r - elapsed \<longrightarrow> int64_range ((rec_ttl_ms r - elapsed) * ns_per_ms) \<and>
        int64_range (now + (rec_ttl_ms r - elapsed) * ns_per_ms))"

definition load_in_range :: "string \<Rightarrow> int \<Rightarrow> (nat \<Rightarrow> time_ns) \<Rightarrow> disk \<Rightarrow> bool" where
  "load_in_range path wall clock d =
     (case dk_files d path of
        None \<Rightarrow> True
      | Some bytes \<Rightarrow>
          (case read_header bytes of
             Inl e \<Rightarrow> True
           | Inr (s, saved_at_ms) \<Rightarrow> int64_range (wall - saved_at_ms) \<and>
               (case parse_snapshot bytes of
                  Inl e \<Rightarrow> True
                | Inr (_, rs) \<Rightarrow> list_all (\<lambda>(i, r). record_in_range (clock i) (max 0 (wall - saved_at_ms)) r)
                    (enumerate 0 (rev rs)))))"

lemma checked64_bind: "checked64 x \<bind> f = (if int64_range x then f x else None)"
  by (simp add: checked64_def)

lemma deadline_checked_None:
  "deadline_checked now ttl = None \<longleftrightarrow> \<not> (int64_range (ttl * ns_per_ms) \<and> int64_range (now + ttl * ns_per_ms))"
  by (auto simp: deadline_checked_def checked64_def)

text \<open>Where the checked arithmetic is defined it gives what the cache computes.\<close>

lemma deadline_checked_Some: "deadline_checked now ttl = Some x \<Longrightarrow> deadline now ttl = x"
  by (auto simp: deadline_checked_def deadline_def checked64_bind checked64_def split: if_splits)

lemma apply_records_checked_eq:
  assumes "sharded_inv h s"
  shows "apply_records_checked h clock elapsed i rs s res =
    (if list_all (\<lambda>(j, r). record_in_range (clock j) elapsed r) (enumerate i rs)
     then apply_records h clock elapsed i rs s res else None)"
  using assms
proof (induction rs arbitrary: i s res)
  case (Cons r rs)
  consider (keep) "rec_ttl_ms r = kNoExpiry" | (ttl) "rec_ttl_ms r \<noteq> kNoExpiry" "int64_range (rec_ttl_ms r - elapsed)"
      "0 < rec_ttl_ms r - elapsed"
    | (skip) "rec_ttl_ms r \<noteq> kNoExpiry" "\<not> int64_range (rec_ttl_ms r - elapsed) \<or> rec_ttl_ms r - elapsed \<le> 0"
    by linarith
  then show ?case
  proof cases
    case keep
    from sharded_step_refines [OF Cons.prems, of "(0, KvSet (rec_key r) (rec_value r))"] obtain t a
      where "sharded_step h (0, KvSet (rec_key r) (rec_value r)) s = Some (t, a)" "sharded_inv h t" by blast
    with keep Cons.IH show ?thesis by (auto simp: record_in_range_def split: option.splits)
  next
    case ttl
    let ?x = "(clock i, KvSetTtl (rec_key r) (rec_value r) (rec_ttl_ms r - elapsed))"
    from sharded_step_refines [OF Cons.prems, of ?x] obtain t a
      where "sharded_step h ?x s = Some (t, a)" "sharded_inv h t" by blast
    with ttl Cons.IH deadline_checked_None [of "clock i" "rec_ttl_ms r - elapsed"] show ?thesis
      by (cases "deadline_checked (clock i) (rec_ttl_ms r - elapsed)")
        (auto simp: record_in_range_def checked64_bind split: option.splits)
  next
    case skip
    with Cons.IH [OF Cons.prems] show ?thesis by (auto simp: record_in_range_def checked64_bind)
  qed
qed simp

text \<open>\<open>load\<close> is \<open>load_checked\<close> wherever that is defined, and it is defined exactly where no overflow occurs.\<close>

lemma load_checked_eq:
  assumes "sharded_inv h s"
  shows "load_checked h path wall clock d s = (if load_in_range path wall clock d then load h path wall clock d s else None)"
  by (auto simp: load_checked_def load_def load_in_range_def parse_snapshot_def elapsed_checked_def elapsed_ms_def
      checked64_def apply_records_checked_eq [OF assms] split: option.split sum.split prod.split)

text \<open>
  C17. Loading checks everything before it changes anything, whatever bytes the snapshot file holds.
  \<open>load\<close> has undefined behaviour exactly when one of the times it computes from the file leaves 64 bits;
  otherwise it returns a well-formed cache. It reports success exactly when there is no file or the
  whole file is well formed. When it reports failure it names the reason, no entry was applied and the
  cache is exactly what it was before.
\<close>

theorem load_failure_leaves_cache:
  assumes "sharded_inv h s"
  shows "case load_checked h path wall clock d s of
      None \<Rightarrow> \<not> load_in_range path wall clock d
    | Some (s', res) \<Rightarrow> load_in_range path wall clock d \<and> sharded_inv h s' \<and>
        (case map_option parse_snapshot (dk_files d path) of
           None \<Rightarrow> s' = s \<and> res = \<lparr>lr_ok = True, lr_loaded = 0, lr_expired = 0, lr_error = []\<rparr>
         | Some (Inl e) \<Rightarrow> s' = s \<and> res = \<lparr>lr_ok = False, lr_loaded = 0, lr_expired = 0, lr_error = e\<rparr>
         | Some (Inr (_, rs)) \<Rightarrow> lr_ok res \<and> lr_loaded res + lr_expired res = length rs)"
  by (rule load_returns [OF assms, of path wall clock d])
    (auto simp: load_checked_eq [OF assms] load_outcome_def split: option.splits sum.splits prod.splits)

text \<open>Snapshots with an impossible count, with a record cut short, and with a time to live beyond the clock.\<close>

definition on_disk :: "string \<Rightarrow> disk" where
  "on_disk bytes = \<lparr>dk_files = [''dump'' \<mapsto> bytes], dk_counter = 0\<rparr>"

definition torn :: string where
  "torn = ''CACHEX-SNAPSHOT 1 7 1 1 9 -1'' @ LF # ''kval''"

definition endless :: entry_snapshot where
  "endless = \<lparr>snap_key = ''k'', snap_value = ''v'', snap_remaining_ttl = Some int64_max\<rparr>"

lemma parsed_header: "parse_snapshot bytes = Inr (t, rs) \<Longrightarrow> map_sum id snd (read_header bytes) = Inr t"
  by (auto simp: parse_snapshot_def split: sum.splits prod.splits)

lemma on_disk_in_range:
  "map_sum id snd (read_header bytes) = Inr t \<Longrightarrow> load_in_range ''dump'' wall clock (on_disk bytes) =
     (int64_range (wall - t) \<and> (case parse_snapshot bytes of Inl e \<Rightarrow> True | Inr (_, rs) \<Rightarrow>
        list_all (\<lambda>(i, r). record_in_range (clock i) (max 0 (wall - t)) r) (enumerate 0 (rev rs))))"
  by (cases "read_header bytes") (auto simp: load_in_range_def on_disk_def split: sum.split)

theorem load_failure_leaves_cache_witness:
  "load_checked (\<lambda>_. 0) ''dump'' 5 (\<lambda>_. 0) (on_disk ''CACHEX-SNAPSHOT 1 7 1 oops'') (sharded_bounded 2 4) =
     Some (sharded_bounded 2 4, \<lparr>lr_ok = False, lr_loaded = 0, lr_expired = 0,
       lr_error = ''entry count 1 exceeds what the file can hold''\<rparr>) \<and>
   load_checked (\<lambda>_. 0) ''dump'' 5 (\<lambda>_. 0) (on_disk torn) (sharded_bounded 2 4) =
     Some (sharded_bounded 2 4, \<lparr>lr_ok = False, lr_loaded = 0, lr_expired = 0,
       lr_error = ''truncated payload at record 0''\<rparr>) \<and>
   load_checked (\<lambda>_. 0) ''dump'' 5 (\<lambda>_. 0) (on_disk (snapshot_bytes 0 [endless])) (sharded_bounded 2 4) = None"
proof -
  let ?s = "sharded_bounded 2 4"
  have "sharded_inv (\<lambda>_. 0) ?s" by simp
  note law = load_failure_leaves_cache [OF this, of "''dump''" 5 "\<lambda>_. 0"]
  let ?a = "''CACHEX-SNAPSHOT 1 7 1 oops''" and ?b = torn
    and ?c = "snapshot_bytes 0 [endless]"
  have header: "map_sum id snd (read_header ?a) = Inr 7" "map_sum id snd (read_header ?b) = Inr 7" by code_simp+
  have parsed: "parse_snapshot ?a = Inl ''entry count 1 exceeds what the file can hold''"
    "parse_snapshot ?b = Inl ''truncated payload at record 0''" by code_simp+
  have c: "parse_snapshot ?c = Inr (0, [to_record endless])"
    by (subst parse_snapshot_bytes) (simp_all add: saveable_def endless_def entry_ttl_def)
  have "load_in_range ''dump'' 5 (\<lambda>_. 0) (on_disk ?a)" "load_in_range ''dump'' 5 (\<lambda>_. 0) (on_disk ?b)"
    by (simp_all add: on_disk_in_range [OF header(1)] on_disk_in_range [OF header(2)] parsed int64_range_def)
  moreover have "\<not> load_in_range ''dump'' 5 (\<lambda>_. 0) (on_disk ?c)"
    unfolding on_disk_in_range [OF parsed_header [OF c]] c
    by (simp add: record_in_range_def to_record_def endless_def entry_ttl_def kNoExpiry_def int64_range_def ns_per_ms_def)
  ultimately show ?thesis using law [of "on_disk ?a"] law [of "on_disk ?b"] law [of "on_disk ?c"] parsed
    by (auto simp: on_disk_def split: option.splits)
qed

section \<open>Round trip of the file format\<close>

text \<open>
  The file format loses nothing: parsing the bytes a save writes gives back the time of the
  save and every record, for arbitrary bytes in keys and values.
\<close>

lemma snapshot_round_trip:
  assumes "list_all saveable es" and "length es < 2 ^ 63" and "int64_min \<le> wall" and "wall \<le> int64_max"
  shows "parse_snapshot (snapshot_bytes wall es) = Inr (wall, map to_record es)"
  using assms by (rule parse_snapshot_bytes)

lemma snapshot_round_trip_instance:
  "parse_snapshot (snapshot_bytes 1700000000000
       [\<lparr>snap_key = ''a b'' @ [LF], snap_value = [], snap_remaining_ttl = None\<rparr>,
        \<lparr>snap_key = [], snap_value = [CHR 0x00, CR], snap_remaining_ttl = Some 60\<rparr>]) =
     Inr (1700000000000, map to_record
       [\<lparr>snap_key = ''a b'' @ [LF], snap_value = [], snap_remaining_ttl = None\<rparr>,
        \<lparr>snap_key = [], snap_value = [CHR 0x00, CR], snap_remaining_ttl = Some 60\<rparr>])"
  by (rule snapshot_round_trip) (simp_all add: saveable_def entry_ttl_def kNoExpiry_def)

text \<open>
  No overflow on the files the program writes: a snapshot of entries whose time left reaches a deadline
  the clock can express, read by clocks past zero.
\<close>

lemma snapshot_in_range:
  assumes "dk_files d path = Some (snapshot_bytes saved es)" and "list_all saveable es" and "length es < 2 ^ 63"
    and "0 \<le> saved" "saved < 2 ^ 63" "0 \<le> wall" "wall < 2 ^ 63" and "\<And>i. 0 \<le> clock i"
    and "\<And>e x i. e \<in> set es \<Longrightarrow> snap_remaining_ttl e = Some x \<Longrightarrow> 0 \<le> x \<and> clock i + x * ns_per_ms < 2 ^ 63"
  shows "load_in_range path wall clock d"
proof -
  have parsed: "parse_snapshot (snapshot_bytes saved es) = Inr (saved, map to_record es)"
    using assms(2-5) by (intro parse_snapshot_bytes) auto
  obtain u where header: "read_header (snapshot_bytes saved es) = Inr (u, saved)"
    using parsed_header [OF parsed] by (cases "read_header (snapshot_bytes saved es)") auto
  define el where "el = max 0 (wall - saved)"
  have el: "0 \<le> el" "el < 2 ^ 63" using assms(4-7) by (auto simp: el_def)
  have "record_in_range (clock i) el (to_record e)" if "e \<in> set es" for e i
  proof (cases "snap_remaining_ttl e")
    case (Some x)
    from assms(9) [OF that Some, of i] assms(8) [of i] have x: "0 \<le> x" "clock i + x * ns_per_ms < 2 ^ 63" "0 \<le> clock i" by auto
    with Some el show ?thesis
      by (auto simp: record_in_range_def to_record_def entry_ttl_def int64_range_def ns_per_ms_def)
  qed (simp add: record_in_range_def to_record_def entry_ttl_def)
  then have "list_all (\<lambda>(i, r). record_in_range (clock i) el r) (enumerate 0 (rev (map to_record es)))"
    by (auto simp: list_all_iff in_set_enumerate_eq rev_map rev_nth)
  with assms(1,4-7) parsed header show ?thesis by (simp add: load_in_range_def int64_range_def el_def)
qed

section \<open>Values come back\<close>

text \<open>What a key holds after its record was applied at instant \<open>now\<close>.\<close>

definition restored :: "time_ns \<Rightarrow> int \<Rightarrow> snap_record \<Rightarrow> entry option" where
  "restored now elapsed r =
     (case record_op now elapsed r of
        None \<Rightarrow> None
      | Some x \<Rightarrow> fst (kv_slot deadline now (snd x) None))"

lemma kv_slot_set:
  "record_op now elapsed r = Some x \<Longrightarrow> fst x = now \<and> kv_key (snd x) = Some (rec_key r) \<and>
     fst (kv_slot deadline now (snd x) y) = restored now elapsed r"
  by (auto simp: record_op_def restored_def split: if_splits)

lemma load_ops_kv:
  assumes "distinct (map rec_key rs)"
  shows "fst (run_spec (kv_step deadline) (load_ops clock elapsed i rs) m) k =
    (if k \<in> rec_key ` set rs
     then
       (let j = length (takeWhile (\<lambda>r. rec_key r \<noteq> k) rs)
        in case restored (clock (i + j)) elapsed (rs ! j) of None \<Rightarrow> m k | Some e \<Rightarrow> Some e)
     else m k)"
  using assms
proof (induction rs arbitrary: i m)
  case (Cons r rs)
  show ?case
  proof (cases "record_op (clock i) elapsed r")
    case None
    then have "restored (clock i) elapsed r = None" by (simp add: restored_def)
    with None Cons show ?thesis by (auto simp: Let_def)
  next
    case (Some x)
    from kv_slot_set [OF this] have x: "fst x = clock i" "kv_key (snd x) = Some (rec_key r)"
      "\<And>y. fst (kv_slot deadline (clock i) (snd x) y) = restored (clock i) elapsed r" by auto
    then have m': "fst (kv_step deadline x m) = m(rec_key r := restored (clock i) elapsed r)"
      by (auto simp: kv_step_def split: prod.splits) (metis fst_conv)
    have "restored (clock i) elapsed r \<noteq> None"
      using Some by (auto simp: restored_def record_op_def split: if_splits)
    with Some Cons m' show ?thesis
      by (auto simp: Let_def case_prod_beta split: option.splits)
  qed
qed simp


text \<open>What a restart makes of an exported entry, \<open>elapsed\<close> milliseconds after the save.\<close>

definition revived :: "time_ns \<Rightarrow> int \<Rightarrow> entry_snapshot \<Rightarrow> entry option" where
  "revived now elapsed e =
     (case snap_remaining_ttl e of
        None \<Rightarrow> Some \<lparr>entry_key = snap_key e, entry_value = snap_value e, entry_expires_at = None\<rparr>
      | Some t \<Rightarrow>
          if elapsed < t
          then Some \<lparr>entry_key = snap_key e, entry_value = snap_value e,
                 entry_expires_at = Some (deadline now (t - elapsed))\<rparr>
          else None)"

lemma restored_revived:
  assumes "saveable e" and "0 \<le> elapsed" and "elapsed \<le> int64_max"
    and "\<And>t. snap_remaining_ttl e = Some t \<Longrightarrow> 0 \<le> t"
  shows "restored now elapsed (to_record e) = revived now elapsed e"
proof (cases "snap_remaining_ttl e")
  case None
  then show ?thesis by (simp add: restored_def revived_def record_op_def to_record_def entry_ttl_def)
next
  case (Some t)
  with assms have "int64_range (t - elapsed)" by (auto simp: saveable_def entry_ttl_def int64_range_def)
  with assms(4) [OF Some] Some show ?thesis
    by (simp add: restored_def revived_def record_op_def to_record_def entry_ttl_def kNoExpiry_def)
qed

lemma elapsed_bounds: "0 \<le> elapsed_ms wall t" "elapsed_ms wall t \<le> int64_max"
  using wrap64_range [of "wall - t"] by (auto simp: elapsed_ms_def int64_range_def)

lemma export_ttl_nonneg: "e \<in> set (lru_export now l) \<Longrightarrow> snap_remaining_ttl e = Some t \<Longrightarrow> 0 \<le> t"
  by (auto simp: lru_export_def lru_snapshot_def live_at_def duration_cast_ms_def ns_per_ms_def)

lemma sharded_export_ttl:
  assumes "sharded_inv h s" and "sharded_export clock s = Some (s', es)" and "e \<in> set es"
    and "snap_remaining_ttl e = Some t"
  shows "0 \<le> t"
  using assms sharded_reads(4) [OF assms(1), of clock]
  by (auto simp: cache_export_refines dest: export_ttl_nonneg)


text \<open>Loading a file that was written from a list of entries.\<close>

lemma load_written:
  assumes written: "write_snapshot path env es d = (d1, res)" "sr_ok res"
    and ok: "list_all saveable es" "length es < 2 ^ 63" "int64_range (se_wall env)"
    and inv: "sharded_inv h' t"
  shows "\<exists>t' out. run_defined (sharded_step h')
        (load_ops clock (elapsed_ms wall (se_wall env)) 0 (rev (map to_record es))) t = Some (t', out) \<and>
      sharded_inv h' t' \<and>
      load h' path wall clock d1 t = Some (t', \<lparr>lr_ok = True,
        lr_loaded = length (load_ops clock (elapsed_ms wall (se_wall env)) 0 (rev (map to_record es))),
        lr_expired = length es - length (load_ops clock (elapsed_ms wall (se_wall env)) 0 (rev (map to_record es))),
        lr_error = []\<rparr>)"
proof -
  have contents: "dk_files d1 path = Some (snapshot_bytes (se_wall env) es)"
    using written by (auto simp: write_snapshot_def save_failed_def Let_def split: if_splits option.splits)
  have "int64_min \<le> se_wall env" "se_wall env \<le> int64_max" using ok(3) by (auto simp: int64_range_def)
  from parse_snapshot_bytes [OF ok(1,2) this] contents
    apply_records_run [OF inv, of clock "elapsed_ms wall (se_wall env)" 0 "rev (map to_record es)" load_start]
  show ?thesis by (fastforce simp: load_def load_start_def)
qed

lemma saved_written:
  "save path env s d = Some (s1, d1, res) \<Longrightarrow> sharded_export (se_clock env) s = Some (s, es) \<Longrightarrow>
   write_snapshot path env es d = (d1, res)"
  by (simp add: save_def)

lemma takeWhile_rev_record:
  assumes "distinct (map snap_key es)" and "j < length es"
  shows "length (takeWhile (\<lambda>r. rec_key r \<noteq> snap_key (rev es ! j)) (rev (map to_record es))) = j"
proof -
  let ?rs = "rev (map to_record es)" and ?P = "\<lambda>r. rec_key r \<noteq> snap_key (rev es ! j)"
  have nth: "?rs ! i = to_record (rev es ! i)" if "i < length es" for i using that by (simp add: rev_map [symmetric] rev_nth)
  have dist: "distinct (map snap_key (rev es))" using assms(1) by (simp add: rev_map [symmetric])
  have "?P (?rs ! i)" if "i < j" for i
  proof -
    have "map snap_key (rev es) ! i \<noteq> map snap_key (rev es) ! j"
      using dist that assms(2) by (subst nth_eq_iff_index_eq) auto
    with that assms(2) nth [of i] show ?thesis by (simp add: to_record_def)
  qed
  moreover have "\<not> ?P (?rs ! j)" using nth [OF assms(2)] by (simp add: to_record_def)
  ultimately have "takeWhile ?P ?rs = take j ?rs" by (intro takeWhile_eq_take_P_nth) auto
  then show ?thesis using assms(2) by simp
qed

text \<open>
  A file written from a list of entries and loaded with the effect of a map: the records are applied in
  the reverse order of the file, the \<open>j\<close>-th of them at \<open>clock j\<close>.
\<close>

lemma written_loaded_kv:
  assumes "write_snapshot path env es d = (d1, res)" and "sr_ok res"
    and "list_all saveable es" and "length es < 2 ^ 63" and "int64_range (se_wall env)"
    and "distinct (map snap_key es)" and "\<And>e t. e \<in> set es \<Longrightarrow> snap_remaining_ttl e = Some t \<Longrightarrow> 0 \<le> t"
    and "sharded_inv h' fresh"
    and "\<And>t out ops. ops = load_ops clock (elapsed_ms wall (se_wall env)) 0 (rev (map to_record es)) \<Longrightarrow>
      run_defined (sharded_step h') ops fresh = Some (t, out) \<Longrightarrow>
      sharded_kv h' t = fst (run_spec (kv_step deadline) ops Map.empty)"
  shows "\<exists>t res'. load h' path wall clock d1 fresh = Some (t, res') \<and> lr_ok res' \<and>
    lr_loaded res' + lr_expired res' = length es \<and>
    (\<forall>j < length es. sharded_kv h' t (snap_key (rev es ! j)) =
       revived (clock j) (elapsed_ms wall (se_wall env)) (rev es ! j)) \<and>
    (\<forall>k. k \<notin> snap_key ` set es \<longrightarrow> sharded_kv h' t k = None)"
proof -
  let ?el = "elapsed_ms wall (se_wall env)" and ?rs = "rev (map to_record es)"
  let ?ops = "load_ops clock ?el 0 ?rs"
  have "distinct (map rec_key ?rs)" using assms(6) by (simp add: rev_map [symmetric] comp_def to_record_def)
  note ops = load_ops_kv [OF this, of clock ?el 0 Map.empty]
  obtain t out where t: "run_defined (sharded_step h') ?ops fresh = Some (t, out)"
    "load h' path wall clock d1 fresh = Some (t, \<lparr>lr_ok = True, lr_loaded = length ?ops,
       lr_expired = length es - length ?ops, lr_error = []\<rparr>)"
    using load_written [OF assms(1-5,8)] by blast
  note kv = assms(9) [OF refl t(1)]
  have "sharded_kv h' t (snap_key (rev es ! j)) = revived (clock j) ?el (rev es ! j)" if j: "j < length es" for j
  proof -
    let ?e = "rev es ! j"
    have e: "?e \<in> set es" "?rs ! j = to_record ?e" using j by (simp_all add: rev_nth)
    have "restored (clock j) ?el (to_record ?e) = revived (clock j) ?el ?e"
      using e(1) assms(3) assms(7) [OF e(1)] elapsed_bounds
      by (intro restored_revived) (auto simp: list_all_iff)
    moreover have "snap_key ?e \<in> rec_key ` set ?rs" using e(1) by (force simp: to_record_def)
    ultimately show ?thesis
      using ops [of "snap_key ?e"] takeWhile_rev_record [OF assms(6) j] e(2) by (auto simp: kv split: option.splits)
  qed
  moreover have "sharded_kv h' t k = None" if "k \<notin> snap_key ` set es" for k
    using that ops [of k] by (auto simp: kv to_record_def)
  moreover have "length ?ops \<le> length es" using length_load_ops [of clock ?el 0 ?rs] by simp
  ultimately show ?thesis using t(2) by auto
qed

lemma written_then_loaded:
  assumes "write_snapshot path env es d = (d1, res)" and "sr_ok res"
    and "list_all saveable es" and "length es < 2 ^ 63" and "int64_range (se_wall env)"
    and "distinct (map snap_key es)" and "\<And>e t. e \<in> set es \<Longrightarrow> snap_remaining_ttl e = Some t \<Longrightarrow> 0 \<le> t"
  shows "\<exists>t res'. load h' path wall clock d1 (sharded_unbounded n) = Some (t, res') \<and> lr_ok res' \<and>
    lr_loaded res' + lr_expired res' = length es \<and>
    (\<forall>j < length es. sharded_kv h' t (snap_key (rev es ! j)) =
       revived (clock j) (elapsed_ms wall (se_wall env)) (rev es ! j)) \<and>
    (\<forall>k. k \<notin> snap_key ` set es \<longrightarrow> sharded_kv h' t k = None)"
proof (rule written_loaded_kv [OF assms])
  show "sharded_kv h' t = fst (run_spec (kv_step deadline) ops Map.empty)"
    if "run_defined (sharded_step h') ops (sharded_unbounded n) = Some (t, out)" for t out ops
    using sharded_map.run_refines [OF sharded_kv_inv_unbounded, of h' ops n] that by auto
qed simp_all

text \<open>
  A restart keeps the data: load a saved snapshot into a fresh unbounded cache, with any hash
  function and any number of shards. Every exported key is back with its value; an entry without
  expiry never expires; an entry with a time to live has what is left after the time the file sat on
  disk, or is gone if that has run out; no other key appears; every record is counted once.
\<close>

lemma saved_then_loaded:
  assumes "sharded_inv h s" and "save path env s d = Some (s1, d1, res)" and "sr_ok res"
    and "sharded_export (se_clock env) s = Some (s, es)"
    and "list_all saveable es" and "length es < 2 ^ 63" and "int64_range (se_wall env)"
  shows "\<exists>t res'. load h' path wall clock d1 (sharded_unbounded n) = Some (t, res') \<and> lr_ok res' \<and>
    lr_loaded res' + lr_expired res' = length es \<and>
    (\<forall>j < length es. sharded_kv h' t (snap_key (rev es ! j)) =
       revived (clock j) (elapsed_ms wall (se_wall env)) (rev es ! j)) \<and>
    (\<forall>k. k \<notin> snap_key ` set es \<longrightarrow> sharded_kv h' t k = None)"
  using written_then_loaded [OF saved_written [OF assms(2,4)] assms(3,5-7)] sharded_export_distinct [OF assms(1), of "se_clock env"]
    sharded_export_ttl [OF assms(1,4)] assms(4) by auto

text \<open>A small cache and a save that meets no error.\<close>

definition demo_cache :: sharded_cache where
  "demo_cache = \<lparr>shards = [\<lparr>sy_locked = False, sy_cache =
     \<lparr>c_entries = \<lparr>rl_nodes = [(0, \<lparr>entry_key = ''k'', entry_value = ''v'', entry_expires_at = None\<rparr>)], rl_next = 1\<rparr>,
      c_index = [(''k'', 0)], c_capacity = None, c_evictions = 0, c_expired_removals = 0\<rparr>\<rparr>]\<rparr>"

definition demo_env :: save_env where
  "demo_env = \<lparr>se_clock = (\<lambda>_. 0), se_wall = 1000, se_pid = 7, se_open_ok = True, se_write_ok = True,
     se_rename_error = None\<rparr>"

definition demo_disk :: disk where
  "demo_disk = \<lparr>dk_files = Map.empty, dk_counter = 0\<rparr>"

lemma demo_cache_reached: "sharded_step (\<lambda>_. 0) (0, KvSet ''k'' ''v'') (sharded_unbounded 1) = Some (demo_cache, RUnit)"
  by code_simp

lemma demo_cache_inv: "sharded_inv (\<lambda>_. 0) demo_cache"
  using sharded_step_refines [OF sharded_inv_unbounded, of "\<lambda>_. 0" "(0, KvSet ''k'' ''v'')" 1]
  unfolding demo_cache_reached by auto

lemma demo_export:
  "sharded_export clock demo_cache =
     Some (demo_cache, [\<lparr>snap_key = ''k'', snap_value = ''v'', snap_remaining_ttl = None\<rparr>])"
  using sharded_reads(4) [OF demo_cache_inv, of clock]
  by (simp add: demo_cache_def cache_export_def rl_range_def)

lemma demo_save:
  "\<exists>d res. save path demo_env demo_cache demo_disk = Some (demo_cache, d, res) \<and> sr_ok res"
  by (simp add: save_def write_snapshot_def demo_export Let_def demo_env_def)

lemma saved_then_loaded_instance:
  "\<exists>d res t res'. save ''dump'' demo_env demo_cache demo_disk = Some (demo_cache, d, res) \<and>
     load (\<lambda>k. of_nat (length k)) ''dump'' 5000 (\<lambda>_. 10) d (sharded_unbounded 4) = Some (t, res') \<and> lr_ok res' \<and>
     sharded_kv (\<lambda>k. of_nat (length k)) t ''k'' =
       Some \<lparr>entry_key = ''k'', entry_value = ''v'', entry_expires_at = None\<rparr>"
proof -
  obtain d res where d: "save ''dump'' demo_env demo_cache demo_disk = Some (demo_cache, d, res)" "sr_ok res"
    using demo_save by blast
  have "list_all saveable [\<lparr>snap_key = ''k'', snap_value = ''v'', snap_remaining_ttl = None\<rparr>]"
    "int64_range (se_wall demo_env)"
    by (simp_all add: saveable_def entry_ttl_def kNoExpiry_def demo_env_def int64_range_def)
  from saved_then_loaded [OF demo_cache_inv d demo_export this(1) _ this(2),
      of "\<lambda>k. of_nat (length k)" 5000 "\<lambda>_. 10" 4] d(1)
  show ?thesis by (fastforce simp: revived_def)
qed

section \<open>The recency order comes back\<close>

text \<open>
  Records that all survive are applied as plain inserts of new keys: each goes to the front of the
  list of its shard, and while every shard has room nothing is evicted.
\<close>

definition shard_of :: "hash_fn \<Rightarrow> nat \<Rightarrow> string \<Rightarrow> nat" where
  "shard_of h n k = unat (shard_hash h k) mod n"

definition shard_list_keys :: "lru list \<Rightarrow> nat \<Rightarrow> string list" where
  "shard_list_keys ls i = map entry_key (lru_items (ls ! i))"

text \<open>The records are new to the shards and every shard has room for its own, so that none evicts anything.\<close>

definition fits :: "hash_fn \<Rightarrow> snap_record list \<Rightarrow> lru list \<Rightarrow> bool" where
  "fits h rs ls \<longleftrightarrow> ls \<noteq> [] \<and> distinct (map rec_key rs) \<and>
     (\<forall>i < length ls. (\<forall>k \<in> set (shard_list_keys ls i). k \<notin> rec_key ` set rs) \<and>
        within_cap (lru_cap (ls ! i))
          (length (filter (\<lambda>r. shard_of h (length ls) (rec_key r) = i) rs) + length (shard_list_keys ls i)))"

lemma lru_put_new:
  assumes "entry_key e \<notin> entry_key ` set (lru_items l)" and "within_cap (lru_cap l) (Suc (length (lru_items l)))"
  shows "lru_items (lru_put e l) = e # lru_items l"
  using assms by (simp add: lru_put_def Let_def lru_drop_absent take_cap_id)

lemma record_op_step:
  assumes "record_op now elapsed r = Some x" and "ls \<noteq> []"
    and "i = shard_of h (length ls) (rec_key r)"
    and "rec_key r \<notin> set (shard_list_keys ls i)"
    and "within_cap (lru_cap (ls ! i)) (Suc (length (shard_list_keys ls i)))"
  shows "\<exists>e l. restored now elapsed r = Some e \<and> entry_key e = rec_key r \<and>
    fst (shards_spec h deadline x ls) = ls[i := l] \<and> lru_cap l = lru_cap (ls ! i) \<and> lru_items l = e # lru_items (ls ! i)"
proof -
  obtain e where e: "restored now elapsed r = Some e" "entry_key e = rec_key r"
    "fst (shards_spec h deadline x ls) = ls[i := lru_put e (ls ! i)]"
    using assms(1,3) by (auto simp: record_op_def restored_def shards_spec_def shard_of_def Let_def split: if_splits)
  then show ?thesis
    using assms(4,5) by (intro exI [of _ e] exI [of _ "lru_put e (ls ! i)"])
      (simp add: shard_list_keys_def lru_put_new kv_lru_put(2))
qed

lemma fits_skip:
  assumes "fits h (r # rs) ls"
  shows "fits h rs ls"
proof -
  have "within_cap (lru_cap (ls ! i))
      (length (filter (\<lambda>r. shard_of h (length ls) (rec_key r) = i) rs) + length (shard_list_keys ls i))"
    if "i < length ls" for i
    by (rule within_cap_mono [of _ "length (filter (\<lambda>r. shard_of h (length ls) (rec_key r) = i) (r # rs)) +
          length (shard_list_keys ls i)"]) (use assms that in \<open>auto simp: fits_def\<close>)
  with assms show ?thesis by (auto simp: fits_def)
qed

lemma fits_step:
  assumes "fits h (r # rs) ls" and "record_op now elapsed r = Some x"
  obtains a e l where "a = shard_of h (length ls) (rec_key r)" "a < length ls" "restored now elapsed r = Some e"
    "entry_key e = rec_key r" "fst (shards_spec h deadline x ls) = ls[a := l]" "lru_items l = e # lru_items (ls ! a)"
    "fits h rs (ls[a := l])"
proof -
  define a where "a = shard_of h (length ls) (rec_key r)"
  have ne: "ls \<noteq> []" and a: "a < length ls" using assms(1) by (auto simp: fits_def a_def shard_of_def)
  have room: "within_cap (lru_cap (ls ! i))
      (length (filter (\<lambda>r. shard_of h (length ls) (rec_key r) = i) (r # rs)) + length (shard_list_keys ls i))"
    and new: "k \<in> set (shard_list_keys ls i) \<Longrightarrow> k \<notin> rec_key ` set (r # rs)" if "i < length ls" for i k
    using assms(1) that by (auto simp: fits_def)
  have "within_cap (lru_cap (ls ! a)) (Suc (length (shard_list_keys ls a)))"
    using room [OF a] by (rule within_cap_mono) (simp add: a_def)
  with record_op_step [OF assms(2) ne a_def] new [OF a] obtain e l where l: "restored now elapsed r = Some e"
    "entry_key e = rec_key r" "fst (shards_spec h deadline x ls) = ls[a := l]" "lru_cap l = lru_cap (ls ! a)"
    "lru_items l = e # lru_items (ls ! a)" by auto
  have keys: "shard_list_keys (ls[a := l]) i = (if i = a then [rec_key r] else []) @ shard_list_keys ls i" for i
    using l(2,5) a by (auto simp: shard_list_keys_def nth_list_update)
  have cap: "lru_cap (ls[a := l] ! i) = lru_cap (ls ! i)" for i using l(4) a by (cases "i = a") auto
  have "k \<notin> rec_key ` set rs" if "i < length ls" "k \<in> set (shard_list_keys (ls[a := l]) i)" for i k
  proof -
    have "rec_key r \<notin> rec_key ` set rs" using assms(1) by (simp add: fits_def)
    with that(2) new [OF that(1), of k] show ?thesis unfolding keys by (cases "k = rec_key r") (auto split: if_splits)
  qed
  moreover have "within_cap (lru_cap (ls[a := l] ! i))
      (length (filter (\<lambda>r. shard_of h (length ls) (rec_key r) = i) rs) + length (shard_list_keys (ls[a := l]) i))"
    if "i < length ls" for i
    unfolding cap keys using room [OF that] by (rule within_cap_mono) (auto simp: a_def)
  ultimately have "fits h rs (ls[a := l])" using assms(1) by (simp add: fits_def)
  with that [OF a_def a l(1-3,5)] show thesis .
qed

lemma load_ops_recency:
  assumes "fits h rs ls" and "length ls = n" and "\<And>r now. r \<in> set rs \<Longrightarrow> record_op now elapsed r \<noteq> None" and "i < n"
  shows "shard_list_keys (fst (run_spec (shards_spec h deadline) (load_ops clock elapsed j rs) ls)) i =
    rev (filter (\<lambda>k. shard_of h n k = i) (map rec_key rs)) @ shard_list_keys ls i"
  using assms
proof (induction rs arbitrary: j ls)
  case (Cons r rs)
  obtain x where x: "record_op (clock j) elapsed r = Some x" using Cons.prems(3) [of r "clock j"] by auto
  obtain a e l where l: "a = shard_of h (length ls) (rec_key r)" "a < length ls" "entry_key e = rec_key r"
    "fst (shards_spec h deadline x ls) = ls[a := l]" "lru_items l = e # lru_items (ls ! a)" "fits h rs (ls[a := l])"
    using fits_step [OF Cons.prems(1) x] .
  have "shard_list_keys (fst (run_spec (shards_spec h deadline) (load_ops clock elapsed (Suc j) rs) (ls[a := l]))) i =
    rev (filter (\<lambda>k. shard_of h n k = i) (map rec_key rs)) @ shard_list_keys (ls[a := l]) i"
    by (rule Cons.IH [OF l(6)]) (use Cons.prems in auto)
  moreover have "shard_list_keys (ls[a := l]) i = (if i = a then [rec_key r] else []) @ shard_list_keys ls i"
    using l(2,3,5) by (auto simp: shard_list_keys_def nth_list_update)
  moreover have "filter (\<lambda>k. shard_of h n k = i) (map rec_key (r # rs)) =
      (if i = a then [rec_key r] else []) @ filter (\<lambda>k. shard_of h n k = i) (map rec_key rs)"
    using Cons.prems(2) by (simp add: l(1))
  ultimately show ?case using x l(4) by (simp add: case_prod_beta del: map_map)
qed simp

text \<open>With room for all records a load has the effect it has on an unbounded map.\<close>

definition lists_kv :: "hash_fn \<Rightarrow> lru list \<Rightarrow> kv_map" where
  "lists_kv h ls = (\<lambda>k. kv_of (lru_items (ls ! shard_of h (length ls) k)) k)"

lemma sharded_kv_lists: "sharded_kv h s = lists_kv h (sharded_abs s)"
  by (simp add: sharded_kv_def lists_kv_def shard_of_def shard_index_for_def)

lemma load_ops_room:
  assumes "fits h rs ls"
  shows "lists_kv h (fst (run_spec (shards_spec h deadline) (load_ops clock elapsed j rs) ls)) =
    fst (run_spec (kv_step deadline) (load_ops clock elapsed j rs) (lists_kv h ls))"
  using assms
proof (induction rs arbitrary: j ls)
  case (Cons r rs)
  show ?case
  proof (cases "record_op (clock j) elapsed r")
    case None
    with Cons.IH [OF fits_skip [OF Cons.prems]] show ?thesis by simp
  next
    case (Some x)
    obtain a e l where l: "a = shard_of h (length ls) (rec_key r)" "a < length ls" "restored (clock j) elapsed r = Some e"
      "entry_key e = rec_key r" "fst (shards_spec h deadline x ls) = ls[a := l]" "lru_items l = e # lru_items (ls ! a)"
      "fits h rs (ls[a := l])"
      using fits_step [OF Cons.prems Some] .
    from kv_slot_set [OF Some] have x: "fst x = clock j" "kv_key (snd x) = Some (rec_key r)"
      "\<And>y. fst (kv_slot deadline (clock j) (snd x) y) = Some e" using l(3) by auto
    have "lists_kv h (ls[a := l]) = (lists_kv h ls)(rec_key r \<mapsto> e)"
      using l(1,2,4,6) by (auto simp: lists_kv_def fun_eq_iff nth_list_update)
    moreover have "fst (kv_step deadline x (lists_kv h ls)) = (lists_kv h ls)(rec_key r \<mapsto> e)"
      using x by (auto simp: kv_step_def split: prod.splits) (metis fst_conv)
    ultimately show ?thesis using Cons.IH [OF l(7)] Some l(5) by (simp add: case_prod_beta fun_upd_def)
  qed
qed simp

text \<open>The records of one shard, picked out of the whole snapshot by their keys.\<close>

lemma filter_concat_labelled:
  assumes "\<And>j x. j < length xss \<Longrightarrow> x \<in> set (xss ! j) \<Longrightarrow> g x = j" and "i < length xss"
  shows "filter (\<lambda>x. g x = i) (concat xss) = xss ! i"
  using assms
proof (induction xss rule: rev_induct)
  case (snoc xs xss)
  have last: "filter (\<lambda>x. g x = i) xs = (if i = length xss then xs else [])"
    using snoc.prems(1) [of "length xss"] by (auto simp: filter_id_conv filter_empty_conv)
  show ?case
  proof (cases "i = length xss")
    case True
    have "g x \<noteq> i" if "x \<in> set (concat xss)" for x
    proof -
      from that obtain j where "j < length xss" "x \<in> set (xss ! j)" by (auto simp: in_set_conv_nth [of _ xss])
      with snoc.prems(1) [of j x] True show ?thesis by (simp add: nth_append)
    qed
    then have "filter (\<lambda>x. g x = i) (concat xss) = []" by (simp add: filter_empty_conv)
    with True last show ?thesis by simp
  next
    case False
    with snoc.prems have "filter (\<lambda>x. g x = i) (concat xss) = xss ! i"
      by (intro snoc.IH) (auto simp: nth_append dest: less_SucI)
    with False snoc.prems(2) last show ?thesis by (simp add: nth_append)
  qed
qed simp

definition shard_part :: "(nat \<Rightarrow> time_ns) \<Rightarrow> sharded_cache \<Rightarrow> nat \<Rightarrow> string list" where
  "shard_part clock s i =
     map entry_key (filter (live_at (clock i)) (rl_range (c_entries (sy_cache (shards s ! i)))))"

lemma export_part_keys:
  assumes "sharded_inv h s" and "sharded_export clock s = Some (s, es)" and "i < length (shards s)"
  shows "filter (\<lambda>k. shard_of h (length (shards s)) k = i) (map snap_key es) = shard_part clock s i"
proof -
  have "map snap_key es = concat (map (shard_part clock s) [0..<length (shards s)])"
  proof -
    have "map snap_key es = concat (map (\<lambda>(i, sh). map snap_key (cache_export (clock i) (sy_cache sh)))
        (zip [0..<length (shards s)] (shards s)))"
      using assms(2) sharded_reads(4) [OF assms(1), of clock] by (auto simp: map_concat comp_def case_prod_unfold)
    also have "\<dots> = concat (map (shard_part clock s) [0..<length (shards s)])"
      by (rule arg_cong [where f = concat], rule nth_equalityI)
        (simp_all add: shard_part_def cache_export_refines export_keys)
    finally show ?thesis .
  qed
  then show ?thesis
    using assms(1,3) filter_concat_labelled [of "map (shard_part clock s) [0..<length (shards s)]"
        "shard_of h (length (shards s))" i]
    by (auto simp: shard_part_def sharded_inv_def shard_keys_def shard_of_def shard_index_for_def)
qed

lemma revived_record_op:
  assumes "saveable e" and "\<And>t. snap_remaining_ttl e = Some t \<Longrightarrow> 0 \<le> t"
    and "revived now (elapsed_ms wall w) e \<noteq> None"
  shows "record_op now' (elapsed_ms wall w) (to_record e) \<noteq> None"
proof
  assume "record_op now' (elapsed_ms wall w) (to_record e) = None"
  then have "record_op now (elapsed_ms wall w) (to_record e) = None"
    by (auto simp: record_op_def split: if_splits)
  then have "restored now (elapsed_ms wall w) (to_record e) = None" by (simp add: restored_def)
  with restored_revived [OF assms(1) elapsed_bounds assms(2)] assms(3) show False by metis
qed

lemma length_shard_part: "length (shard_part clock s i) \<le> length (rl_range (c_entries (sy_cache (shards s ! i))))"
  by (simp add: shard_part_def)

lemma part_fits:
  assumes "sharded_inv h s" and "sharded_export clock s = Some (s, es)" and "j < length (shards s)"
    and "shard_capacities fresh = shard_capacities s"
  shows "within_cap (lru_cap (sharded_abs fresh ! j))
    (length (filter (\<lambda>r. shard_of h (length (shards s)) (rec_key r) = j) (rev (map to_record es))))"
proof -
  have "length (filter (\<lambda>r. shard_of h (length (shards s)) (rec_key r) = j) (rev (map to_record es))) =
      length (shard_part clock s j)"
    unfolding export_part_keys [OF assms(1-3), symmetric]
    by (simp add: rev_filter [symmetric] filter_map comp_def to_record_def)
  moreover have "lru_cap (sharded_abs fresh ! j) = c_capacity (sy_cache (shards s ! j))"
    using assms(3,4) by (metis length_map nth_map shard_capacities_abs shard_capacities_def)
  moreover have "within_cap (c_capacity (sy_cache (shards s ! j)))
      (length (rl_range (c_entries (sy_cache (shards s ! j)))))"
    using cache_inv_lru_ok [OF sharded_inv_shard(2) [OF assms(1,3)]] by (simp add: lru_ok_def)
  ultimately show ?thesis
    using length_shard_part [of clock s j] by (auto elim: within_cap_mono)
qed

definition just_built :: "sharded_cache \<Rightarrow> bool" where
  "just_built s \<longleftrightarrow> (\<exists>n cap. s = sharded_bounded n cap \<or> s = sharded_unbounded n)"

lemma just_built_facts:
  assumes "just_built s"
  shows "sharded_inv h s" and "i < length (shards s) \<Longrightarrow> shard_list_keys (sharded_abs s) i = []"
  using assms
  by (auto simp: just_built_def shard_list_keys_def sharded_abs_def)
    (auto simp: sharded_bounded_def sharded_unbounded_def Let_def)

lemma just_built_empty:
  assumes "just_built s"
  shows "lists_kv h (sharded_abs s) = Map.empty"
proof -
  have "shards s \<noteq> []" using just_built_facts(1) [OF assms] by (simp add: sharded_inv_def)
  then have "shard_list_keys (sharded_abs s) (shard_of h (length (shards s)) k) = []" for k
    by (intro just_built_facts(2) [OF assms]) (simp add: shard_of_def)
  then show ?thesis by (simp add: lists_kv_def shard_list_keys_def sharded_abs_def fun_eq_iff)
qed

lemma fresh_fits:
  assumes "sharded_inv h s" and "sharded_export clock s = Some (s, es)"
    and "just_built fresh" and "shard_capacities fresh = shard_capacities s"
  shows "fits h (rev (map to_record es)) (sharded_abs fresh)"
    and "length (sharded_abs fresh) = length (shards s)"
proof -
  show len: "length (sharded_abs fresh) = length (shards s)"
    using assms(4) by (metis length_map shard_capacities_def sharded_abs_def)
  have "distinct (map rec_key (rev (map to_record es)))"
    using sharded_export_distinct [OF assms(1), of clock] assms(2)
    by (simp add: rev_map [symmetric] comp_def to_record_def)
  moreover have "shard_list_keys (sharded_abs fresh) j = []" if "j < length (shards s)" for j
    using that len just_built_facts(2) [OF assms(3)] by (simp add: sharded_abs_def)
  moreover have "sharded_abs fresh \<noteq> []" using len assms(1) unfolding sharded_inv_def by (metis length_0_conv)
  ultimately show "fits h (rev (map to_record es)) (sharded_abs fresh)"
    using part_fits [OF assms(1,2) _ assms(4)] unfolding fits_def len by simp
qed

lemma fresh_load_keys:
  assumes "sharded_inv h s" and "sharded_export clock s = Some (s, es)" and "i < length (shards s)"
    and "just_built fresh" and "shard_capacities fresh = shard_capacities s"
    and "\<And>r now. r \<in> set (rev (map to_record es)) \<Longrightarrow> record_op now el r \<noteq> None"
  shows "shard_list_keys (fst (run_spec (shards_spec h deadline) (load_ops clock' el j (rev (map to_record es)))
    (sharded_abs fresh))) i = shard_part clock s i"
proof -
  note fresh = fresh_fits [OF assms(1,2,4,5)]
  have "shard_list_keys (sharded_abs fresh) i = []"
    using assms(3) fresh(2) just_built_facts(2) [OF assms(4)] by (simp add: sharded_abs_def)
  then show ?thesis
    using load_ops_recency [OF fresh assms(6,3), of clock' j] export_part_keys [OF assms(1-3)]
    by (simp add: rev_map [symmetric] rev_filter comp_def to_record_def)
qed

text \<open>
  The same for a fresh cache built like the saved one, bounded or not, with the same hash: what fitted
  before fits again, so nothing is evicted while the records are applied.
\<close>

lemma saved_then_loaded_alike:
  assumes "sharded_inv h s" and "save path env s d = Some (s1, d1, res)" and "sr_ok res"
    and "sharded_export (se_clock env) s = Some (s, es)"
    and "list_all saveable es" and "length es < 2 ^ 63" and "int64_range (se_wall env)"
    and "just_built fresh" and "shard_capacities fresh = shard_capacities s"
  shows "\<exists>t res'. load h path wall clock d1 fresh = Some (t, res') \<and> lr_ok res' \<and>
    lr_loaded res' + lr_expired res' = length es \<and>
    (\<forall>j < length es. sharded_kv h t (snap_key (rev es ! j)) =
       revived (clock j) (elapsed_ms wall (se_wall env)) (rev es ! j)) \<and>
    (\<forall>k. k \<notin> snap_key ` set es \<longrightarrow> sharded_kv h t k = None)"
proof (rule written_loaded_kv [OF saved_written [OF assms(2,4)] assms(3,5-7)])
  show "distinct (map snap_key es)" using sharded_export_distinct [OF assms(1), of "se_clock env"] assms(4) by auto
  show "0 \<le> t" if "e \<in> set es" "snap_remaining_ttl e = Some t" for e t by (rule sharded_export_ttl [OF assms(1,4) that])
  show inv: "sharded_inv h fresh" by (rule just_built_facts(1) [OF assms(8)])
  show "sharded_kv h t = fst (run_spec (kv_step deadline) ops Map.empty)"
    if ops: "ops = load_ops clock (elapsed_ms wall (se_wall env)) 0 (rev (map to_record es))"
      and run: "run_defined (sharded_step h) ops fresh = Some (t, out)" for t out ops
  proof -
    from sharded_lru.run_refines [OF inv, of ops] run
    have "sharded_abs t = fst (run_spec (shards_spec h deadline) ops (sharded_abs fresh))" by auto
    moreover have "lists_kv h (sharded_abs fresh) = Map.empty" by (rule just_built_empty [OF assms(8)])
    ultimately show ?thesis
      using load_ops_room [OF fresh_fits(1) [OF assms(1,4,8,9)], of clock "elapsed_ms wall (se_wall env)" 0]
      by (simp add: sharded_kv_lists ops)
  qed
qed

text \<open>
  C18. A restart restores the recency order within each shard: load a snapshot into a fresh cache
  built like the saved one (the same capacity split and hash), when no entry ran out on disk. In
  every shard the keys are back in the order of recency they had, expired ones left out.
\<close>

theorem restart_keeps_recency:
  assumes "sharded_inv h s" and "save path env s d = Some (s1, d1, res)" and "sr_ok res"
    and "sharded_export (se_clock env) s = Some (s, es)"
    and "list_all saveable es" and "length es < 2 ^ 63" and "int64_range (se_wall env)"
    and "list_all (\<lambda>e. revived 0 (elapsed_ms wall (se_wall env)) e \<noteq> None) es"
    and "just_built fresh" and "shard_capacities fresh = shard_capacities s"
  shows "\<exists>t res'. load h path wall clock d1 fresh = Some (t, res') \<and>
    map (\<lambda>sh. keys_by_recency (sy_cache sh)) (shards t) =
      map (\<lambda>(i, sh). map entry_key (filter (live_at (se_clock env i)) (rl_range (c_entries (sy_cache sh)))))
        (zip [0..<length (shards s)] (shards s))"
proof -
  let ?m = "length (shards s)" and ?el = "elapsed_ms wall (se_wall env)" and ?rs = "rev (map to_record es)"
  let ?ops = "load_ops clock ?el 0 ?rs"
  note inv = just_built_facts(1) [OF assms(9), of h]
  obtain t out where t: "run_defined (sharded_step h) ?ops fresh = Some (t, out)"
    "\<exists>res'. load h path wall clock d1 fresh = Some (t, res')"
    using load_written [OF saved_written [OF assms(2,4)] assms(3,5-7) inv] by blast
  from sharded_lru.run_refines [OF inv, of ?ops] t(1)
  have spec: "sharded_abs t = fst (run_spec (shards_spec h deadline) ?ops (sharded_abs fresh))" by auto
  have lent: "length (shards t) = ?m"
    using run_capacities [OF inv t(1)] assms(10) by (metis length_map shard_capacities_def)
  have "record_op now ?el r \<noteq> None" if "r \<in> set ?rs" for r now
  proof -
    from that obtain e where e: "e \<in> set es" "r = to_record e" by auto
    with assms(5,8) have "saveable e" "revived 0 ?el e \<noteq> None" by (auto simp: list_all_iff)
    from revived_record_op [OF this(1) sharded_export_ttl [OF assms(1,4) e(1)] this(2)] e(2)
    show ?thesis by simp
  qed
  then have "shard_list_keys (sharded_abs t) i = shard_part (se_clock env) s i" if "i < ?m" for i
    unfolding spec using that by (intro fresh_load_keys [OF assms(1,4) _ assms(9,10)]) auto
  then have "map (\<lambda>sh. keys_by_recency (sy_cache sh)) (shards t) = map (shard_part (se_clock env) s) [0..<?m]"
    using lent by (intro nth_equalityI) (simp_all add: keys_by_recency_def shard_list_keys_def sharded_abs_def)
  also have "\<dots> = map (\<lambda>(i, sh). map entry_key (filter (live_at (se_clock env i)) (rl_range (c_entries (sy_cache sh)))))
        (zip [0..<?m] (shards s))"
    by (rule nth_equalityI) (simp_all add: shard_part_def)
  finally show ?thesis using t(2) by auto
qed

theorem restart_keeps_recency_witness:
  "\<exists>d res t res'. save ''dump'' demo_env demo_cache demo_disk = Some (demo_cache, d, res) \<and>
     load (\<lambda>_. 0) ''dump'' 5000 (\<lambda>_. 10) d (sharded_unbounded 1) = Some (t, res') \<and>
     map (\<lambda>sh. keys_by_recency (sy_cache sh)) (shards t) = [[''k'']]"
proof -
  obtain d res where d: "save ''dump'' demo_env demo_cache demo_disk = Some (demo_cache, d, res)" "sr_ok res"
    using demo_save by blast
  have facts: "list_all saveable [\<lparr>snap_key = ''k'', snap_value = ''v'', snap_remaining_ttl = None\<rparr>]"
    "int64_range (se_wall demo_env)" "just_built (sharded_unbounded 1)"
    "shard_capacities (sharded_unbounded 1) = shard_capacities demo_cache"
    by (auto simp: saveable_def entry_ttl_def kNoExpiry_def demo_env_def int64_range_def just_built_def
        shard_capacities_def demo_cache_def sharded_unbounded_def sane_shard_count_def)
  from restart_keeps_recency [OF demo_cache_inv d demo_export facts(1) _ facts(2) _ facts(3,4), of 5000 "\<lambda>_. 10"] d(1)
  show ?thesis by (simp add: revived_def) (auto simp: demo_cache_def rl_range_def live_at_def)
qed

end
