(* ===== verification/Command_Handler.thy ===== *)
theory Command_Handler
  imports Protocol_Properties Persistence_Properties
begin

text \<open>
  The bridge between network and cache (\<open>src/net/command_handler.cpp\<close>): one parsed command is
  applied to the sharded cache (and, for \<open>SAVE\<close> and \<open>LOAD\<close>, to the disk) and the reply is
  formatted. Without a snapshot path persistence is off (the null pointer).
\<close>

record store_state =
  st_cache :: sharded_cache
  st_disk :: disk

text \<open>What a command reads from outside: the clocks and how a save fares.\<close>

record exec_env =
  ee_now :: time_ns
  ee_save :: save_env
  ee_wall :: int
  ee_clock :: "nat \<Rightarrow> time_ns"

definition ttl_reply :: "ttl_info \<Rightarrow> string" where
  "ttl_reply info =
     (case ttl_info_state info of
        Missing \<Rightarrow> reply_nil
      | Persistent \<Rightarrow> reply_no_expiry
      | Expiring \<Rightarrow> reply_integer ((ttl_remaining info + 999) div 1000))"

definition execute :: "hash_fn \<Rightarrow> string option \<Rightarrow> exec_env \<Rightarrow> command \<Rightarrow> store_state \<Rightarrow>
    (store_state \<times> string) defined" where
  "execute h persistence env cmd s =
     (let cache = st_cache s; done = (\<lambda>(c, reply). (s\<lparr>st_cache := c\<rparr>, reply))
      in case cmd_type cmd of
           CSet \<Rightarrow>
             (case cmd_ttl cmd of
                Some ttl \<Rightarrow> map_option (\<lambda>(c, _). done (c, reply_ok))
                  (sharded_set_ttl h (ee_now env) (cmd_key cmd) (cmd_value cmd) (wrap64 (ttl * 1000)) cache)
              | None \<Rightarrow> map_option (\<lambda>(c, _). done (c, reply_ok)) (sharded_set h (cmd_key cmd) (cmd_value cmd) cache))
         | CGet \<Rightarrow> map_option (\<lambda>(c, r). done (c, case r of Some v \<Rightarrow> reply_value v | None \<Rightarrow> reply_nil))
             (sharded_get h (ee_now env) (cmd_key cmd) cache)
         | CDelete \<Rightarrow> map_option (\<lambda>(c, b). done (c, reply_integer (if b then 1 else 0)))
             (sharded_erase h (ee_now env) (cmd_key cmd) cache)
         | CExists \<Rightarrow> map_option (\<lambda>(c, b). done (c, reply_integer (if b then 1 else 0)))
             (sharded_contains h (ee_now env) (cmd_key cmd) cache)
         | CTtl \<Rightarrow> map_option (\<lambda>(c, info). done (c, ttl_reply info)) (sharded_ttl h (ee_now env) (cmd_key cmd) cache)
         | CPing \<Rightarrow> Some (s, reply_pong)
         | CSave \<Rightarrow>
             (case persistence of
                None \<Rightarrow> Some (s, reply_error ''persistence is not enabled on this server'')
              | Some path \<Rightarrow> map_option (\<lambda>(c, d, saved). (s\<lparr>st_cache := c, st_disk := d\<rparr>,
                    if sr_ok saved then reply_integer (int (sr_entries saved))
                    else reply_error (''save failed: '' @ sr_error saved)))
                  (save path (ee_save env) cache (st_disk s)))
         | CLoad \<Rightarrow>
             (case persistence of
                None \<Rightarrow> Some (s, reply_error ''persistence is not enabled on this server'')
              | Some path \<Rightarrow> map_option (\<lambda>(c, loaded). done (c,
                    if lr_ok loaded then reply_integer (int (lr_loaded loaded))
                    else reply_error (''load failed: '' @ lr_error loaded)))
                  (load h path (ee_wall env) (ee_clock env) (st_disk s) cache))
         | CQuit \<Rightarrow> Some (s, reply_bye))"

section \<open>Commands on one key are calls of the cache\<close>

definition command_op :: "command \<Rightarrow> kv_op option" where
  "command_op cmd =
     (case cmd_type cmd of
        CSet \<Rightarrow> Some (case cmd_ttl cmd of
            Some ttl \<Rightarrow> KvSetTtl (cmd_key cmd) (cmd_value cmd) (wrap64 (ttl * 1000))
          | None \<Rightarrow> KvSet (cmd_key cmd) (cmd_value cmd))
      | CGet \<Rightarrow> Some (KvGet (cmd_key cmd))
      | CDelete \<Rightarrow> Some (KvErase (cmd_key cmd))
      | CExists \<Rightarrow> Some (KvContains (cmd_key cmd))
      | CTtl \<Rightarrow> Some (KvTtl (cmd_key cmd))
      | _ \<Rightarrow> None)"

fun render_result :: "cache_result \<Rightarrow> string" where
  "render_result RUnit = reply_ok"
| "render_result (RValue r) = (case r of Some v \<Rightarrow> reply_value v | None \<Rightarrow> reply_nil)"
| "render_result (RBool b) = reply_integer (if b then 1 else 0)"
| "render_result (RTtl info) = ttl_reply info"
| "render_result _ = []"

lemma execute_key_command:
  "command_op cmd = Some op \<Longrightarrow>
     execute h p env cmd s =
       map_option (\<lambda>(c, r). (s\<lparr>st_cache := c\<rparr>, render_result r)) (sharded_step h (ee_now env, op) (st_cache s))"
  by (auto simp: execute_def command_op_def option.map_comp comp_def case_prod_unfold Let_def
      split: command_type.splits option.splits)

definition store_inv :: "hash_fn \<Rightarrow> store_state \<Rightarrow> bool" where
  "store_inv h s \<longleftrightarrow> sharded_inv h (st_cache s)"

lemma save_defined:
  assumes "sharded_inv h s"
  shows "\<exists>d' res. save path env s d = Some (s, d', res)"
  by (cases "write_snapshot path env (snd (the (sharded_export (se_clock env) s))) d")
    (simp add: save_def sharded_reads(4) [OF assms])

lemma execute_defined:
  assumes "store_inv h s"
  shows "\<exists>s' reply. execute h p env cmd s = Some (s', reply) \<and> store_inv h s'"
proof (cases "command_op cmd")
  case (Some op)
  with sharded_step_refines [of h "st_cache s" "(ee_now env, op)"] assms show ?thesis
    by (auto simp: execute_key_command store_inv_def)
next
  case None
  show ?thesis
  proof (cases p)
    case None
    with \<open>command_op cmd = None\<close> assms show ?thesis
      by (auto simp: execute_def command_op_def Let_def split: command_type.splits)
  next
    case (Some path)
    obtain d' res where sv: "save path (ee_save env) (st_cache s) (st_disk s) = Some (st_cache s, d', res)"
      using save_defined assms unfolding store_inv_def by blast
    obtain c' res' where ld: "load h path (ee_wall env) (ee_clock env) (st_disk s) (st_cache s) = Some (c', res')"
      "sharded_inv h c'"
      using load_reaches [of h "st_cache s"] assms unfolding store_inv_def by blast
    from Some \<open>command_op cmd = None\<close> assms sv ld show ?thesis
      by (auto simp: execute_def command_op_def store_inv_def Let_def split: command_type.splits option.splits)
  qed
qed

text \<open>No command changes how the capacity is split.\<close>

lemma execute_capacities:
  assumes "store_inv h s" and "execute h p env cmd s = Some (s', reply)"
  shows "shard_capacities (st_cache s') = shard_capacities (st_cache s)"
proof (cases "command_op cmd")
  case (Some op)
  with assms(2) obtain c r where "sharded_step h (ee_now env, op) (st_cache s) = Some (c, r)" "st_cache s' = c"
    by (auto simp: execute_key_command)
  with sharded_step_capacities assms(1) show ?thesis unfolding store_inv_def by metis
next
  case None
  have inv: "sharded_inv h (st_cache s)" using assms(1) by (simp add: store_inv_def)
  show ?thesis
  proof (cases p)
    case None
    with \<open>command_op cmd = None\<close> assms(2) show ?thesis
      by (auto simp: execute_def command_op_def Let_def split: command_type.splits)
  next
    case (Some path)
    obtain d' res where "save path (ee_save env) (st_cache s) (st_disk s) = Some (st_cache s, d', res)"
      using save_defined [OF inv] by blast
    with Some \<open>command_op cmd = None\<close> assms(2) load_capacities [OF inv, of path "ee_wall env" "ee_clock env" "st_disk s"]
    show ?thesis by (auto simp: execute_def command_op_def Let_def split: command_type.splits option.splits)
  qed
qed

end
