(* ===== verification/Lru_Properties.thy ===== *)
theory Lru_Properties
  imports Lru_Cache "HOL-Library.Sublist"
begin

text \<open>
  What the cache engine guarantees: it implements the LRU specification without undefined
  behaviour, its two structures stay in step within the capacity, it orders entries by last
  use and evicts the least recently used one, and its time-to-live rules. The facts are proved
  on \<open>Lru_Spec\<close> and carried to the code by the interpretation \<open>cache_lru\<close>.
\<close>

section \<open>Order of last use\<close>

text \<open>
  The keys a call uses: \<open>set\<close> (when it stores) and a \<open>get\<close> that hits. \<open>contains\<close>,
  \<open>ttl\<close>, misses and erasures are not uses.
\<close>

fun op_uses :: "cache_op \<Rightarrow> cache_result \<Rightarrow> string list" where
  "op_uses (OpSet k v) r = [k]"
| "op_uses (OpSetTtl k v ttl) r = (if ttl \<le> 0 then [] else [k])"
| "op_uses (OpGet k) (RValue (Some v)) = [k]"
| "op_uses (OpGetInto k out) (RInto True v) = [k]"
| "op_uses _ _ = []"

fun run_uses :: "(time_ns \<times> cache_op) list \<Rightarrow> cache_result list \<Rightarrow> string list" where
  "run_uses (x # xs) (r # rs) = op_uses (snd x) r @ run_uses xs rs"
| "run_uses _ _ = []"

text \<open>All used keys, the most recently used first, each once.\<close>

definition last_use_order :: "string list \<Rightarrow> string list" where
  "last_use_order ks = fold (\<lambda>k acc. k # removeAll k acc) ks []"

lemma last_use_order_snoc: "last_use_order (ks @ [k]) = k # removeAll k (last_use_order ks)"
  by (simp add: last_use_order_def)

lemma distinct_last_use_order: "distinct (last_use_order ks)"
  by (induction ks rule: rev_induct) (simp_all add: last_use_order_def distinct_removeAll)

lemma set_last_use_order: "set (last_use_order ks) = set ks"
  by (induction ks rule: rev_induct) (auto simp: last_use_order_def)

lemma subseq_removeAll: "subseq xs ys \<Longrightarrow> subseq (removeAll k xs) (removeAll k ys)"
  by (simp add: removeAll_filter_not_eq subseq_filter)

lemma subseq_take_cap: "subseq (take_cap cap xs) xs"
  by (cases cap) (simp_all add: prefix_imp_subseq take_is_prefix)

lemma keys_lru_put:
  "map entry_key (lru_items (lru_put e s)) =
     take_cap (lru_cap s) (entry_key e # removeAll (entry_key e) (map entry_key (lru_items s)))"
  by (simp add: lru_put_def Let_def take_cap_map [symmetric] keys_lru_drop)

lemma lru_step_recency:
  assumes "lru_step dl x s = (s', r)"
    and "subseq (map entry_key (lru_items s)) (last_use_order us)"
  shows "subseq (map entry_key (lru_items s')) (last_use_order (us @ op_uses (snd x) r))"
proof -
  let ?ks = "map entry_key (lru_items s)" and ?us = "last_use_order us"
  have drop: "subseq (removeAll k ?ks) ?us" for k
    using subseq_order.trans [OF subseq_filter_left assms(2)]
    by (simp add: removeAll_filter_not_eq)
  have use: "subseq (k # removeAll k ?ks) (k # removeAll k ?us)" for k
    using subseq_removeAll [OF assms(2), of k] by simp
  have put: "subseq (map entry_key (lru_items
      (lru_put \<lparr>entry_key = k, entry_value = v, entry_expires_at = t\<rparr> s))) (last_use_order (us @ [k]))"
    for k v t
    using subseq_order.trans [OF subseq_take_cap use [of k]]
    by (simp add: keys_lru_put last_use_order_snoc)
  obtain now op where x: "x = (now, op)" by fastforce
  have get: "subseq (map entry_key (lru_items (fst (lru_get now k s))))
      (last_use_order (us @ (if snd (lru_get now k s) = None then [] else [k])))" for k
    using use drop assms(2)
    by (auto simp: lru_get_def lru_reclaim_def keys_lru_drop last_use_order_snoc
        dest: lru_find_key split: option.splits)
  show ?thesis
  proof (cases op)
    case (OpGet k)
    with x assms(1) get [of k] show ?thesis
      by (cases "lru_get now k s"; cases "snd (lru_get now k s)") auto
  next
    case (OpGetInto k out)
    with x assms(1) get [of k] show ?thesis
      by (cases "lru_get now k s"; cases "snd (lru_get now k s)") auto
  qed (use x assms put drop in \<open>auto simp: lru_erase_def lru_ttl_def lru_reclaim_def keys_lru_drop
        split: if_splits option.splits\<close>)
qed

lemma lru_run_recency:
  assumes "run_spec (lru_step dl) xs s = (s', rs)"
    and "subseq (map entry_key (lru_items s)) (last_use_order us)"
  shows "subseq (map entry_key (lru_items s')) (last_use_order (us @ run_uses xs rs))"
  using assms
proof (induction xs arbitrary: s us rs)
  case Nil
  then show ?case by simp
next
  case (Cons x xs)
  obtain b r where b: "lru_step dl x s = (b, r)" by fastforce
  with Cons.prems(1) obtain rs' where r: "run_spec (lru_step dl) xs b = (s', rs')" "rs = r # rs'"
    by (auto split: prod.splits)
  from Cons.IH [OF r(1) lru_step_recency [OF b Cons.prems(2)]] r(2) show ?case by simp
qed

subsection \<open>Runs without expiry or erasure\<close>

fun plain_op :: "cache_op \<Rightarrow> bool" where
  "plain_op (OpSetTtl k v ttl) = False"
| "plain_op (OpErase k) = False"
| "plain_op OpClear = False"
| "plain_op _ = True"

definition all_persistent :: "entry list \<Rightarrow> bool" where
  "all_persistent = list_all (\<lambda>e. entry_expires_at e = None)"

lemma all_persistent_find: "all_persistent xs \<Longrightarrow> lru_find k xs = Some e \<Longrightarrow> entry_expires_at e = None"
  by (auto simp: all_persistent_def list_all_iff dest: lru_find_key)

lemma all_persistent_subset: "all_persistent xs \<Longrightarrow> set ys \<subseteq> set xs \<Longrightarrow> all_persistent ys"
  by (auto simp: all_persistent_def list_all_iff)

lemma all_persistent_front:
  assumes "all_persistent xs" and "entry_expires_at e = None"
  shows "all_persistent (take_cap cap (e # lru_drop k xs))"
proof -
  have "all_persistent (e # xs)" using assms by (simp add: all_persistent_def)
  then show ?thesis
    by (rule all_persistent_subset) (use set_take_cap [of cap "e # lru_drop k xs"] in \<open>auto simp: set_lru_drop\<close>)
qed

text \<open>The stack property of LRU: forgetting what does not fit loses nothing later.\<close>

lemma take_removeAll_take:
  assumes "distinct xs"
  shows "take n (k # removeAll k (take n xs)) = take n (k # removeAll k xs)"
proof (cases n)
  case 0
  then show ?thesis by simp
next
  case (Suc m)
  have "take m (removeAll k (take (Suc m) xs)) = take m (removeAll k xs)"
    using assms
  proof (induction xs arbitrary: m)
    case Nil
    then show ?case by simp
  next
    case (Cons x xs)
    show ?case
    proof (cases "x = k")
      case True
      with Cons.prems have "removeAll k xs = xs" by simp
      moreover from this True Cons.prems have "removeAll k (take m xs) = take m xs"
        by (metis in_set_takeD removeAll_id distinct.simps(2))
      ultimately show ?thesis using True by simp
    next
      case False
      with Cons show ?thesis by (cases m) auto
    qed
  qed
  with Suc show ?thesis by simp
qed

lemma take_cap_front:
  assumes "distinct xs"
  shows "take_cap cap (k # removeAll k (take_cap cap xs)) = take_cap cap (k # removeAll k xs)"
  using take_removeAll_take [OF assms] by (cases cap) auto

lemma take_cap_hit:
  assumes "distinct xs" and "k \<in> set (take_cap cap xs)"
  shows "k # removeAll k (take_cap cap xs) = take_cap cap (k # removeAll k xs)"
proof -
  have "length (k # removeAll k ys) = length ys" if "distinct ys" "k \<in> set ys" for ys
    using that by (induction ys) auto
  from this [of "take_cap cap xs"] assms
  have "within_cap cap (length (k # removeAll k (take_cap cap xs)))"
    using within_take_cap [of cap xs] by simp
  with take_cap_front [OF assms(1), of cap k] show ?thesis by simp
qed

lemma lru_step_exact:
  assumes "lru_step dl x s = (s', r)" and "plain_op (snd x)"
    and "all_persistent (lru_items s)"
    and "map entry_key (lru_items s) = take_cap (lru_cap s) (last_use_order us)"
  shows "lru_cap s' = lru_cap s \<and> all_persistent (lru_items s') \<and>
    map entry_key (lru_items s') = take_cap (lru_cap s) (last_use_order (us @ op_uses (snd x) r))"
proof -
  let ?us = "last_use_order us"
  have put: "map entry_key (lru_items (lru_put \<lparr>entry_key = k, entry_value = v, entry_expires_at = t\<rparr> s))
      = take_cap (lru_cap s) (last_use_order (us @ [k]))" for k v t
    using take_cap_front [OF distinct_last_use_order [of us], of "lru_cap s" k]
    by (simp add: keys_lru_put assms(4) last_use_order_snoc)
  have hit: "map entry_key (e # lru_drop k (lru_items s)) = take_cap (lru_cap s) (last_use_order (us @ [k]))"
    if "lru_find k (lru_items s) = Some e" for k e
  proof -
    from that have "k \<in> set (map entry_key (lru_items s))" "entry_key e = k"
      by (auto dest: lru_find_key)
    then have "k \<in> set (take_cap (lru_cap s) ?us)" by (simp add: assms(4))
    from take_cap_hit [OF distinct_last_use_order this] \<open>entry_key e = k\<close> show ?thesis
      by (simp add: keys_lru_drop assms(4) last_use_order_snoc)
  qed
  obtain now op where x: "x = (now, op)" by fastforce
  have front: "all_persistent (e # lru_drop k (lru_items s))" if "lru_find k (lru_items s) = Some e" for k e
    using all_persistent_front [OF assms(3), of e None k] all_persistent_find [OF assms(3) that] by simp
  have live: "live_at now e" if "lru_find k (lru_items s) = Some e" for k e
    using all_persistent_find [OF assms(3) that] by (simp add: live_at_def)
  have pers: "all_persistent (lru_items (lru_put \<lparr>entry_key = k, entry_value = v, entry_expires_at = None\<rparr> s))"
    for k v
    using all_persistent_front [OF assms(3)] by (simp add: lru_put_def Let_def)
  have cap: "lru_cap (lru_put e s) = lru_cap s" for e by (simp add: lru_put_def Let_def)
  show ?thesis
    using assms x put hit front live pers cap
    by (cases op) (auto simp: lru_get_def lru_ttl_def split: option.splits dest: all_persistent_find)
qed

lemma lru_run_exact:
  assumes "run_spec (lru_step dl) xs s = (s', rs)" and "list_all (\<lambda>x. plain_op (snd x)) xs"
    and "all_persistent (lru_items s)"
    and "map entry_key (lru_items s) = take_cap (lru_cap s) (last_use_order us)"
  shows "map entry_key (lru_items s') = take_cap (lru_cap s) (last_use_order (us @ run_uses xs rs))"
  using assms
proof (induction xs arbitrary: s us rs)
  case Nil
  then show ?case by simp
next
  case (Cons x xs)
  obtain b r where b: "lru_step dl x s = (b, r)" by fastforce
  with Cons.prems(1) obtain rs' where r: "run_spec (lru_step dl) xs b = (s', rs')" "rs = r # rs'"
    by (auto split: prod.splits)
  from Cons.prems(2) have p: "plain_op (snd x)" "list_all (\<lambda>x. plain_op (snd x)) xs" by simp_all
  note step = lru_step_exact [OF b p(1) Cons.prems(3,4)]
  from Cons.IH [OF r(1) p(2), of "us @ op_uses (snd x) r"] step r(2) show ?case by simp
qed

section \<open>Refinement\<close>

text \<open>
  C1. The cache implements the LRU specification: from either constructor every sequence of
  public calls, at any instants, runs without undefined behaviour (no dangling iterator is ever
  followed and no empty list is ever popped), and every answer and the final contents are those
  of the specification.
\<close>

theorem cache_implements_lru:
  "\<exists>c rs. run_defined cache_step xs (fresh_cache cap) = Some (c, rs) \<and>
     run_spec (lru_step deadline) xs
       \<lparr>lru_items = [], lru_cap = cap, lru_evictions = 0, lru_expired = 0\<rparr> = (cache_abs c, rs)"
  using cache_lru.run_refines [of "fresh_cache cap" xs] by auto

lemma run_reaches_inv:
  assumes "run_defined cache_step xs (fresh_cache cap) = Some (c, rs)"
  shows "cache_inv c" and "run_spec (lru_step deadline) xs
       \<lparr>lru_items = [], lru_cap = cap, lru_evictions = 0, lru_expired = 0\<rparr> = (cache_abs c, rs)"
    and "c_capacity c = cap"
proof -
  from cache_lru.run_refines [of "fresh_cache cap" xs] assms
  show inv: "cache_inv c" and run: "run_spec (lru_step deadline) xs
       \<lparr>lru_items = [], lru_cap = cap, lru_evictions = 0, lru_expired = 0\<rparr> = (cache_abs c, rs)" by auto
  have cap_step: "lru_cap (fst (lru_step dl x s)) = lru_cap s" for dl x s
    by (cases x; cases "snd x")
      (auto simp: lru_put_def Let_def lru_erase_def lru_get_def lru_ttl_def lru_reclaim_def
        split: option.splits)
  have "lru_cap (fst (run_spec (lru_step deadline) xs s)) = lru_cap s" for s
    by (induction xs arbitrary: s) (auto split: prod.splits intro: cap_step [THEN trans] dest: sym
        simp: cap_step prod_eq_iff)
  from this [of "\<lparr>lru_items = [], lru_cap = cap, lru_evictions = 0, lru_expired = 0\<rparr>"] run
  show "c_capacity c = cap" by simp
qed

text \<open>
  C2. After any sequence of calls the index and the recency list describe the same entries:
  every iterator in the index points at a live node holding that key, every node is indexed by
  its key, the two sizes agree and stay within the capacity.
\<close>

theorem index_and_list_agree:
  assumes "run_defined cache_step xs (fresh_cache cap) = Some (c, rs)"
  shows "(\<forall>k it. map_of (c_index c) k = Some it \<longrightarrow>
            (\<exists>e. rl_deref it (c_entries c) = Some e \<and> entry_key e = k)) \<and>
         (\<forall>(it, e) \<in> set (rl_nodes (c_entries c)). map_of (c_index c) (entry_key e) = Some it) \<and>
         cache_size c = rl_size (c_entries c) \<and> within_cap cap (cache_size c)"
proof -
  note inv = run_reaches_inv(1) [OF assms]
  note links = cache_invD(2) [OF inv]
  from linked_find [OF links] linked_node [OF links] linked_length [OF links]
    cache_invD(3) [OF inv] run_reaches_inv(3) [OF assms]
  show ?thesis by (auto simp: rl_deref_def cache_size_def rl_size_def)
qed

text \<open>A short history the witnesses run: capacity 2, the key \<open>b\<close> is evicted.\<close>

definition demo_calls :: "(time_ns \<times> cache_op) list" where
  "demo_calls = [(0, OpSet ''a'' ''1''), (1, OpSet ''b'' ''2''), (2, OpGet ''a''),
     (3, OpContains ''b''), (4, OpSet ''c'' ''3''), (5, OpGet ''b'')]"

lemma demo_run:
  obtains c rs where "run_defined cache_step demo_calls (fresh_cache (Some 2)) = Some (c, rs)"
    and "keys_by_recency c = [''c'', ''a'']" and "cache_size c = 2" and "c_evictions c = 1"
    and "rs = [RUnit, RUnit, RValue (Some ''1''), RBool True, RUnit, RValue None]"
proof -
  have "map_option (\<lambda>(c, rs). (keys_by_recency c, cache_size c, c_evictions c, rs))
     (run_defined cache_step demo_calls (fresh_cache (Some 2)))
   = Some ([''c'', ''a''], 2, 1, [RUnit, RUnit, RValue (Some ''1''), RBool True, RUnit, RValue None])"
    by code_simp
  with that show thesis by auto
qed

theorem index_and_list_agree_witness:
  "\<exists>c rs. run_defined cache_step demo_calls (fresh_cache (Some 2)) = Some (c, rs) \<and>
     cache_size c = rl_size (c_entries c) \<and> cache_size c = 2 \<and> within_cap (Some 2) (cache_size c)"
proof (rule demo_run)
  fix c rs
  assume "run_defined cache_step demo_calls (fresh_cache (Some 2)) = Some (c, rs)" "cache_size c = 2"
  with index_and_list_agree [of demo_calls "Some 2" c rs] show ?thesis by blast
qed

section \<open>Recency\<close>

text \<open>
  C3. At any point \<open>keys_by_recency\<close> lists the resident keys by last use, the most recent
  first: it is a subsequence of all keys ever used in order of their last use, where a use is a
  \<open>set\<close> that stores or a \<open>get\<close> that hits.
\<close>

theorem keys_ordered_by_last_use:
  assumes "run_defined cache_step xs (fresh_cache cap) = Some (c, rs)"
  shows "subseq (keys_by_recency c) (last_use_order (run_uses xs rs))"
  using lru_run_recency [OF run_reaches_inv(2) [OF assms], of "[]"]
  by (simp add: keys_by_recency_def)

theorem keys_ordered_by_last_use_witness:
  "\<exists>c rs. run_defined cache_step demo_calls (fresh_cache (Some 2)) = Some (c, rs) \<and>
     keys_by_recency c = [''c'', ''a''] \<and> subseq (keys_by_recency c) (last_use_order (run_uses demo_calls rs))"
proof (rule demo_run)
  fix c rs
  assume "run_defined cache_step demo_calls (fresh_cache (Some 2)) = Some (c, rs)"
    "keys_by_recency c = [''c'', ''a'']"
  with keys_ordered_by_last_use [of demo_calls "Some 2" c rs] show ?thesis by blast
qed

text \<open>
  C4. Exact LRU: in a run without time-to-live and without erasure, the cache holds exactly the
  \<open>cap\<close> most recently used keys, in order of last use.
\<close>

theorem holds_most_recently_used:
  assumes "run_defined cache_step xs (fresh_cache cap) = Some (c, rs)"
    and "list_all (\<lambda>x. plain_op (snd x)) xs"
  shows "keys_by_recency c = take_cap cap (last_use_order (run_uses xs rs))"
  using lru_run_exact [OF run_reaches_inv(2) [OF assms(1)] assms(2), of "[]"]
  by (cases cap) (simp_all add: keys_by_recency_def last_use_order_def all_persistent_def)

theorem holds_most_recently_used_witness:
  "\<exists>c rs. run_defined cache_step demo_calls (fresh_cache (Some 2)) = Some (c, rs) \<and>
     list_all (\<lambda>x. plain_op (snd x)) demo_calls \<and>
     keys_by_recency c = take_cap (Some 2) (last_use_order (run_uses demo_calls rs)) \<and>
     last_use_order (run_uses demo_calls rs) = [''c'', ''a'', ''b'']"
proof (rule demo_run)
  fix c rs
  assume run: "run_defined cache_step demo_calls (fresh_cache (Some 2)) = Some (c, rs)"
    and rs: "rs = [RUnit, RUnit, RValue (Some ''1''), RBool True, RUnit, RValue None]"
  have plain: "list_all (\<lambda>x. plain_op (snd x)) demo_calls" by (simp add: demo_calls_def)
  have "last_use_order (run_uses demo_calls rs) = [''c'', ''a'', ''b'']"
    unfolding rs demo_calls_def last_use_order_def by simp
  with run plain holds_most_recently_used [OF run plain] show ?thesis by blast
qed

text \<open>
  C5. Every branch of \<open>set\<close>: the key moves to the front; an update never evicts; an insert
  into a full cache evicts exactly the least recently used key, counting it; and with capacity 0
  the new entry itself is what goes.
\<close>

theorem set_evicts_least_recently_used:
  assumes "cache_inv c"
  shows "\<exists>d. cache_set k v c = Some d \<and> cache_inv d \<and>
    keys_by_recency d = take_cap (c_capacity c) (k # removeAll k (keys_by_recency c)) \<and>
    c_evictions d = c_evictions c +
      (if k \<in> set (keys_by_recency c) \<or> c_capacity c \<noteq> Some (cache_size c) then 0 else 1)"
proof -
  let ?e = "\<lparr>entry_key = k, entry_value = v, entry_expires_at = None\<rparr>"
  from store_refines [OF assms, of k v None] obtain d
    where d: "cache_set k v c = Some d" "cache_inv d" "cache_abs d = lru_put ?e (cache_abs c)"
    by (auto simp: cache_set_def)
  have ok: "lru_ok (cache_abs c)" by (rule cache_inv_lru_ok [OF assms])
  have keys: "keys_by_recency d = take_cap (c_capacity c) (k # removeAll k (keys_by_recency c))"
    using keys_lru_put [of ?e "cache_abs c"] unfolding d(3) [symmetric]
    by (simp add: keys_by_recency_def)
  have "c_evictions d = lru_evictions (lru_put ?e (cache_abs c))"
    unfolding d(3) [symmetric] by simp
  also have "\<dots> = c_evictions c +
      (if k \<in> set (keys_by_recency c) \<or> c_capacity c \<noteq> Some (cache_size c) then 0 else 1)"
  proof (cases "lru_find k (lru_items (cache_abs c))")
    case None
    then have "lru_drop k (lru_items (cache_abs c)) = lru_items (cache_abs c)" "k \<notin> set (keys_by_recency c)"
      by (simp_all add: lru_find_None lru_drop_absent keys_by_recency_def)
    with ok cache_size_refines [OF assms] show ?thesis
      by (cases "c_capacity c") (auto simp: lru_put_def Let_def lru_ok_def)
  next
    case (Some e)
    with lru_find_key [OF Some] have "k \<in> set (keys_by_recency c)" by (auto simp: keys_by_recency_def)
    moreover from length_lru_drop [OF _ Some] ok
    have "within_cap (c_capacity c) (length (?e # lru_drop k (lru_items (cache_abs c))))"
      by (simp add: lru_ok_def)
    ultimately show ?thesis by (simp add: lru_put_def Let_def)
  qed
  finally show ?thesis using d(1,2) keys by blast
qed

theorem set_evicts_least_recently_used_witness:
  "\<exists>c d rs. run_defined cache_step demo_calls (fresh_cache (Some 2)) = Some (c, rs) \<and> cache_inv c \<and>
     keys_by_recency c = [''c'', ''a''] \<and> cache_set ''d'' ''4'' c = Some d \<and>
     keys_by_recency d = [''d'', ''c''] \<and> c_evictions d = Suc (c_evictions c)"
proof (rule demo_run)
  fix c rs
  assume run: "run_defined cache_step demo_calls (fresh_cache (Some 2)) = Some (c, rs)"
    and keys: "keys_by_recency c = [''c'', ''a'']" "cache_size c = 2"
  from set_evicts_least_recently_used [OF run_reaches_inv(1) [OF run], of "''d''" "''4''"]
  show ?thesis
    using run run_reaches_inv(1,3) [OF run] keys by auto
qed

end
