(* ===== verification/Ttl_Properties.thy ===== *)
theory Ttl_Properties
  imports Lru_Properties
begin

text \<open>
  The time-to-live rules of the cache engine: when a key is visible, what lazy expiration may
  and may not change, and how long a value stays readable.
\<close>

section \<open>Deadlines\<close>

lemma deadline_exact:
  assumes "0 \<le> now" and "0 < ttl" and "now + ttl * ns_per_ms < 2 ^ 63"
  shows "deadline now ttl = now + ttl * ns_per_ms"
proof -
  have "0 < ttl * ns_per_ms" using assms(2) by (simp add: ns_per_ms_def)
  with assms have "int64_range (ttl * ns_per_ms)" "int64_range (now + ttl * ns_per_ms)"
    by (auto simp: int64_range_def)
  then show ?thesis by (simp add: deadline_def)
qed

lemma lru_put_find:
  assumes "lru_cap s \<noteq> Some 0"
  shows "lru_find (entry_key e) (lru_items (lru_put e s)) = Some e"
proof (cases "lru_cap s")
  case (Some n)
  with assms obtain m where "n = Suc m" by (cases n) auto
  with Some show ?thesis by (simp add: lru_put_def Let_def)
qed (simp add: lru_put_def Let_def)

lemma lru_get_value: "snd (lru_get now k s) = lru_visible now s k"
  by (simp add: lru_get_def lru_visible_def split: option.splits)

lemma cache_get_visible:
  assumes "cache_inv c"
  shows "\<exists>d. cache_get now k c = Some (d, lru_visible now (cache_abs c) k)"
  using cache_get_refines [OF assms, of now k] by (auto simp: lru_get_value)

text \<open>
  C6. The time-to-live contract. After \<open>set(k, v, ttl)\<close> the key is visible exactly if
  \<open>ttl > 0\<close>; with a positive time-to-live, \<open>get\<close> at any later or earlier instant returns the
  value exactly while the instant is before \<open>now + ttl\<close>, provided that sum fits the 64-bit
  clock and the cache can hold an entry.
\<close>

theorem set_ttl_visible_until_deadline:
  assumes "cache_inv c" and "c_capacity c \<noteq> Some 0"
    and "0 \<le> now" and "now + ttl * ns_per_ms < 2 ^ 63"
  shows "\<exists>d. cache_set_ttl now k v ttl c = Some d \<and>
    cache_contains now k d = Some (0 < ttl) \<and>
    (\<forall>t. \<exists>d'. cache_get t k d =
       Some (d', if 0 < ttl \<and> t < now + ttl * ns_per_ms then Some v else None))"
proof -
  from cache_set_ttl_refines [OF assms(1), of now k v ttl] obtain d where
    d: "cache_set_ttl now k v ttl c = Some d" "cache_inv d"
      "cache_abs d = fst (lru_step deadline (now, OpSetTtl k v ttl) (cache_abs c))" by blast
  have vis: "lru_visible t (cache_abs d) k
      = (if 0 < ttl \<and> t < now + ttl * ns_per_ms then Some v else None)" for t
  proof (cases "0 < ttl")
    case True
    let ?e = "\<lparr>entry_key = k, entry_value = v, entry_expires_at = Some (now + ttl * ns_per_ms)\<rparr>"
    from True d(3) deadline_exact [OF assms(3) True assms(4)]
    have "cache_abs d = lru_put ?e (cache_abs c)" by simp
    with lru_put_find [of "cache_abs c" ?e] assms(2) True show ?thesis
      by (simp add: lru_visible_def live_at_def)
  next
    case False
    with d(3) have "lru_items (cache_abs d) = lru_drop k (lru_items (cache_abs c)) \<or>
        lru_items (cache_abs d) = lru_items (cache_abs c) \<and> lru_find k (lru_items (cache_abs c)) = None"
      by (auto simp: lru_erase_def split: option.splits)
    with False show ?thesis by (auto simp: lru_visible_def lru_find_drop simp del: cache_abs_simps)
  qed
  have "0 < ttl \<Longrightarrow> now < now + ttl * ns_per_ms" by (simp add: ns_per_ms_def)
  with cache_contains_refines [OF d(2), of now k] vis [of now]
  have "cache_contains now k d = Some (0 < ttl)" by auto
  moreover have "\<exists>d'. cache_get t k d =
      Some (d', if 0 < ttl \<and> t < now + ttl * ns_per_ms then Some v else None)" for t
    using cache_get_visible [OF d(2), of t k] by (simp only: vis)
  ultimately show ?thesis using d(1) by blast
qed

theorem set_ttl_visible_until_deadline_witness:
  "\<exists>d. cache_set_ttl 1000 ''k'' ''v'' 5 (fresh_cache (Some 3)) = Some d \<and>
     cache_contains 1000 ''k'' d = Some True \<and>
     (\<exists>d'. cache_get 5000999 ''k'' d = Some (d', Some ''v'')) \<and>
     (\<exists>d'. cache_get 5001000 ''k'' d = Some (d', None))"
proof -
  have "cache_inv (fresh_cache (Some 3))" by simp
  moreover have "c_capacity (fresh_cache (Some 3)) \<noteq> Some 0"
    by (simp add: fresh_cache_def cache_bounded_def)
  ultimately have "cache_inv (fresh_cache (Some 3))" "c_capacity (fresh_cache (Some 3)) \<noteq> Some 0" .
  from set_ttl_visible_until_deadline [OF this, of 1000 5 "''k''" "''v''"]
  obtain d where d: "cache_set_ttl 1000 ''k'' ''v'' 5 (fresh_cache (Some 3)) = Some d"
    "cache_contains 1000 ''k'' d = Some True"
    "\<And>t. \<exists>d'. cache_get t ''k'' d = Some (d', if t < 5001000 then Some ''v'' else None)"
    by (auto simp: ns_per_ms_def)
  from d(3) [of 5000999] d(3) [of 5001000] d(1,2) show ?thesis by simp
qed

section \<open>Values stay until something removes them\<close>

fun writes_key :: "string \<Rightarrow> cache_op \<Rightarrow> bool" where
  "writes_key k (OpSet j v) = (j = k)"
| "writes_key k (OpSetTtl j v ttl) = (j = k)"
| "writes_key k (OpErase j) = (j = k)"
| "writes_key k OpClear = True"
| "writes_key k _ = False"

lemma lru_step_keeps:
  assumes "lru_cap s = None" and "lru_find k (lru_items s) = Some e"
    and "live_at now e" and "\<not> writes_key k op"
  shows "lru_cap (fst (lru_step dl (now, op) s)) = None \<and>
    lru_find k (lru_items (fst (lru_step dl (now, op) s))) = Some e"
proof -
  have live: "now < t" if "entry_expires_at e = Some t" for t
    using assms(3) that by (simp add: live_at_def)
  have key: "entry_key x = j" if "lru_find j (lru_items s) = Some x" for j x
    using lru_find_key [OF that] by simp
  show ?thesis
    using assms live key
    by (cases op)
      (auto simp: lru_put_def Let_def lru_erase_def lru_get_def lru_ttl_def lru_reclaim_def
        lru_find_drop split: option.splits)
qed

lemma lru_run_keeps:
  assumes "lru_cap s = None" and "lru_find k (lru_items s) = Some e"
    and "list_all (\<lambda>(now, op). live_at now e \<and> \<not> writes_key k op) xs"
  shows "lru_find k (lru_items (fst (run_spec (lru_step dl) xs s))) = Some e"
  using assms
proof (induction xs arbitrary: s)
  case (Cons x xs)
  obtain now op where x: "x = (now, op)" by fastforce
  obtain b r where b: "lru_step dl (now, op) s = (b, r)" by fastforce
  from lru_step_keeps [OF Cons.prems(1,2), of now op dl] Cons.prems(3) x b
  have "lru_cap b = None" "lru_find k (lru_items b) = Some e" by auto
  from Cons.IH [OF this] Cons.prems(3) x b show ?case by (auto split: prod.splits)
qed simp

text \<open>The two overloads of \<open>set\<close> as one call: without, or with a positive, time to live; and until when it counts.\<close>

fun set_call :: "string \<Rightarrow> string \<Rightarrow> duration_ms option \<Rightarrow> cache_op" where
  "set_call k v None = OpSet k v"
| "set_call k v (Some ttl) = OpSetTtl k v ttl"

definition expiry_of :: "time_ns \<Rightarrow> duration_ms option \<Rightarrow> time_ns option" where
  "expiry_of now ttl = map_option (\<lambda>x. now + x * ns_per_ms) ttl"

fun ttl_fits :: "time_ns \<Rightarrow> duration_ms option \<Rightarrow> bool" where
  "ttl_fits now None = True"
| "ttl_fits now (Some ttl) = (0 \<le> now \<and> 0 < ttl \<and> now + ttl * ns_per_ms < 2 ^ 63)"

lemma lru_step_set_call:
  "ttl_fits t0 ttl \<Longrightarrow> lru_step deadline (t0, set_call k v ttl) s =
     (lru_put \<lparr>entry_key = k, entry_value = v, entry_expires_at = expiry_of t0 ttl\<rparr> s, RUnit)"
  by (cases ttl) (simp_all add: expiry_of_def deadline_exact)

text \<open>
  C7. In an unbounded cache a stored value is remembered until its deadline. After \<open>set(k, v)\<close>, or
  \<open>set(k, v, ttl)\<close> with a positive time to live that fits the 64-bit clock, whatever calls follow, as
  long as none of them sets or erases that key or clears the cache, and every call comes before the
  deadline if there is one, \<open>get\<close> returns the value. Without a time to live there is no deadline and
  the value is never lost.
\<close>

theorem unbounded_cache_remembers:
  assumes "cache_inv c" and "c_capacity c = None" and "ttl_fits t0 ttl"
    and "list_all (\<lambda>(now, op). pred_option (\<lambda>d. now < d) (expiry_of t0 ttl) \<and> \<not> writes_key k op) xs"
    and "pred_option (\<lambda>d. now < d) (expiry_of t0 ttl)"
  shows "\<exists>d rs. run_defined cache_step ((t0, set_call k v ttl) # xs @ [(now, OpGet k)]) c = Some (d, rs) \<and>
    last rs = RValue (Some v)"
proof -
  let ?e = "\<lparr>entry_key = k, entry_value = v, entry_expires_at = expiry_of t0 ttl\<rparr>"
  let ?s = "lru_put ?e (cache_abs c)"
  have live: "live_at t ?e = pred_option (\<lambda>d. t < d) (expiry_of t0 ttl)" for t
    by (simp add: live_at_def split: option.split)
  obtain b rs where b: "run_spec (lru_step deadline) xs ?s = (b, rs)" by fastforce
  have "lru_find k (lru_items (fst (run_spec (lru_step deadline) xs ?s))) = Some ?e"
    using assms(2,4) lru_put_find [of "cache_abs c" ?e]
    by (intro lru_run_keeps) (auto simp: lru_put_def Let_def live list_all_iff)
  with b assms(5) live have get: "snd (lru_step deadline (now, OpGet k) b) = RValue (Some v)"
    by (simp add: lru_get_def)
  have "snd (run_spec (lru_step deadline) ((t0, set_call k v ttl) # xs @ [(now, OpGet k)]) (cache_abs c))
      = RUnit # rs @ [RValue (Some v)]"
    using lru_step_set_call [OF assms(3)] b get
    by (cases "lru_get now k b") (simp add: run_spec_append)
  with cache_lru.run_refines [OF assms(1), of "(t0, set_call k v ttl) # xs @ [(now, OpGet k)]"]
  show ?thesis by (metis last_snoc append_Cons snd_conv)
qed

theorem unbounded_cache_remembers_witness:
  "(\<exists>d rs. run_defined cache_step [(0, OpSetTtl ''k'' ''v'' 1), (10, OpSet ''x'' ''y''),
     (20, OpErase ''x''), (999999, OpGet ''k'')] (fresh_cache None) = Some (d, rs) \<and> last rs = RValue (Some ''v'')) \<and>
   (\<exists>d rs. run_defined cache_step [(0, OpSet ''k'' ''v''), (10, OpSetTtl ''x'' ''y'' 0), (2 ^ 62, OpGet ''k'')]
     (fresh_cache None) = Some (d, rs) \<and> last rs = RValue (Some ''v''))"
proof -
  have "c_capacity (fresh_cache None) = None" by (simp add: fresh_cache_def cache_unbounded_def)
  note keeps = unbounded_cache_remembers [OF cache_inv_fresh this]
  from keeps [of 0 "Some 1" "''k''" "[(10, OpSet ''x'' ''y''), (20, OpErase ''x'')]" 999999 "''v''"]
    keeps [of 0 None "''k''" "[(10, OpSetTtl ''x'' ''y'' 0)]" "2 ^ 62" "''v''"]
  show ?thesis by (simp add: ns_per_ms_def expiry_of_def del: run_defined.simps cache_step.simps)
qed

section \<open>Lazy expiration is unobservable\<close>

text \<open>The reference: a cache that removes every expired entry at the start of each call.\<close>

definition purge :: "time_ns \<Rightarrow> lru \<Rightarrow> lru" where
  "purge now s = s\<lparr>lru_items := filter (live_at now) (lru_items s)\<rparr>"

definition eager_step :: "time_ns \<times> cache_op \<Rightarrow> lru \<Rightarrow> lru \<times> cache_result" where
  "eager_step x s = lru_step deadline x (purge (fst x) s)"

fun expiry_blind :: "cache_op \<Rightarrow> bool" where
  "expiry_blind OpSize = False"
| "expiry_blind OpKeys = False"
| "expiry_blind _ = True"

definition same_live :: "time_ns \<Rightarrow> lru \<Rightarrow> lru \<Rightarrow> bool" where
  "same_live now s e \<longleftrightarrow> lru_cap s = None \<and> lru_cap e = None \<and>
     distinct (map entry_key (lru_items s)) \<and> distinct (map entry_key (lru_items e)) \<and>
     filter (live_at now) (lru_items s) = filter (live_at now) (lru_items e)"

lemma lru_find_filter:
  "distinct (map entry_key xs) \<Longrightarrow> lru_find k (filter P xs) =
     (case lru_find k xs of None \<Rightarrow> None | Some e \<Rightarrow> if P e then Some e else None)"
proof (induction xs)
  case (Cons x xs)
  show ?case
  proof (cases "entry_key x = k")
    case True
    with Cons.prems have "lru_find k xs = None" "lru_find k (filter P xs) = None"
      by (auto simp: lru_find_None)
    with True show ?thesis by simp
  next
    case False
    with Cons show ?thesis by simp
  qed
qed simp

lemma lru_drop_filter: "lru_drop k (filter P xs) = filter P (lru_drop k xs)"
  by (simp add: lru_drop_def conj_commute)

lemma live_at_mono: "live_at t e \<Longrightarrow> now \<le> t \<Longrightarrow> live_at now e"
  by (auto simp: live_at_def split: option.splits)

lemma filter_live_later:
  "now \<le> t \<Longrightarrow> filter (live_at now) xs = filter (live_at now) ys
    \<Longrightarrow> filter (live_at t) xs = filter (live_at t) ys"
proof -
  assume "now \<le> t" "filter (live_at now) xs = filter (live_at now) ys"
  moreover have "filter (live_at t) zs = filter (live_at t) (filter (live_at now) zs)" for zs
    using live_at_mono [of t _ now] \<open>now \<le> t\<close> by (auto intro: filter_cong)
  ultimately show ?thesis by metis
qed

text \<open>One call at an instant \<open>t\<close> on a state and on its purged twin \<open>p\<close>.\<close>

definition purged :: "time_ns \<Rightarrow> lru \<Rightarrow> lru \<Rightarrow> bool" where
  "purged t s p \<longleftrightarrow> lru_cap s = None \<and> lru_cap p = None \<and>
     distinct (map entry_key (lru_items s)) \<and> lru_items p = filter (live_at t) (lru_items s)"

lemma purged_find:
  assumes "purged t s p"
  obtains (absent) "lru_find k (lru_items s) = None" "lru_find k (lru_items p) = None"
      "lru_drop k (lru_items p) = lru_items p"
  | (dead) e where "lru_find k (lru_items s) = Some e" "\<not> live_at t e" "lru_find k (lru_items p) = None"
      "lru_drop k (lru_items p) = lru_items p"
  | (alive) e where "lru_find k (lru_items s) = Some e" "live_at t e" "lru_find k (lru_items p) = Some e"
      "entry_key e = k"
proof -
  from assms have p: "lru_find k (lru_items p) =
      (case lru_find k (lru_items s) of None \<Rightarrow> None | Some x \<Rightarrow> if live_at t x then Some x else None)"
    by (simp add: purged_def lru_find_filter)
  have drop: "lru_find k (lru_items p) = None \<Longrightarrow> lru_drop k (lru_items p) = lru_items p"
    by (simp add: lru_find_None lru_drop_absent)
  show thesis
  proof (cases "lru_find k (lru_items s)")
    case None
    with p drop show thesis by (intro absent) simp_all
  next
    case (Some e)
    with p drop lru_find_key [OF Some] show thesis
      by (cases "live_at t e") (auto intro: dead alive)
  qed
qed

lemma purged_drop:
  assumes "purged t s p"
  shows "same_live t (s\<lparr>lru_items := lru_drop k (lru_items s)\<rparr>) (p\<lparr>lru_items := lru_drop k (lru_items p)\<rparr>)"
    and "entry_key e = k \<Longrightarrow> same_live t (s\<lparr>lru_items := e # lru_drop k (lru_items s)\<rparr>)
           (p\<lparr>lru_items := e # lru_drop k (lru_items p)\<rparr>)"
  using assms by (auto simp: purged_def same_live_def lru_drop_filter distinct_map_filter set_lru_drop
      simp flip: lru_drop_filter)

lemma same_live_counters [simp]:
  "same_live t (s\<lparr>lru_expired := m\<rparr>) p = same_live t s p"
  "same_live t (s\<lparr>lru_evictions := m\<rparr>) p = same_live t s p"
  "same_live t s (p\<lparr>lru_expired := n\<rparr>) = same_live t s p"
  "same_live t s (p\<lparr>lru_evictions := n\<rparr>) = same_live t s p"
  by (simp_all add: same_live_def)

lemma purged_same_live: "purged t s p \<Longrightarrow> same_live t s p"
  by (simp add: purged_def same_live_def distinct_map_filter)

lemma purged_put: "purged t s p \<Longrightarrow> same_live t (lru_put e s) (lru_put e p)"
  using purged_drop(2) [of t s p e "entry_key e"] by (simp add: purged_def lru_put_def Let_def)

lemma purged_get:
  assumes "purged t s p"
  shows "snd (lru_get t k s) = snd (lru_get t k p) \<and>
    same_live t (fst (lru_get t k s)) (fst (lru_get t k p))"
  using assms
proof (cases rule: purged_find [where k = k])
  case absent
  with purged_same_live [OF assms] show ?thesis by (simp add: lru_get_def)
next
  case (dead e)
  with purged_drop(1) [OF assms, of k] show ?thesis by (simp add: lru_get_def lru_reclaim_def)
next
  case (alive e)
  with purged_drop(2) [OF assms, of e k] show ?thesis by (simp add: lru_get_def)
qed

lemma purged_erase:
  assumes "purged t s p"
  shows "snd (lru_erase t k s) = snd (lru_erase t k p) \<and>
    same_live t (fst (lru_erase t k s)) (fst (lru_erase t k p))"
  using assms
proof (cases rule: purged_find [where k = k])
  case absent
  with purged_same_live [OF assms] show ?thesis by (simp add: lru_erase_def)
next
  case (dead e)
  with purged_drop(1) [OF assms, of k] show ?thesis by (simp add: lru_erase_def)
next
  case (alive e)
  with purged_drop(1) [OF assms, of k] show ?thesis by (simp add: lru_erase_def)
qed

lemma purged_ttl:
  assumes "purged t s p"
  shows "snd (lru_ttl t k s) = snd (lru_ttl t k p) \<and>
    same_live t (fst (lru_ttl t k s)) (fst (lru_ttl t k p))"
  using assms
proof (cases rule: purged_find [where k = k])
  case absent
  with purged_same_live [OF assms] show ?thesis by (simp add: lru_ttl_def)
next
  case (dead e)
  then obtain d where "entry_expires_at e = Some d" "d \<le> t"
    by (auto simp: live_at_def split: option.splits)
  with dead purged_drop(1) [OF assms, of k] show ?thesis by (simp add: lru_ttl_def lru_reclaim_def)
next
  case (alive e)
  with purged_same_live [OF assms] show ?thesis
    by (auto simp: lru_ttl_def live_at_def split: option.splits)
qed

lemma purged_visible: "purged t s p \<Longrightarrow> lru_visible t s k = lru_visible t p k"
  using purged_get [of t s p k] by (simp add: lru_get_value)

lemma purged_step:
  assumes "purged t s p" and "expiry_blind op"
  shows "snd (lru_step dl (t, op) s) = snd (lru_step dl (t, op) p) \<and>
    same_live t (fst (lru_step dl (t, op) s)) (fst (lru_step dl (t, op) p))"
proof (cases op)
  case OpClear
  with assms show ?thesis by (simp add: purged_def same_live_def)
next
  case OpExport
  with assms show ?thesis by (simp add: purged_def purged_same_live lru_export_def same_live_def distinct_map_filter)
qed (use assms purged_put [OF assms(1)] purged_get [OF assms(1)] purged_erase [OF assms(1)]
    purged_ttl [OF assms(1)] purged_visible [OF assms(1)] purged_same_live [OF assms(1)] in auto)

lemma lazy_eager_step:
  assumes "same_live now s e" and "now \<le> t" and "expiry_blind op"
  shows "snd (lru_step deadline (t, op) s) = snd (eager_step (t, op) e) \<and>
    same_live t (fst (lru_step deadline (t, op) s)) (fst (eager_step (t, op) e))"
proof -
  have "purged t s (purge t e)"
    using assms(1) filter_live_later [OF assms(2), of "lru_items s" "lru_items e"]
    by (simp add: same_live_def purged_def purge_def)
  from purged_step [OF this assms(3)] show ?thesis by (simp add: eager_step_def)
qed

lemma lazy_eager_run:
  assumes "same_live now s e" and "sorted (now # map fst xs)"
    and "list_all (\<lambda>x. expiry_blind (snd x)) xs"
  shows "snd (run_spec (lru_step deadline) xs s) = snd (run_spec eager_step xs e)"
  using assms
proof (induction xs arbitrary: now s e)
  case (Cons x xs)
  obtain t op where x: "x = (t, op)" by fastforce
  from lazy_eager_step [OF Cons.prems(1), of t op] Cons.prems(2,3) x
  have step: "snd (lru_step deadline x s) = snd (eager_step x e)"
    "same_live t (fst (lru_step deadline x s)) (fst (eager_step x e))" by auto
  from Cons.IH [OF step(2)] Cons.prems(2,3) x
  have "snd (run_spec (lru_step deadline) xs (fst (lru_step deadline x s)))
      = snd (run_spec eager_step xs (fst (eager_step x e)))" by simp
  with step(1) show ?case by (simp add: case_prod_beta)
qed simp

text \<open>
  C8. Lazy expiration is unobservable: on an unbounded cache whose calls come in the order of the
  monotonic clock, every answer of \<open>get\<close>, \<open>get_into\<close>, \<open>contains\<close>, \<open>ttl\<close>, \<open>erase\<close> and
  \<open>export_entries\<close> is that of a cache which removes each entry at its deadline.
  Nothing is claimed of \<open>size\<close> and \<open>keys_by_recency\<close>, which see resident entries past their deadline,
  nor of a bounded cache, where such an entry takes up room and can push out a live one.
\<close>

theorem lazy_expiration_unobservable:
  assumes "sorted (map fst xs)" and "list_all (\<lambda>x. expiry_blind (snd x)) xs"
  shows "\<exists>c. run_defined cache_step xs (fresh_cache None) = Some (c,
    snd (run_spec eager_step xs \<lparr>lru_items = [], lru_cap = None, lru_evictions = 0, lru_expired = 0\<rparr>))"
proof (cases xs)
  case Nil
  then show ?thesis by simp
next
  case (Cons y ys)
  let ?s = "\<lparr>lru_items = [], lru_cap = None, lru_evictions = 0, lru_expired = 0\<rparr>"
  have "same_live (fst y) ?s ?s" by (simp add: same_live_def)
  from lazy_eager_run [OF this _ assms(2)] assms(1) Cons
  have "snd (run_spec (lru_step deadline) xs ?s) = snd (run_spec eager_step xs ?s)" by simp
  with cache_lru.run_refines [of "fresh_cache None" xs] show ?thesis by fastforce
qed

theorem lazy_expiration_unobservable_witness:
  "\<exists>c. run_defined cache_step [(0, OpSetTtl ''k'' ''v'' 1), (5, OpGet ''k''), (1000000, OpGet ''k'')]
      (fresh_cache None) = Some (c, [RUnit, RValue (Some ''v''), RValue None])"
proof -
  let ?xs = "[(0, OpSetTtl ''k'' ''v'' 1), (5, OpGet ''k''), (1000000, OpGet ''k'')]"
  have "snd (run_spec eager_step ?xs \<lparr>lru_items = [], lru_cap = None, lru_evictions = 0, lru_expired = 0\<rparr>)
      = [RUnit, RValue (Some ''v''), RValue None]" by code_simp
  with lazy_expiration_unobservable [of ?xs] show ?thesis
    by (simp del: run_defined.simps cache_step.simps run_spec.simps)
qed

end
