(* ===== verification/Handler_Properties.thy ===== *)
theory Handler_Properties
  imports Command_Handler Ttl_Properties
begin

text \<open>
  What a client sees of the command handler: one line per reply, a \<open>GET\<close> that returns what was
  \<open>SET\<close> until its time is up, and \<open>TTL\<close> in whole seconds.
\<close>

section \<open>Replies are single lines\<close>

definition one_line :: "string \<Rightarrow> bool" where
  "one_line reply \<longleftrightarrow> (\<exists>body. reply = body @ [LF] \<and> body \<noteq> [] \<and> LF \<notin> set body)"

definition entry_clean :: "entry \<Rightarrow> bool" where
  "entry_clean e \<longleftrightarrow> LF \<notin> set (entry_value e)"

definition cache_clean :: "sharded_cache \<Rightarrow> bool" where
  "cache_clean c \<longleftrightarrow> list_all (\<lambda>l. list_all entry_clean (lru_items l)) (sharded_abs c)"

lemma to_string_no_LF: "LF \<notin> set (to_string i)"
proof -
  have "LF \<notin> set (to_string_nat n)" for n
    using to_string_nat_digits [of n] by (auto simp: list_all_iff)
  then show ?thesis by (simp add: to_string_def)
qed

lemma one_line_replies [simp]:
  "one_line reply_ok" "one_line reply_pong" "one_line reply_bye" "one_line reply_no_expiry" "one_line reply_nil"
  "one_line (reply_integer n)"
  "one_line (reply_value v) \<longleftrightarrow> LF \<notin> set v" "one_line (reply_error e) \<longleftrightarrow> LF \<notin> set e"
  using to_string_no_LF [of n]
  by (auto simp: one_line_def reply_defs append_eq_append_conv2 intro: exI [of _ "CHR '':'' # to_string n"])

lemma one_line_ttl [simp]: "one_line (ttl_reply info)"
  by (simp add: ttl_reply_def split: ttl_state.splits)

text \<open>An operation stores at most the value it was given.\<close>

fun kv_clean :: "kv_op \<Rightarrow> bool" where
  "kv_clean (KvSet k v) \<longleftrightarrow> LF \<notin> set v"
| "kv_clean (KvSetTtl k v ttl) \<longleftrightarrow> LF \<notin> set v"
| "kv_clean _ \<longleftrightarrow> True"

lemma lru_step_clean:
  assumes "list_all entry_clean (lru_items l)" and "kv_clean op"
  shows "list_all entry_clean (lru_items (fst (lru_step dl (now, cache_op_of op) l)))"
    and "snd (lru_step dl (now, cache_op_of op) l) = RValue (Some v) \<Longrightarrow> LF \<notin> set v"
  using assms
  by (cases op; auto simp: list_all_iff entry_clean_def lru_get_def lru_erase_def lru_ttl_def lru_reclaim_def
      lru_put_def Let_def set_lru_drop split: option.splits if_splits
      dest!: subsetD [OF set_take_cap] dest: lru_find_key)+

lemma sharded_step_clean:
  assumes "sharded_inv h c" and "cache_clean c" and "kv_clean op"
    and "sharded_step h (now, op) c = Some (c', r)"
  shows "cache_clean c' \<and> (\<forall>v. r = RValue (Some v) \<longrightarrow> LF \<notin> set v)"
proof -
  have spec: "shards_spec h deadline (now, op) (sharded_abs c) = (sharded_abs c', r)"
    using sharded_step_refines [OF assms(1), of "(now, op)"] assms(4) by auto
  have ne: "shards c \<noteq> []" using assms(1) by (simp add: sharded_inv_def)
  show ?thesis
  proof (cases "kv_key op")
    case None
    with spec have "sharded_abs c' = map (\<lambda>l. l\<lparr>lru_items := []\<rparr>) (sharded_abs c)" "r = RUnit"
      by (auto simp: shards_spec_def)
    then show ?thesis by (simp add: cache_clean_def list_all_iff)
  next
    case (Some k)
    let ?i = "unat (shard_hash h k) mod length (sharded_abs c)"
    let ?l = "sharded_abs c ! ?i"
    have "?l \<in> set (sharded_abs c)" by (rule nth_mem) (use ne in simp)
    with assms(2) have l: "list_all entry_clean (lru_items ?l)" by (simp add: cache_clean_def list_all_iff)
    have s: "sharded_abs c' = (sharded_abs c)[?i := fst (lru_step deadline (now, cache_op_of op) ?l)]"
      "r = snd (lru_step deadline (now, cache_op_of op) ?l)"
      using spec Some by (auto simp: shards_spec_def Let_def split: prod.splits)
    have "cache_clean c'" using lru_step_clean(1) [OF l assms(3)] assms(2)
      by (auto simp: cache_clean_def s(1) list_all_iff dest!: subsetD [OF set_update_subset_insert])
    moreover have "LF \<notin> set v" if "r = RValue (Some v)" for v
      by (rule lru_step_clean(2) [OF l assms(3)], rule that [unfolded s(2)])
    ultimately show ?thesis by blast
  qed
qed

text \<open>Errors of a load are single lines, whatever the file contains.\<close>

lemma read_record_error: "read_record i fb s = Inl e \<Longrightarrow> LF \<notin> set e"
  using to_string_no_LF [of i] by (auto simp: read_record_def Let_def split: if_splits prod.splits)

lemma read_records_error: "read_records n i fb s = Inl e \<Longrightarrow> LF \<notin> set e"
  by (induction n i fb s rule: read_records.induct)
    (auto split: sum.splits prod.splits dest: read_record_error)

lemma parse_snapshot_error: "parse_snapshot bytes = Inl e \<Longrightarrow> LF \<notin> set e"
  using to_string_no_LF
  by (auto simp: parse_snapshot_defs Let_def split: if_splits prod.splits sum.splits dest: read_records_error)

lemma load_error:
  assumes "sharded_inv h c" and "load h path wall clock d c = Some (c', res)" and "\<not> lr_ok res"
  shows "LF \<notin> set (lr_error res)"
  using assms
  by (auto simp: load_def load_start_def split: option.splits sum.splits dest: parse_snapshot_error)

definition quiet_env :: "string option \<Rightarrow> exec_env \<Rightarrow> bool" where
  "quiet_env p env \<longleftrightarrow> (case p of None \<Rightarrow> True | Some path \<Rightarrow> LF \<notin> set path) \<and>
     (case se_rename_error (ee_save env) of None \<Rightarrow> True | Some reason \<Rightarrow> LF \<notin> set reason)"

lemma save_error:
  assumes "quiet_env (Some path) env" and "save path (ee_save env) c d = Some (c', d', res)" and "\<not> sr_ok res"
  shows "LF \<notin> set (sr_error res)"
proof -
  have "LF \<notin> set (to_string_nat n)" for n using to_string_no_LF [of "int n"] by (simp add: to_string_of_nat)
  then show ?thesis
    using assms
    by (auto simp: save_def write_snapshot_def save_failed_def quiet_env_def unique_temp_path_def Let_def bind_eq_Some_conv
        split: if_splits option.splits)
qed


lemma command_op_clean: "command_op cmd = Some op \<Longrightarrow> LF \<notin> set (cmd_value cmd) \<Longrightarrow> kv_clean op"
  by (auto simp: command_op_def split: command_type.splits option.splits)

lemma render_one_line:
  assumes "sharded_step h (now, op) c = Some (c', r)" and "kv_key op \<noteq> None"
    and "\<And>k out. op \<noteq> KvGetInto k out" and "\<And>v. r = RValue (Some v) \<Longrightarrow> LF \<notin> set v"
  shows "one_line (render_result r)"
  using assms by (cases op) (auto split: option.splits)

lemma command_op_shape: "command_op cmd = Some op \<Longrightarrow> kv_key op = Some (cmd_key cmd) \<and> op \<noteq> KvGetInto k out"
  by (auto simp: command_op_def split: command_type.splits option.splits)

lemma execute_key_one_line:
  assumes "store_inv h s" and "cache_clean (st_cache s)" and "LF \<notin> set (cmd_value cmd)"
    and op: "command_op cmd = Some op"
  shows "\<exists>s' reply. execute h p env cmd s = Some (s', reply) \<and> one_line reply \<and> cache_clean (st_cache s')"
proof -
  have inv: "sharded_inv h (st_cache s)" using assms(1) by (simp add: store_inv_def)
  obtain c r where c: "sharded_step h (ee_now env, op) (st_cache s) = Some (c, r)"
    using sharded_step_refines [OF inv, of "(ee_now env, op)"] by blast
  note clean = sharded_step_clean [OF inv assms(2) command_op_clean [OF op assms(3)] c]
  have "one_line (render_result r)"
    using render_one_line [OF c] command_op_shape [OF op] clean by auto
  with clean c show ?thesis by (auto simp: execute_key_command [OF op])
qed

lemma execute_one_line:
  assumes "store_inv h s" and "cache_clean (st_cache s)" and "LF \<notin> set (cmd_value cmd)" and "quiet_env p env"
  shows "\<exists>s' reply. execute h p env cmd s = Some (s', reply) \<and> one_line reply \<and>
    (cmd_type cmd \<noteq> CLoad \<longrightarrow> cache_clean (st_cache s'))"
proof (cases "command_op cmd")
  case (Some op)
  with execute_key_one_line [OF assms(1-3)] show ?thesis by blast
next
  case None
  have inv: "sharded_inv h (st_cache s)" using assms(1) by (simp add: store_inv_def)
  show ?thesis
  proof (cases p)
    case None
    with \<open>command_op cmd = None\<close> assms(2) show ?thesis
      by (auto simp: execute_def command_op_def Let_def split: command_type.splits)
  next
    case (Some path)
    obtain d' res where sv: "save path (ee_save env) (st_cache s) (st_disk s) = Some (st_cache s, d', res)"
      using save_defined [OF inv] by blast
    obtain c' res' where ld: "load h path (ee_wall env) (ee_clock env) (st_disk s) (st_cache s) = Some (c', res')"
      using load_reaches [OF inv] by metis
    from save_error [OF _ sv] load_error [OF inv ld] assms(4) Some \<open>command_op cmd = None\<close> assms(2) sv ld
    show ?thesis
      by (auto simp: execute_def command_op_def Let_def split: command_type.splits option.splits)
  qed
qed

text \<open>
  C24. Every reply is one line: while no stored value contains a newline (which no value sent over
  the protocol does), nor an error text of the system, \<open>execute\<close> answers every command, on every path including failed saves and
  loads, with exactly one non-empty line, and only a load can store a value with a newline.
\<close>

theorem every_reply_one_line:
  assumes "store_inv h s" and "cache_clean (st_cache s)" and "LF \<notin> set (cmd_value cmd)" and "quiet_env p env"
  shows "\<exists>s' reply. execute h p env cmd s = Some (s', reply) \<and> one_line reply \<and>
    (cmd_type cmd \<noteq> CLoad \<longrightarrow> cache_clean (st_cache s'))"
  using assms by (rule execute_one_line)

section \<open>Answers over the wire\<close>

lemma lru_step_answer:
  "kv_key op = Some k \<Longrightarrow>
     snd (lru_step dl (now, cache_op_of op) l) = snd (kv_slot dl now op (kv_of (lru_items l) k))"
  by (cases op) (auto simp: kv_lru_facts split: option.splits)

text \<open>The answer to a call on one key depends only on the entry of that key, bounded or not.\<close>

lemma sharded_answer:
  assumes "sharded_inv h s" and "kv_key op = Some k"
  shows "\<exists>s'. sharded_step h (now, op) s = Some (s', snd (kv_slot deadline now op (sharded_kv h s k))) \<and> sharded_inv h s'"
proof -
  have "shard_index_for h k s < length (shards s)"
    using assms(1) by (simp add: sharded_inv_def shard_index_less)
  then have "kv_of (lru_items (cache_abs (sy_cache (shards s ! shard_index_for h k s)))) k = sharded_kv h s k"
    by (simp add: sharded_kv_def sharded_abs_def)
  with sharded_step_key_refines [OF assms, of now] lru_step_answer [OF assms(2), of deadline now] show ?thesis
    by (metis snd_conv)
qed

text \<open>
  C25. \<open>TTL\<close> on a readable key with a deadline reports the milliseconds left rounded up to whole
  seconds. Since the cache truncates to milliseconds first, the reply is \<open>:0\<close> exactly in the
  last millisecond of the key's life, although the key is still readable.
\<close>

theorem ttl_reply_rounds_up:
  assumes "store_inv h s" and "cmd_type cmd = CTtl"
    and "sharded_kv h (st_cache s) (cmd_key cmd) = Some e" and "entry_expires_at e = Some t" and "ee_now env < t"
  shows "\<exists>s' n. execute h p env cmd s = Some (s', reply_integer n) \<and>
    (n - 1) * 1000 < duration_cast_ms (t - ee_now env) \<and> duration_cast_ms (t - ee_now env) \<le> n * 1000 \<and>
    (n = 0 \<longleftrightarrow> t - ee_now env < ns_per_ms)"
proof -
  let ?ms = "duration_cast_ms (t - ee_now env)"
  have "kv_reap (ee_now env) (Some e) = Some e" using assms(4,5) by (simp add: kv_reap_def live_at_def)
  then have "kv_slot deadline (ee_now env) (KvTtl (cmd_key cmd)) (Some e) =
      (Some e, RTtl \<lparr>ttl_info_state = Expiring, ttl_remaining = ?ms\<rparr>)"
    using assms(4) by (simp add: kv_ttl_def)
  then obtain c where "sharded_step h (ee_now env, KvTtl (cmd_key cmd)) (st_cache s) =
      Some (c, RTtl \<lparr>ttl_info_state = Expiring, ttl_remaining = ?ms\<rparr>)"
    using sharded_answer [of h "st_cache s" "KvTtl (cmd_key cmd)" "cmd_key cmd" "ee_now env"] assms(1,3)
    by (auto simp: store_inv_def)
  moreover have "command_op cmd = Some (KvTtl (cmd_key cmd))" using assms(2) by (simp add: command_op_def)
  ultimately have "execute h p env cmd s = Some (s\<lparr>st_cache := c\<rparr>, reply_integer ((?ms + 999) div 1000))"
    by (simp add: execute_key_command ttl_reply_def)
  moreover have "0 \<le> ?ms" "?ms = 0 \<longleftrightarrow> t - ee_now env < ns_per_ms"
    using assms(5) by (auto simp: duration_cast_ms_def ns_per_ms_def)
  ultimately show ?thesis by (intro exI [of _ "s\<lparr>st_cache := c\<rparr>"] exI [of _ "(?ms + 999) div 1000"]) auto
qed


section \<open>What is set can be read\<close>

definition accepts :: "hash_fn \<Rightarrow> string \<Rightarrow> sharded_cache \<Rightarrow> bool" where
  "accepts h k s \<longleftrightarrow> c_capacity (sy_cache (shards s ! shard_index_for h k s)) \<noteq> Some 0"

text \<open>The entry of its own key after a write, in a shard that can hold an entry.\<close>

lemma lru_write_slot:
  assumes "kv_key op = Some k" and "op = KvSet k v \<or> op = KvSetTtl k v ttl" and "lru_cap l \<noteq> Some 0"
  shows "kv_of (lru_items (fst (lru_step dl (now, cache_op_of op) l))) k =
    fst (kv_slot dl now op (kv_of (lru_items l) k))"
proof -
  have "kv_of (lru_items (lru_put e l)) (entry_key e) = Some e" for e
    using assms(3) by (cases "lru_cap l"; cases "the (lru_cap l)") (auto simp: lru_put_def Let_def)
  from this [of "\<lparr>entry_key = k, entry_value = v, entry_expires_at = _\<rparr>"] assms(2) show ?thesis
    by (auto simp: kv_lru_erase)
qed

lemma sharded_write_slot:
  assumes "sharded_inv h s" and "accepts h k s" and "op = KvSet k v \<or> op = KvSetTtl k v ttl"
  shows "\<exists>s'. sharded_step h (now, op) s = Some (s', RUnit) \<and> sharded_inv h s' \<and>
    sharded_kv h s' k = fst (kv_slot deadline now op (sharded_kv h s k))"
proof -
  have key: "kv_key op = Some k" using assms(3) by auto
  have i: "shard_index_for h k s < length (shards s)"
    using assms(1) by (simp add: sharded_inv_def shard_index_less)
  obtain c r where c: "sharded_step h (now, op) s = Some (s\<lparr>shards := (shards s)[shard_index_for h k s := sync_of c]\<rparr>, r)"
    "sharded_inv h (s\<lparr>shards := (shards s)[shard_index_for h k s := sync_of c]\<rparr>)"
    "lru_step deadline (now, cache_op_of op) (cache_abs (sy_cache (shards s ! shard_index_for h k s))) = (cache_abs c, r)"
    using sharded_step_key_refines [OF assms(1) key] by blast
  have "r = RUnit" using c(3) assms(3) by auto
  moreover have "kv_of (lru_items (cache_abs c)) k =
      fst (kv_slot deadline now op (kv_of (lru_items (cache_abs (sy_cache (shards s ! shard_index_for h k s)))) k))"
    using lru_write_slot [OF key assms(3), of "cache_abs (sy_cache (shards s ! shard_index_for h k s))" deadline now]
      assms(2) c(3) by (simp add: accepts_def)
  moreover have "shard_index_for h k (s\<lparr>shards := (shards s)[shard_index_for h k s := sync_of c]\<rparr>) = shard_index_for h k s"
    by (simp add: shard_index_for_def)
  ultimately have "sharded_kv h (s\<lparr>shards := (shards s)[shard_index_for h k s := sync_of c]\<rparr>) k =
      fst (kv_slot deadline now op (sharded_kv h s k))"
    using i by (simp add: sharded_kv_def sharded_abs_def)
  with c(1,2) \<open>r = RUnit\<close> show ?thesis by blast
qed

definition lifetime_over :: "time_ns \<Rightarrow> int option \<Rightarrow> time_ns \<Rightarrow> bool" where
  "lifetime_over now ttl now' \<longleftrightarrow> (case ttl of None \<Rightarrow> False | Some seconds \<Rightarrow> now + seconds * 1000000000 \<le> now')"

lemma set_slot:
  assumes "command_op cmd = Some op" and "cmd_type cmd = CSet" and "well_formed_command cmd"
    and "0 \<le> now" and "now < 2 ^ 62" and "now \<le> now'"
  shows "kv_reap now' (fst (kv_slot deadline now op x)) =
    (if lifetime_over now (cmd_ttl cmd) now' then None else fst (kv_slot deadline now op x)) \<and>
    (lifetime_over now (cmd_ttl cmd) now' \<or>
      map_option entry_value (fst (kv_slot deadline now op x)) = Some (cmd_value cmd))"
proof (cases "cmd_ttl cmd")
  case None
  with assms(1,2) show ?thesis by (auto simp: command_op_def kv_reap_def live_at_def lifetime_over_def)
next
  case (Some ttl)
  with assms(2,3) have ttl: "0 \<le> ttl" "ttl \<le> 315360000" by (auto simp: well_formed_command_def kMaxTtlSeconds_def)
  then have w: "wrap64 (ttl * 1000) = ttl * 1000" by (intro wrap64_id) (simp add: int64_range_def)
  have "deadline now (ttl * 1000) = now + ttl * 1000000000" if "0 < ttl"
    using deadline_exact [of now "ttl * 1000"] ttl that assms(4,5) by (simp add: ns_per_ms_def)
  with Some assms ttl w show ?thesis
    by (cases "ttl = 0") (auto simp: command_op_def kv_reap_def live_at_def lifetime_over_def)
qed

text \<open>
  C23. A \<open>GET\<close> after a \<open>SET\<close> on the same key, with no command in between, returns exactly the value
  that was set, until the time to live is over and never after: for every hash function and
  capacity split, as long as the key's shard can hold an entry at all.
\<close>

theorem get_after_set:
  assumes "store_inv h s" and "accepts h (cmd_key cmd) (st_cache s)"
    and "cmd_type cmd = CSet" and "well_formed_command cmd"
    and "cmd_type cmd' = CGet" and "cmd_key cmd' = cmd_key cmd"
    and "0 \<le> ee_now env" and "ee_now env < 2 ^ 62" and "ee_now env \<le> ee_now env'"
  shows "\<exists>s1 s2. execute h p env cmd s = Some (s1, reply_ok) \<and>
    execute h p env' cmd' s1 =
      Some (s2, if lifetime_over (ee_now env) (cmd_ttl cmd) (ee_now env') then reply_nil else reply_value (cmd_value cmd))"
proof -
  let ?k = "cmd_key cmd"
  obtain op where op: "command_op cmd = Some op" "\<exists>v ttl. op = KvSet ?k v \<or> op = KvSetTtl ?k v ttl"
    using assms(3) by (auto simp: command_op_def split: option.splits)
  have inv: "sharded_inv h (st_cache s)" using assms(1) by (simp add: store_inv_def)
  obtain c where c: "sharded_step h (ee_now env, op) (st_cache s) = Some (c, RUnit)" "sharded_inv h c"
    "sharded_kv h c ?k = fst (kv_slot deadline (ee_now env) op (sharded_kv h (st_cache s) ?k))"
    using sharded_write_slot [OF inv assms(2)] op(2) by blast
  note slot = set_slot [OF op(1) assms(3,4,7,8,9), of "sharded_kv h (st_cache s) ?k", folded c(3)]
  have get: "command_op cmd' = Some (KvGet ?k)" using assms(5,6) by (simp add: command_op_def)
  obtain c' where c': "sharded_step h (ee_now env', KvGet ?k) c =
      Some (c', RValue (map_option entry_value (kv_reap (ee_now env') (sharded_kv h c ?k))))"
    using sharded_answer [OF c(2), of "KvGet ?k" ?k "ee_now env'"] by auto
  show ?thesis
    using slot c(1) c' by (auto simp: execute_key_command [OF op(1)] execute_key_command [OF get])
qed


section \<open>Concrete instances\<close>

definition demo_exec :: "time_ns \<Rightarrow> exec_env" where
  "demo_exec now = \<lparr>ee_now = now, ee_save = demo_env, ee_wall = 2000, ee_clock = (\<lambda>_. now)\<rparr>"

definition demo_store :: "sharded_cache \<Rightarrow> store_state" where
  "demo_store c = \<lparr>st_cache = c, st_disk = demo_disk\<rparr>"

lemma accepts_unbounded: "accepts h k (sharded_unbounded n)"
  using shard_index_less [of "sharded_unbounded n" h k]
  by (auto simp: accepts_def sharded_unbounded_def sane_shard_count_def)

theorem every_reply_one_line_witness:
  "\<exists>s' reply. execute (\<lambda>_. 0) (Some ''dump'') (demo_exec 0) (fresh_command\<lparr>cmd_type := CSave\<rparr>) (demo_store demo_cache)
       = Some (s', reply) \<and> one_line reply \<and>
     (cmd_type (fresh_command\<lparr>cmd_type := CSave\<rparr>) \<noteq> CLoad \<longrightarrow> cache_clean (st_cache s'))"
  by (rule every_reply_one_line)
    (simp_all add: demo_store_def store_inv_def demo_cache_inv demo_exec_def quiet_env_def demo_env_def
      fresh_command_def, simp add: cache_clean_def sharded_abs_def demo_cache_def rl_range_def entry_clean_def)

theorem ttl_reply_rounds_up_witness:
  "\<exists>c s'. sharded_kv (\<lambda>_. 0) c ''k'' = Some \<lparr>entry_key = ''k'', entry_value = ''v'', entry_expires_at = Some 5000000\<rparr> \<and>
     execute (\<lambda>_. 0) None (demo_exec 4500000) (fresh_command\<lparr>cmd_type := CTtl, cmd_key := ''k''\<rparr>) (demo_store c)
       = Some (s', reply_integer 0)"
proof -
  have "deadline 0 5 = 5000000" by (simp add: deadline_exact ns_per_ms_def)
  then obtain c where c: "sharded_inv (\<lambda>_. 0) c"
    "sharded_kv (\<lambda>_. 0) c ''k'' = Some \<lparr>entry_key = ''k'', entry_value = ''v'', entry_expires_at = Some 5000000\<rparr>"
    using sharded_write_slot [OF sharded_inv_unbounded accepts_unbounded,
        where h = "\<lambda>_. 0" and op = "KvSetTtl ''k'' ''v'' 5" and k = "''k''" and now = 0] by auto
  from ttl_reply_rounds_up [of "\<lambda>_. 0" "demo_store c" "fresh_command\<lparr>cmd_type := CTtl, cmd_key := ''k''\<rparr>" _ 5000000
      "demo_exec 4500000" None] c
  show ?thesis
    by (fastforce simp: demo_store_def store_inv_def demo_exec_def ns_per_ms_def)
qed

theorem get_after_set_witness:
  "\<exists>s1 s2. execute (\<lambda>_. 0) None (demo_exec 0) \<lparr>cmd_type = CSet, cmd_key = ''k'', cmd_value = ''v'', cmd_ttl = Some 2\<rparr>
       (demo_store (sharded_unbounded 4)) = Some (s1, reply_ok) \<and>
     execute (\<lambda>_. 0) None (demo_exec 1999999999) (fresh_command\<lparr>cmd_type := CGet, cmd_key := ''k''\<rparr>) s1 =
       Some (s2, reply_value ''v'')"
  using get_after_set [of "\<lambda>_. 0" "demo_store (sharded_unbounded 4)"
      "\<lparr>cmd_type = CSet, cmd_key = ''k'', cmd_value = ''v'', cmd_ttl = Some 2\<rparr>"
      "fresh_command\<lparr>cmd_type := CGet, cmd_key := ''k''\<rparr>" "demo_exec 0" "demo_exec 1999999999" None]
  by (simp add: demo_store_def store_inv_def demo_exec_def accepts_unbounded well_formed_command_def is_token_def
      is_separator_def kMaxTtlSeconds_def lifetime_over_def)

end
