(* ===== verification/Line_Buffer.thy ===== *)
theory Line_Buffer
  imports Cachex_Prelude
begin

text \<open>
  The framing buffer (\<open>include/cachex/line_buffer.hpp\<close>, \<open>src/net/line_buffer.cpp\<close>), which turns
  a byte stream back into lines. The locale \<open>framer\<close> is what the server's connection and the
  client rely on; its lemmas say that the lines handed out are those of the byte stream,
  however the stream was cut into reads.
\<close>

record line_buffer =
  lb_buffer :: string

definition lb_fresh :: line_buffer where
  "lb_fresh = \<lparr>lb_buffer = []\<rparr>"

definition lb_append :: "string \<Rightarrow> line_buffer \<Rightarrow> line_buffer" where
  "lb_append data b = b\<lparr>lb_buffer := lb_buffer b @ data\<rparr>"

text \<open>\<open>std::string::find\<close> of one character; \<open>None\<close> is \<open>npos\<close>.\<close>

fun find_char :: "char \<Rightarrow> string \<Rightarrow> nat option" where
  "find_char c [] = None"
| "find_char c (x # xs) = (if x = c then Some 0 else map_option Suc (find_char c xs))"

definition next_line :: "line_buffer \<Rightarrow> line_buffer \<times> string option" where
  "next_line b =
     (case find_char LF (lb_buffer b) of
        None \<Rightarrow> (b, None)
      | Some newline \<Rightarrow>
          let line = take newline (lb_buffer b);
              b' = b\<lparr>lb_buffer := drop (newline + 1) (lb_buffer b)\<rparr>
          in (b', Some (if line \<noteq> [] \<and> last line = CR then butlast line else line)))"

definition lb_buffered :: "line_buffer \<Rightarrow> nat" where
  "lb_buffered b = length (lb_buffer b)"

definition lb_empty :: "line_buffer \<Rightarrow> bool" where
  "lb_empty b \<longleftrightarrow> lb_buffer b = []"

definition lb_clear :: "line_buffer \<Rightarrow> line_buffer" where
  "lb_clear b = b\<lparr>lb_buffer := []\<rparr>"

section \<open>The lines of a byte stream\<close>

definition strip_cr :: "string \<Rightarrow> string" where
  "strip_cr line = (if line \<noteq> [] \<and> last line = CR then butlast line else line)"

fun frames :: "string \<Rightarrow> string \<Rightarrow> string list \<times> string" where
  "frames acc [] = ([], acc)"
| "frames acc (c # cs) =
     (if c = LF then apfst (\<lambda>ls. strip_cr acc # ls) (frames [] cs) else frames (acc @ [c]) cs)"

lemma frames_no_LF: "LF \<notin> set xs \<Longrightarrow> frames acc xs = ([], acc @ xs)"
  by (induction acc xs rule: frames.induct) auto

lemma frames_line: "LF \<notin> set l \<Longrightarrow> frames acc (l @ LF # xs) = apfst (\<lambda>ls. strip_cr (acc @ l) # ls) (frames [] xs)"
  by (induction l arbitrary: acc) auto

lemma frames_rest_no_LF: "LF \<notin> set acc \<Longrightarrow> LF \<notin> set (snd (frames acc xs))"
  by (induction acc xs rule: frames.induct) auto

lemma frames_append:
  "frames acc (xs @ ys) = (fst (frames acc xs) @ fst (frames (snd (frames acc xs)) ys),
     snd (frames (snd (frames acc xs)) ys))"
  by (induction acc xs rule: frames.induct) auto

lemma frames_acc: "LF \<notin> set acc \<Longrightarrow> frames acc xs = frames [] (acc @ xs)"
  by (simp add: frames_append frames_no_LF)

lemma frames_lines_no_LF: "LF \<notin> set acc \<Longrightarrow> l \<in> set (fst (frames acc xs)) \<Longrightarrow> LF \<notin> set l"
  by (induction acc xs rule: frames.induct) (auto simp: strip_cr_def split: if_splits dest: in_set_butlastD)

lemma first_line:
  assumes "LF \<in> set xs"
  obtains l rest where "xs = l @ LF # rest" "LF \<notin> set l"
  using split_list_first [OF assms] by blast

section \<open>The contract of a framing buffer\<close>

locale framer =
  fixes app :: "string \<Rightarrow> 's \<Rightarrow> 's"
    and nxt :: "'s \<Rightarrow> 's \<times> string option"
    and pending :: "'s \<Rightarrow> string"
  assumes app_law: "pending (app d s) = pending s @ d"
    and nxt_none: "LF \<notin> set (pending s) \<Longrightarrow> nxt s = (s, None)"
    and nxt_some: "pending s = l @ LF # rest \<Longrightarrow> LF \<notin> set l \<Longrightarrow>
      \<exists>s'. nxt s = (s', Some (strip_cr l)) \<and> pending s' = rest"
begin

lemma nxt_frames:
  "frames [] (pending s) =
     (case nxt s of
        (s', None) \<Rightarrow> ([], pending s')
      | (s', Some l) \<Rightarrow> apfst (\<lambda>ls. l # ls) (frames [] (pending s')))"
proof (cases "LF \<in> set (pending s)")
  case True
  then obtain l rest where l: "pending s = l @ LF # rest" "LF \<notin> set l" by (rule first_line)
  from nxt_some [OF this] l show ?thesis by (auto simp: frames_line)
qed (simp add: nxt_none frames_no_LF)

lemma nxt_shrinks:
  assumes "nxt s = (s', Some l)"
  shows "length (pending s') < length (pending s)"
proof -
  have "LF \<in> set (pending s)" using nxt_none [of s] assms by fastforce
  then obtain l' rest where l: "pending s = l' @ LF # rest" "LF \<notin> set l'" by (rule first_line)
  from nxt_some [OF this] l assms show ?thesis by auto
qed

lemma nxt_stuck: "nxt s = (s', None) \<Longrightarrow> s' = s \<and> LF \<notin> set (pending s)"
  using nxt_none [of s] nxt_some [of s] first_line [of "pending s"] by (metis option.distinct(1) prod.inject)

lemma app_frames:
  "frames [] (pending (app d s)) =
     (fst (frames [] (pending s)) @ fst (frames (snd (frames [] (pending s))) d),
      snd (frames (snd (frames [] (pending s))) d))"
  by (simp add: app_law frames_append)

end

lemma find_char_none: "find_char c xs = None \<longleftrightarrow> c \<notin> set xs"
  by (induction xs) auto

lemma find_char_some: "c \<notin> set l \<Longrightarrow> find_char c (l @ c # rest) = Some (length l)"
  by (induction l) auto

interpretation lb: framer lb_append next_line lb_buffer
proof
  show "lb_buffer (lb_append d s) = lb_buffer s @ d" for d s by (simp add: lb_append_def)
  show "next_line s = (s, None)" if "LF \<notin> set (lb_buffer s)" for s
    using that find_char_none [of LF "lb_buffer s"] by (simp add: next_line_def)
  show "\<exists>s'. next_line s = (s', Some (strip_cr l)) \<and> lb_buffer s' = rest"
    if "lb_buffer s = l @ LF # rest" "LF \<notin> set l" for s l rest
    using that by (simp add: next_line_def find_char_some strip_cr_def)
qed

section \<open>Draining\<close>

text \<open>The loop \<open>while (line = buffer.next_line())\<close>, collecting the lines.\<close>

function drain :: "line_buffer \<Rightarrow> line_buffer \<times> string list" where
  "drain b = (case next_line b of
      (b', None) \<Rightarrow> (b', [])
    | (b', Some l) \<Rightarrow> apsnd (\<lambda>ls. l # ls) (drain b'))"
  by auto
termination
  by (relation "measure (\<lambda>b. length (lb_buffer b))") (auto dest: lb.nxt_shrinks [OF sym])

declare drain.simps [simp del]

lemma drain_frames: "drain b = (b\<lparr>lb_buffer := snd (frames [] (lb_buffer b))\<rparr>, fst (frames [] (lb_buffer b)))"
proof (induction b rule: drain.induct)
  case (1 b)
  show ?case
  proof (cases "next_line b")
    case (Pair b' l)
    then show ?thesis
    proof (cases l)
      case None
      with Pair lb.nxt_stuck [of b b'] show ?thesis
        by (subst drain.simps) (simp add: frames_no_LF)
    next
      case (Some x)
      with 1 [OF Pair [symmetric] Some] Pair lb.nxt_frames [of b] show ?thesis
        by (subst drain.simps) simp
    qed
  qed
qed

fun feed :: "string list \<Rightarrow> line_buffer \<Rightarrow> line_buffer \<times> string list" where
  "feed [] b = (b, [])"
| "feed (chunk # chunks) b =
     (case drain (lb_append chunk b) of (b', ls) \<Rightarrow> apsnd (\<lambda>more. ls @ more) (feed chunks b'))"

text \<open>
  C13. TCP has no message boundaries, and none are needed: however the byte stream is cut into
  reads, appending each read and draining the complete lines yields exactly the lines of the
  stream, in order, and leaves exactly the unterminated tail in the buffer.
\<close>

theorem chunking_irrelevant:
  "feed chunks lb_fresh =
     (\<lparr>lb_buffer = snd (frames [] (concat chunks))\<rparr>, fst (frames [] (concat chunks)))"
proof -
  have "feed chunks b = (b\<lparr>lb_buffer := snd (frames (lb_buffer b) (concat chunks))\<rparr>,
      fst (frames (lb_buffer b) (concat chunks)))" if "LF \<notin> set (lb_buffer b)" for b
    using that
  proof (induction chunks arbitrary: b)
    case (Cons chunk chunks)
    let ?f = "frames (lb_buffer b) chunk"
    have "LF \<notin> set (snd ?f)" using Cons.prems by (rule frames_rest_no_LF)
    with Cons.IH [of "b\<lparr>lb_buffer := snd ?f\<rparr>"] Cons.prems show ?case
      by (simp add: drain_frames lb_append_def frames_acc [symmetric] frames_append [of _ chunk])
  qed simp
  from this [of lb_fresh] show ?thesis by (simp add: lb_fresh_def)
qed

text \<open>
  Sending lines and framing them again is the identity: the lines of a stream made of
  terminated lines are those lines (each without one carriage return at its end), whatever
  unterminated tail follows.
\<close>

lemma framing_round_trip:
  assumes "list_all (\<lambda>l. LF \<notin> set l) ls" and "LF \<notin> set tail"
  shows "drain \<lparr>lb_buffer = concat (map (\<lambda>l. l @ [LF]) ls) @ tail\<rparr> = (\<lparr>lb_buffer = tail\<rparr>, map strip_cr ls)"
proof -
  have "frames [] (concat (map (\<lambda>l. l @ [LF]) ls) @ tail) = (map strip_cr ls, tail)"
    using assms by (induction ls) (simp_all add: frames_no_LF frames_line)
  then show ?thesis by (simp add: drain_frames)
qed

lemma framing_round_trip_instance:
  "drain \<lparr>lb_buffer = concat (map (\<lambda>l. l @ [LF]) [''GET a'' @ [CR], ''PI'', '''']) @ ''NG''\<rparr> =
     (\<lparr>lb_buffer = ''NG''\<rparr>, [''GET a'', ''PI'', ''''])"
  using framing_round_trip [of "[''GET a'' @ [CR], ''PI'', '''']" "''NG''"] by (simp add: strip_cr_def)

end
