(* ===== verification/Socket.thy ===== *)
theory Socket
  imports Decimal
begin

text \<open>
  Sockets (\<open>include/cachex/socket.hpp\<close>, \<open>src/net/socket.cpp\<close>): sending a whole buffer through a
  \<open>send\<close> that may take only part of it, the ownership of file descriptors by move-only objects,
  connecting to the first address that answers, and reading a port number. What the kernel
  answers is an argument; running out of answers means the call is still blocked.
\<close>

section \<open>\<open>send_all\<close>\<close>

datatype send_outcome = Sent nat | SendEintr | SendErr

text \<open>
  The loop over \<open>::send\<close>: whether it reports success, the bytes the kernel took, and the answers
  not used. \<open>None\<close>: blocked in \<open>send\<close>.
\<close>

fun send_all :: "send_outcome list \<Rightarrow> string \<Rightarrow> (bool \<times> string \<times> send_outcome list) option" where
  "send_all outcomes [] = Some (True, [], outcomes)"
| "send_all [] (c # cs) = None"
| "send_all (SendEintr # os) (c # cs) = send_all os (c # cs)"
| "send_all (SendErr # os) (c # cs) = Some (False, [], os)"
| "send_all (Sent n # os) (c # cs) =
     map_option (\<lambda>(ok, out, rest). (ok, take n (c # cs) @ out, rest)) (send_all os (drop n (c # cs)))"

fun progress :: "send_outcome \<Rightarrow> bool" where
  "progress (Sent n) \<longleftrightarrow> 0 < n"
| "progress SendEintr \<longleftrightarrow> True"
| "progress SendErr \<longleftrightarrow> False"

fun is_sent :: "send_outcome \<Rightarrow> bool" where
  "is_sent (Sent n) \<longleftrightarrow> True"
| "is_sent _ \<longleftrightarrow> False"

definition send_budget :: "send_outcome list \<Rightarrow> nat" where
  "send_budget os = length (filter is_sent os)"

text \<open>Enough answers to send \<open>n\<close> bytes even one at a time, and no error among them.\<close>

definition reliable :: "nat \<Rightarrow> send_outcome list \<Rightarrow> bool" where
  "reliable n os \<longleftrightarrow> list_all progress os \<and> n \<le> send_budget os"

lemma send_all_prefix:
  "send_all os data = Some (ok, out, rest) \<Longrightarrow> \<exists>unsent. data = out @ unsent \<and> (ok \<longleftrightarrow> unsent = [])"
proof (induction os data arbitrary: ok out rest rule: send_all.induct)
  case (5 n os c cs)
  from 5(2) obtain out' where o: "send_all os (drop n (c # cs)) = Some (ok, out', rest)" "out = take n (c # cs) @ out'"
    by (cases "send_all os (drop n (c # cs))") auto
  from 5(1) [OF o(1)] obtain unsent where "drop n (c # cs) = out' @ unsent" "ok \<longleftrightarrow> unsent = []" by blast
  with o(2) show ?case by (intro exI [of _ unsent]) (metis append.assoc append_take_drop_id)
qed auto

lemma send_all_reliable:
  assumes "reliable (length data + m) os"
  shows "\<exists>rest. send_all os data = Some (True, data, rest) \<and> reliable m rest"
  using assms
proof (induction os data rule: send_all.induct)
  case (3 os c cs)
  then show ?case by (simp add: reliable_def send_budget_def)
next
  case (5 n os c cs)
  then have "reliable (length (drop n (c # cs)) + m) os"
    by (auto simp: reliable_def send_budget_def)
  from 5(1) [OF this] obtain rest where
    r: "send_all os (drop n (c # cs)) = Some (True, drop n (c # cs), rest)" "reliable m rest" by blast
  then have "send_all (Sent n # os) (c # cs) = Some (True, take n (c # cs) @ drop n (c # cs), rest)" by simp
  with r(2) show ?case by (auto simp only: append_take_drop_id)
qed (auto simp: reliable_def send_budget_def)

text \<open>
  C39. \<open>send_all\<close> never corrupts the stream: the bytes the peer is given are a prefix of the data,
  and success is reported exactly when they are all of it. It does not give up early: interrupted
  and partial sends are retried, so when the kernel reports no error and keeps taking at least a
  byte the call returns success.
\<close>

theorem send_all_correct:
  "(case send_all os data of
      None \<Rightarrow> \<not> reliable (length data) os
    | Some (ok, out, rest) \<Rightarrow> (\<exists>unsent. data = out @ unsent \<and> (ok \<longleftrightarrow> unsent = [])) \<and> (ok \<or> \<not> reliable (length data) os))"
proof (cases "send_all os data")
  case None
  then show ?thesis using send_all_reliable [of data 0 os] by auto
next
  case (Some r)
  obtain ok out rest where r: "r = (ok, out, rest)" by (cases r) auto
  with Some send_all_prefix [of os data ok out rest] send_all_reliable [of data 0 os] show ?thesis by auto
qed

theorem send_all_correct_witness:
  "reliable 3 [Sent 2, SendEintr, Sent 1, Sent 1] \<and>
   (case send_all [Sent 2, SendEintr, Sent 1, Sent 1] ''abc'' of None \<Rightarrow> False | Some (ok, out, rest) \<Rightarrow> ok)"
proof -
  have "reliable 3 [Sent 2, SendEintr, Sent 1, Sent 1]" by code_simp
  with send_all_correct [where os = "[Sent 2, SendEintr, Sent 1, Sent 1]" and data = "''abc''"] show ?thesis
    by (auto split: option.splits)
qed

section \<open>Port numbers\<close>

definition parse_port :: "string \<Rightarrow> nat option" where
  "parse_port s =
     (case from_chars_unsigned uint64_max s of
        FcOk v [] \<Rightarrow> if s = [] \<or> v > 65535 then None else Some (nat v)
      | _ \<Rightarrow> None)"

lemma from_chars_all_digits:
  assumes "s \<noteq> []" and "list_all is_digit s"
  shows "from_chars_unsigned hi s = (if int (digits_val 0 s) \<le> hi then FcOk (int (digits_val 0 s)) [] else FcOutOfRange [])"
proof -
  have span: "takeWhile is_digit s = s" "dropWhile is_digit s = []"
    using assms(2) by (simp_all add: list_all_iff takeWhile_eq_all_conv)
  show ?thesis using assms(1) by (simp add: from_chars_unsigned_def from_chars_digits_def span)
qed

lemma parse_port_Some:
  assumes "parse_port s = Some p"
  shows "s \<noteq> [] \<and> list_all is_digit s \<and> digits_val 0 s = p \<and> p \<le> 65535"
proof -
  from assms obtain v where v: "from_chars_unsigned uint64_max s = FcOk v []" "s \<noteq> []" "v \<le> 65535" "p = nat v"
    by (auto simp: parse_port_def split: from_chars_result.splits list.splits if_splits)
  from from_chars_digits_complete [OF v(1) [unfolded from_chars_unsigned_def]] v show ?thesis by auto
qed

text \<open>
  \<open>parse_port\<close> accepts exactly the non-empty strings of decimal digits whose number is at most
  65535, and returns that number: no sign, no space, no trailing text, no wrap-around.
\<close>

lemma parse_port_exact:
  "parse_port s = Some p \<longleftrightarrow> s \<noteq> [] \<and> list_all is_digit s \<and> digits_val 0 s = p \<and> p \<le> 65535"
proof
  assume "s \<noteq> [] \<and> list_all is_digit s \<and> digits_val 0 s = p \<and> p \<le> 65535"
  then show "parse_port s = Some p" using from_chars_all_digits [of s uint64_max] by (auto simp: parse_port_def)
qed (rule parse_port_Some)

section \<open>Connecting\<close>

datatype connect_attempt = NoSocket | ConnectedOn int | ConnectFailed string

text \<open>
  \<open>resolved\<close> is the answer of \<open>getaddrinfo\<close>: an error text, or what happens with each candidate
  address in order. The result is the descriptor of the connected socket and the \<open>error\<close> string.
\<close>

fun try_candidates :: "connect_attempt list \<Rightarrow> string \<Rightarrow> int option \<times> string" where
  "try_candidates [] err = (None, if err = [] then ''no usable address'' else err)"
| "try_candidates (NoSocket # cs) err = try_candidates cs err"
| "try_candidates (ConnectedOn fd # cs) err = (Some fd, err)"
| "try_candidates (ConnectFailed reason # cs) err = try_candidates cs reason"

definition connect_to :: "string \<Rightarrow> string + connect_attempt list \<Rightarrow> string \<Rightarrow> int option \<times> string" where
  "connect_to host resolved err =
     (case resolved of
        Inl reason \<Rightarrow> (None, ''cannot resolve '' @ [CHR 0x27] @ host @ [CHR 0x27] @ '': '' @ reason)
      | Inr candidates \<Rightarrow> try_candidates candidates err)"

fun connected :: "connect_attempt \<Rightarrow> bool" where
  "connected (ConnectedOn fd) \<longleftrightarrow> True"
| "connected _ \<longleftrightarrow> False"

lemma try_candidates_first:
  "fst (try_candidates cs err) =
     (case dropWhile (\<lambda>c. \<not> connected c) cs of ConnectedOn fd # _ \<Rightarrow> Some fd | _ \<Rightarrow> None)"
  by (induction cs err rule: try_candidates.induct) auto

lemma try_candidates_error: "fst (try_candidates cs err) = None \<Longrightarrow> snd (try_candidates cs err) \<noteq> []"
  by (induction cs err rule: try_candidates.induct) auto

section \<open>Socket options\<close>

text \<open>
  What the headers of the platform define (\<open>MSG_NOSIGNAL\<close> on Linux, \<open>SO_NOSIGPIPE\<close> on macOS and BSD),
  and the options set on each descriptor.
\<close>

datatype send_flag = MSG_NOSIGNAL
datatype socket_option = TCP_NODELAY | SO_NOSIGPIPE

record platform =
  has_MSG_NOSIGNAL :: bool
  has_SO_NOSIGPIPE :: bool

type_synonym socket_options = "int \<Rightarrow> socket_option set"

definition kSendFlags :: "platform \<Rightarrow> send_flag set" where
  "kSendFlags p = (if has_MSG_NOSIGNAL p then {MSG_NOSIGNAL} else {})"

text \<open>\<open>setsockopt\<close> with the value on: \<open>accepted\<close> is the kernel's answer, which the code does not look at.\<close>

definition setsockopt_on :: "bool \<Rightarrow> int \<Rightarrow> socket_option \<Rightarrow> socket_options \<Rightarrow> socket_options" where
  "setsockopt_on accepted fd opt opts = (if accepted then opts(fd := insert opt (opts fd)) else opts)"

definition set_tcp_nodelay :: "bool \<Rightarrow> int \<Rightarrow> socket_options \<Rightarrow> socket_options" where
  "set_tcp_nodelay accepted fd opts = setsockopt_on accepted fd TCP_NODELAY opts"

definition set_no_sigpipe :: "platform \<Rightarrow> bool \<Rightarrow> int \<Rightarrow> socket_options \<Rightarrow> socket_options" where
  "set_no_sigpipe p accepted fd opts = (if has_SO_NOSIGPIPE p then setsockopt_on accepted fd SO_NOSIGPIPE opts else opts)"

text \<open>A write to a closed peer raises \<open>SIGPIPE\<close> unless the call or the socket says otherwise.\<close>

definition raises_sigpipe :: "send_flag set \<Rightarrow> int \<Rightarrow> socket_options \<Rightarrow> bool" where
  "raises_sigpipe flags fd opts \<longleftrightarrow> MSG_NOSIGNAL \<notin> flags \<and> SO_NOSIGPIPE \<notin> opts fd"

text \<open>
  A socket prepared as \<open>run\<close> and \<open>connect_to\<close> prepare it never kills the process by a write, where the
  flag exists or the option exists and was accepted; preparing other sockets later changes nothing.
\<close>

lemma prepared_socket_never_raises:
  assumes "has_MSG_NOSIGNAL p \<or> has_SO_NOSIGPIPE p \<and> accepted"
  shows "\<not> raises_sigpipe (kSendFlags p) fd
    (set_no_sigpipe p a1 fd' (set_tcp_nodelay a2 fd' (set_no_sigpipe p accepted fd (set_tcp_nodelay a3 fd opts))))"
  using assms
  by (auto simp: raises_sigpipe_def kSendFlags_def set_no_sigpipe_def set_tcp_nodelay_def setsockopt_on_def)

section \<open>Ownership of descriptors\<close>

text \<open>
  \<open>Socket\<close> objects own descriptors: \<open>so_fd\<close> gives the field \<open>fd_\<close> of every live object
  (\<open>None\<close>: no such object), \<open>so_open\<close> the descriptors the kernel has open, \<open>so_bad\<close> whether
  some \<open>::close\<close> hit a descriptor that was not open.
\<close>

definition kInvalid :: int where
  "kInvalid = - 1"

record socket_world =
  so_fd :: "nat \<Rightarrow> int option"
  so_open :: "int set"
  so_bad :: bool

definition socket_close :: "nat \<Rightarrow> socket_world \<Rightarrow> socket_world" where
  "socket_close x w =
     (case so_fd w x of
        None \<Rightarrow> w
      | Some fd \<Rightarrow>
          if fd \<noteq> kInvalid
          then w\<lparr>so_fd := (so_fd w)(x \<mapsto> kInvalid), so_open := so_open w - {fd}, so_bad := (so_bad w \<or> fd \<notin> so_open w)\<rparr>
          else w)"

definition socket_default :: "nat \<Rightarrow> socket_world \<Rightarrow> socket_world" where
  "socket_default x w = w\<lparr>so_fd := (so_fd w)(x \<mapsto> kInvalid)\<rparr>"

text \<open>\<open>Socket(::socket(...))\<close> or \<open>Socket(::accept(...))\<close>: the kernel's answer, \<open>-1\<close> on failure.\<close>

definition socket_adopt :: "nat \<Rightarrow> int \<Rightarrow> socket_world \<Rightarrow> socket_world" where
  "socket_adopt x fd w =
     w\<lparr>so_fd := (so_fd w)(x \<mapsto> fd), so_open := (if fd = kInvalid then so_open w else insert fd (so_open w))\<rparr>"

definition socket_move_construct :: "nat \<Rightarrow> nat \<Rightarrow> socket_world \<Rightarrow> socket_world" where
  "socket_move_construct x y w = w\<lparr>so_fd := (so_fd w)(x := so_fd w y, y \<mapsto> kInvalid)\<rparr>"

definition socket_move_assign :: "nat \<Rightarrow> nat \<Rightarrow> socket_world \<Rightarrow> socket_world" where
  "socket_move_assign x y w =
     (if x \<noteq> y
      then let w' = socket_close x w in w'\<lparr>so_fd := (so_fd w')(x := so_fd w' y, y \<mapsto> kInvalid)\<rparr>
      else w)"

definition socket_destroy :: "nat \<Rightarrow> socket_world \<Rightarrow> socket_world" where
  "socket_destroy x w = (let w' = socket_close x w in w'\<lparr>so_fd := (so_fd w')(x := None)\<rparr>)"

definition socket_get :: "nat \<Rightarrow> socket_world \<Rightarrow> int option" where
  "socket_get x w = so_fd w x"

definition socket_valid :: "nat \<Rightarrow> socket_world \<Rightarrow> bool" where
  "socket_valid x w \<longleftrightarrow> (case so_fd w x of None \<Rightarrow> False | Some fd \<Rightarrow> fd \<noteq> kInvalid)"

inductive socket_step :: "socket_world \<Rightarrow> socket_world \<Rightarrow> bool" where
  construct: "so_fd w x = None \<Longrightarrow> socket_step w (socket_default x w)"
| adopt: "so_fd w x = None \<Longrightarrow> fd \<notin> so_open w \<Longrightarrow> socket_step w (socket_adopt x fd w)"
| move_construct: "so_fd w x = None \<Longrightarrow> so_fd w y \<noteq> None \<Longrightarrow> socket_step w (socket_move_construct x y w)"
| move_assign: "so_fd w x \<noteq> None \<Longrightarrow> so_fd w y \<noteq> None \<Longrightarrow> socket_step w (socket_move_assign x y w)"
| close: "so_fd w x \<noteq> None \<Longrightarrow> socket_step w (socket_close x w)"
| destroy: "so_fd w x \<noteq> None \<Longrightarrow> socket_step w (socket_destroy x w)"

definition socket_inv :: "socket_world \<Rightarrow> bool" where
  "socket_inv w \<longleftrightarrow> \<not> so_bad w \<and> kInvalid \<notin> so_open w \<and>
     (\<forall>fd. fd \<in> so_open w \<longleftrightarrow> fd \<noteq> kInvalid \<and> (\<exists>x. so_fd w x = Some fd)) \<and>
     (\<forall>x y fd. so_fd w x = Some fd \<longrightarrow> so_fd w y = Some fd \<longrightarrow> fd \<noteq> kInvalid \<longrightarrow> x = y)"

definition socket_start :: socket_world where
  "socket_start = \<lparr>so_fd = (\<lambda>_. None), so_open = {}, so_bad = False\<rparr>"

lemma socket_close_inv: "socket_inv w \<Longrightarrow> socket_inv (socket_close x w)"
  unfolding socket_inv_def socket_close_def by (auto split: option.splits) (metis option.inject)

lemma socket_close_gives_up: "so_fd w x \<noteq> None \<Longrightarrow> so_fd (socket_close x w) x = Some kInvalid"
  by (auto simp: socket_close_def)

lemma socket_close_other: "y \<noteq> x \<Longrightarrow> so_fd (socket_close x w) y = so_fd w y"
  by (simp add: socket_close_def split: option.splits)

lemma socket_transfer_inv:
  assumes "socket_inv w" and "so_fd w x = None \<or> so_fd w x = Some kInvalid" and "so_fd w y \<noteq> None" and "x \<noteq> y"
  shows "socket_inv (w\<lparr>so_fd := (so_fd w)(x := so_fd w y, y \<mapsto> kInvalid)\<rparr>)"
  using assms unfolding socket_inv_def by auto (metis option.distinct(1) option.inject)+


lemma socket_step_inv:
  assumes inv: "socket_inv w" and "socket_step w w'"
  shows "socket_inv w'"
  using assms(2)
proof cases
  case (construct x)
  then show ?thesis using inv unfolding socket_inv_def socket_default_def by auto (metis option.distinct(1))
next
  case (adopt x fd)
  then show ?thesis using inv unfolding socket_inv_def socket_adopt_def by auto (metis option.distinct(1))+
next
  case (move_construct x y)
  then have "x \<noteq> y" by auto
  with move_construct socket_transfer_inv [OF inv, of x y] show ?thesis by (simp add: socket_move_construct_def)
next
  case (move_assign x y)
  then show ?thesis
    using socket_transfer_inv [OF socket_close_inv [OF inv], of x x y] socket_close_gives_up [of w x]
      socket_close_other [of y x w] inv
    by (simp add: socket_move_assign_def Let_def)
next
  case (close x)
  then show ?thesis using socket_close_inv [OF inv] by simp
next
  case (destroy x)
  note closed = socket_close_inv [OF inv, of x] socket_close_gives_up [OF destroy(2)]
  have "socket_inv (w1\<lparr>so_fd := (so_fd w1)(x := None)\<rparr>)" if "socket_inv w1" "so_fd w1 x = Some kInvalid" for w1
    using that unfolding socket_inv_def by auto (metis option.inject)
  with closed destroy(1) show ?thesis by (simp add: socket_destroy_def Let_def)
qed

interpretation sockets: step_invariant socket_step socket_inv
  by unfold_locales (rule socket_step_inv)

text \<open>
  C40. File descriptors have exactly one owner: in every sequence of constructions, moves, closes and
  destructions of \<open>Socket\<close> objects, no descriptor is closed twice or after it was given up, no two
  objects hold the same one, and the descriptors open in the kernel are exactly those some
  live object holds, so none leaks.
\<close>

theorem descriptors_owned_once:
  assumes "socket_step\<^sup>*\<^sup>* socket_start w"
  shows "\<not> so_bad w \<and> so_open w = {fd. fd \<noteq> kInvalid \<and> (\<exists>!x. so_fd w x = Some fd)}"
proof -
  have "socket_inv socket_start" by (simp add: socket_inv_def socket_start_def)
  from sockets.reach_inv [OF assms this] show ?thesis unfolding socket_inv_def by blast
qed

theorem descriptors_owned_once_witness:
  "\<not> so_bad (socket_destroy 1 (socket_move_construct 1 0 (socket_adopt 0 5 socket_start))) \<and>
     so_open (socket_destroy 1 (socket_move_construct 1 0 (socket_adopt 0 5 socket_start))) = {}"
proof -
  let ?a = "socket_adopt 0 5 socket_start" and ?m = "socket_move_construct 1 0 (socket_adopt 0 5 socket_start)"
  have "socket_step socket_start ?a" by (rule adopt) (simp_all add: socket_start_def)
  moreover have "socket_step ?a ?m" by (rule move_construct) (simp_all add: socket_start_def socket_adopt_def)
  moreover have "socket_step ?m (socket_destroy 1 ?m)"
    by (rule destroy) (simp add: socket_start_def socket_adopt_def socket_move_construct_def)
  ultimately have "socket_step\<^sup>*\<^sup>* socket_start (socket_destroy 1 ?m)" by (metis rtranclp.simps)
  from descriptors_owned_once [OF this] show ?thesis
    by (auto simp: socket_start_def socket_adopt_def socket_move_construct_def socket_destroy_def socket_close_def
        kInvalid_def Let_def)
qed

end
