(* ===== verification/Connection.thy ===== *)
theory Connection
  imports Handler_Properties Line_Buffer Socket
begin

text \<open>
  One client's connection (\<open>include/cachex/connection.hpp\<close>, \<open>src/net/connection.cpp\<close>): read,
  re-frame, parse, execute, reply. What the kernel answers to \<open>recv\<close> and \<open>send\<close> and what the
  commands read from outside (indexed by the number of commands handled) are arguments. A run
  ends when \<open>serve\<close> returns or blocks for want of an answer.
\<close>

definition kReadChunkBytes :: nat where
  "kReadChunkBytes = 16 * 1024"

datatype recv_outcome = Received string | RecvEof | RecvEintr | RecvErr

record connection =
  cn_handled :: nat
  cn_store :: store_state
  cn_sends :: "send_outcome list"
  cn_out :: string

datatype line_end = Continue | StopServing | StillSending

text \<open>\<open>send_all(socket_.get(), data)\<close>: \<open>None\<close> when blocked.\<close>

definition conn_send :: "string \<Rightarrow> connection \<Rightarrow> connection \<times> bool option" where
  "conn_send data c =
     (case send_all (cn_sends c) data of
        None \<Rightarrow> (c\<lparr>cn_sends := []\<rparr>, None)
      | Some (ok, out, rest) \<Rightarrow> (c\<lparr>cn_sends := rest, cn_out := cn_out c @ out\<rparr>, Some ok))"

definition handle_line :: "hash_fn \<Rightarrow> string option \<Rightarrow> (nat \<Rightarrow> exec_env) \<Rightarrow> string \<Rightarrow> connection \<Rightarrow>
    (connection \<times> line_end) defined" where
  "handle_line h p envs line c =
     (let parsed = parse_command line
      in if \<not> pr_ok parsed
         then (case conn_send (reply_error (pr_error parsed)) c of
                 (c', r) \<Rightarrow> Some (c', case r of None \<Rightarrow> StillSending | Some ok \<Rightarrow> if ok then Continue else StopServing))
         else do {
           let c = c\<lparr>cn_handled := cn_handled c + 1\<rparr>;
           (s, reply) \<leftarrow> execute h p (envs (cn_handled c)) (pr_command parsed) (cn_store c);
           case conn_send reply (c\<lparr>cn_store := s\<rparr>) of
             (c', r) \<Rightarrow> Some (c',
               case r of None \<Rightarrow> StillSending
               | Some ok \<Rightarrow> if \<not> ok then StopServing
                          else if cmd_type (pr_command parsed) \<noteq> CQuit then Continue else StopServing)
         })"

text \<open>The inner loop: every complete line already buffered.\<close>

function serve_lines :: "hash_fn \<Rightarrow> string option \<Rightarrow> (nat \<Rightarrow> exec_env) \<Rightarrow> line_buffer \<Rightarrow> connection \<Rightarrow>
    (line_buffer \<times> connection \<times> line_end) defined" where
  "serve_lines h p envs b c =
     (case next_line b of
        (b', None) \<Rightarrow> Some (b', c, Continue)
      | (b', Some line) \<Rightarrow> do {
          (c', e) \<leftarrow> handle_line h p envs line c;
          if e = Continue then serve_lines h p envs b' c' else Some (b', c', e)
        })"
  by auto
termination
  by (relation "measure (\<lambda>(h, p, envs, b, c). length (lb_buffer b))") (auto dest: lb.nxt_shrinks [OF sym])

declare serve_lines.simps [simp del]

datatype serve_end = ServeReturned | ServeBlocked

definition too_long_reply :: string where
  "too_long_reply = reply_error (''line too long (maximum '' @ to_string_nat kMaxLineBytes @
     '' bytes); closing connection'')"

text \<open>\<open>serve\<close>, with \<open>fill_buffer\<close> one answer of \<open>recv\<close> at a time.\<close>

fun fill_buffer :: "recv_outcome \<Rightarrow> line_buffer \<Rightarrow> line_buffer \<times> bool" where
  "fill_buffer (Received chunk) b = (lb_append chunk b, True)"
| "fill_buffer RecvEof b = (b, False)"
| "fill_buffer RecvEintr b = (b, True)"
| "fill_buffer RecvErr b = (b, False)"

fun serve :: "hash_fn \<Rightarrow> string option \<Rightarrow> (nat \<Rightarrow> exec_env) \<Rightarrow> recv_outcome list \<Rightarrow> line_buffer \<Rightarrow> connection \<Rightarrow>
    (serve_end \<times> line_buffer \<times> connection) defined" where
  "serve h p envs rs b c = do {
     (b', c', e) \<leftarrow> serve_lines h p envs b c;
     case e of
       StopServing \<Rightarrow> Some (ServeReturned, b', c')
     | StillSending \<Rightarrow> Some (ServeBlocked, b', c')
     | Continue \<Rightarrow>
         if lb_buffered b' > kMaxLineBytes
         then (case conn_send too_long_reply c' of
                 (c2, r) \<Rightarrow> Some (if r = None then ServeBlocked else ServeReturned, b', c2))
         else (case rs of
                 [] \<Rightarrow> Some (ServeBlocked, b', c')
               | r # rs' \<Rightarrow>
                   (case fill_buffer r b' of
                      (b2, True) \<Rightarrow> serve h p envs rs' b2 c'
                    | (b2, False) \<Rightarrow> Some (ServeReturned, b2, c')))
   }"

declare serve.simps [simp del]

section \<open>Every run is defined\<close>

definition conn_inv :: "hash_fn \<Rightarrow> connection \<Rightarrow> bool" where
  "conn_inv h c \<longleftrightarrow> store_inv h (cn_store c)"

lemma conn_send_store [simp]: "cn_store (fst (conn_send data c)) = cn_store c" "cn_handled (fst (conn_send data c)) = cn_handled c"
  by (simp_all add: conn_send_def split: option.splits prod.splits)

lemma handle_line_defined:
  assumes "conn_inv h c"
  shows "\<exists>c' e. handle_line h p envs line c = Some (c', e) \<and> conn_inv h c'"
proof (cases "pr_ok (parse_command line)")
  case False
  then show ?thesis
    using assms conn_send_store(1) [of "reply_error (pr_error (parse_command line))" c]
    by (cases "conn_send (reply_error (pr_error (parse_command line))) c") (simp add: handle_line_def conn_inv_def)
next
  case True
  obtain s reply where s: "execute h p (envs (Suc (cn_handled c))) (pr_command (parse_command line)) (cn_store c) = Some (s, reply)"
    "store_inv h s"
    using execute_defined assms unfolding conn_inv_def by blast
  let ?c = "c\<lparr>cn_handled := Suc (cn_handled c), cn_store := s\<rparr>"
  show ?thesis
    using True s conn_send_store(1) [of reply ?c]
    by (cases "conn_send reply ?c") (simp add: handle_line_def conn_inv_def)
qed

lemma serve_lines_defined:
  "conn_inv h c \<Longrightarrow> \<exists>b' c' e. serve_lines h p envs b c = Some (b', c', e) \<and> conn_inv h c'"
proof (induction h p envs b c rule: serve_lines.induct)
  case (1 h p envs b c)
  show ?case
  proof (cases "next_line b")
    case (Pair b' l)
    show ?thesis
    proof (cases l)
      case None
      with Pair 1(2) show ?thesis by (subst serve_lines.simps) simp
    next
      case (Some line)
      obtain c1 e where c1: "handle_line h p envs line c = Some (c1, e)" "conn_inv h c1"
        using handle_line_defined [OF 1(2)] by blast
      with 1(1) [OF Pair [symmetric] Some c1(1) refl] Pair Some show ?thesis
        by (subst serve_lines.simps) (cases "e = Continue"; simp)
    qed
  qed
qed

lemma serve_defined:
  "conn_inv h c \<Longrightarrow> \<exists>e b' c'. serve h p envs rs b c = Some (e, b', c') \<and> conn_inv h c'"
proof (induction rs arbitrary: b c)
  case Nil
  obtain b1 c1 e where s: "serve_lines h p envs b c = Some (b1, c1, e)" "conn_inv h c1"
    using serve_lines_defined [OF Nil] by blast
  then show ?case using conn_send_store(1) [of too_long_reply c1]
    by (subst serve.simps) (cases "conn_send too_long_reply c1"; cases e; simp add: conn_inv_def)
next
  case (Cons r rs)
  obtain b1 c1 e where s: "serve_lines h p envs b c = Some (b1, c1, e)" "conn_inv h c1"
    using serve_lines_defined [OF Cons.prems] by blast
  show ?case using s Cons.IH [OF s(2)] conn_send_store(1) [of too_long_reply c1]
    by (subst serve.simps)
      (cases "conn_send too_long_reply c1"; cases e; cases "fill_buffer r b1"; cases "snd (fill_buffer r b1)";
        simp add: conn_inv_def)
qed

end
