(* ===== verification/Connection_Properties.thy ===== *)
theory Connection_Properties
  imports Connection
begin

text \<open>
  What a connection promises: the conversation a client has is that of its request lines handled one
  after the other, however the bytes were cut into reads and the replies into sends; and the
  memory a client can make the server hold is bounded.
\<close>

section \<open>The conversation as a function of the request lines\<close>

type_synonym session_state = "nat \<times> store_state"

definition respond :: "hash_fn \<Rightarrow> string option \<Rightarrow> (nat \<Rightarrow> exec_env) \<Rightarrow> string \<Rightarrow> session_state \<Rightarrow>
    (session_state \<times> string \<times> bool) defined" where
  "respond h p envs line st =
     (let parsed = parse_command line
      in if pr_ok parsed
         then map_option (\<lambda>(s, reply). ((fst st + 1, s), reply, cmd_type (pr_command parsed) \<noteq> CQuit))
                (execute h p (envs (fst st + 1)) (pr_command parsed) (snd st))
         else Some (st, reply_error (pr_error parsed), True))"

definition prepend :: "string \<Rightarrow> (session_state \<times> string \<times> bool) defined \<Rightarrow> (session_state \<times> string \<times> bool) defined" where
  "prepend reply = map_option (\<lambda>(st, out, go). (st, reply @ out, go))"

lemma prepend_simps [simp]:
  "prepend reply None = None" "prepend reply (Some (st, out, go)) = Some (st, reply @ out, go)"
  "prepend [] r = r" "prepend a (prepend b r) = prepend (a @ b) r"
  "(prepend reply r = None) = (r = None)"
  by (cases r; auto simp: prepend_def)+

lemma prepend_eq_Some [simp]:
  "prepend reply r = Some (st, out, go) \<longleftrightarrow> (\<exists>out1. r = Some (st, out1, go) \<and> out = reply @ out1)"
  by (cases r) (auto simp: prepend_def)

fun session :: "hash_fn \<Rightarrow> string option \<Rightarrow> (nat \<Rightarrow> exec_env) \<Rightarrow> string list \<Rightarrow> session_state \<Rightarrow>
    (session_state \<times> string \<times> bool) defined" where
  "session h p envs [] st = Some (st, [], True)"
| "session h p envs (line # ls) st = do {
     (st1, reply, go) \<leftarrow> respond h p envs line st;
     if go then prepend reply (session h p envs ls st1)
     else Some (st1, reply, False)
   }"

lemma respond_defined:
  assumes "store_inv h (snd st)"
  shows "\<exists>st1 reply go. respond h p envs line st = Some (st1, reply, go) \<and> store_inv h (snd st1)"
  using assms execute_defined [OF assms, of p "envs (fst st + 1)" "pr_command (parse_command line)"]
  by (cases st) (auto simp: respond_def Let_def)

lemma session_defined:
  "store_inv h (snd st) \<Longrightarrow> \<exists>st1 out go. session h p envs ls st = Some (st1, out, go) \<and> store_inv h (snd st1)"
proof (induction ls arbitrary: st)
  case (Cons line ls)
  obtain st1 reply go where r: "respond h p envs line st = Some (st1, reply, go)" "store_inv h (snd st1)"
    using respond_defined [OF Cons.prems] by blast
  with Cons.IH [OF r(2)] show ?case by (cases go) auto
qed (auto intro: exI [of _ True])

lemma session_append:
  "session h p envs (xs @ ys) st =
     (case session h p envs xs st of
        None \<Rightarrow> None
      | Some (st1, out, True) \<Rightarrow> prepend out (session h p envs ys st1)
      | Some (st1, out, False) \<Rightarrow> Some (st1, out, False))"
  by (induction xs arbitrary: st)
    (auto split: option.splits bool.splits bind_splits)

definition conn_state :: "connection \<Rightarrow> session_state" where
  "conn_state c = (cn_handled c, cn_store c)"

definition conn_after :: "connection \<Rightarrow> session_state \<Rightarrow> string \<Rightarrow> send_outcome list \<Rightarrow> connection" where
  "conn_after c st out rest = c\<lparr>cn_handled := fst st, cn_store := snd st, cn_sends := rest, cn_out := cn_out c @ out\<rparr>"

lemma conn_after_simps [simp]:
  "conn_state (conn_after c st out rest) = st" "cn_sends (conn_after c st out rest) = rest"
  "cn_out (conn_after c st out rest) = cn_out c @ out"
  "conn_after (conn_after c st out rest) st' out' rest' = conn_after c st' (out @ out') rest'"
  "conn_after c (conn_state c) [] (cn_sends c) = c"
  by (simp_all add: conn_after_def conn_state_def)

section \<open>With a working socket the loops compute the conversation\<close>

lemma handle_line_respond:
  assumes "respond h p envs line (conn_state c) = Some (st, reply, go)" and "reliable (length reply + m) (cn_sends c)"
  shows "\<exists>rest. handle_line h p envs line c = Some (conn_after c st reply rest, if go then Continue else StopServing) \<and>
    reliable m rest"
proof -
  obtain rest where rest: "send_all (cn_sends c) reply = Some (True, reply, rest)" "reliable m rest"
    using send_all_reliable [OF assms(2)] by blast
  with assms(1) show ?thesis
    by (auto simp: respond_def handle_line_def conn_send_def conn_after_def conn_state_def Let_def split: if_splits)
qed

lemma serve_lines_session:
  "session h p envs (fst (frames [] (lb_buffer b))) (conn_state c) = Some (st, out, go) \<Longrightarrow>
   reliable (length out + m) (cn_sends c) \<Longrightarrow>
   \<exists>b' rest. serve_lines h p envs b c = Some (b', conn_after c st out rest, if go then Continue else StopServing) \<and>
     reliable m rest \<and> (go \<longrightarrow> lb_buffer b' = snd (frames [] (lb_buffer b)))"
proof (induction h p envs b c arbitrary: st out go rule: serve_lines.induct)
  case (1 h p envs b c)
  show ?case
  proof (cases "next_line b")
    case (Pair b1 l)
    show ?thesis
    proof (cases l)
      case None
      with Pair lb.nxt_frames [of b] 1(2,3) show ?thesis
        by (subst serve_lines.simps) (auto intro: exI [of _ "cn_sends c"])
    next
      case (Some line)
      have fr: "frames [] (lb_buffer b) = apfst (\<lambda>ls. line # ls) (frames [] (lb_buffer b1))"
        using lb.nxt_frames [of b] Pair Some by simp
      obtain st1 reply go1 where r: "respond h p envs line (conn_state c) = Some (st1, reply, go1)"
        using 1(2) fr by (auto simp: bind_eq_Some_conv)
      show ?thesis
      proof (cases go1)
        case False
        with 1(2,3) fr r handle_line_respond [OF r] Pair Some show ?thesis
          by (subst serve_lines.simps) fastforce
      next
        case True
        then obtain out1 where out: "session h p envs (fst (frames [] (lb_buffer b1))) st1 = Some (st, out1, go)"
          "out = reply @ out1"
          using 1(2) fr r by auto
        obtain rest where h: "handle_line h p envs line c = Some (conn_after c st1 reply rest, Continue)"
          "reliable (length out1 + m) rest"
          using handle_line_respond [OF r, of "length out1 + m"] 1(3) True out(2) by (auto simp: add.assoc)
        from 1(1) [OF Pair [symmetric] Some h(1) refl refl, of st out1 go] out h(2) fr Pair Some h(1)
        show ?thesis by (subst serve_lines.simps) auto
      qed
    qed
  qed
qed

section \<open>Reading\<close>

fun got_input :: "recv_outcome \<Rightarrow> bool" where
  "got_input (Received chunk) \<longleftrightarrow> True"
| "got_input RecvEintr \<longleftrightarrow> True"
| "got_input _ \<longleftrightarrow> False"

fun chunk_of :: "recv_outcome \<Rightarrow> string" where
  "chunk_of (Received chunk) = chunk"
| "chunk_of _ = []"

definition stream_of :: "recv_outcome list \<Rightarrow> string" where
  "stream_of rs = concat (map chunk_of rs)"

text \<open>No run of bytes without a newline is longer than \<open>m\<close>; \<open>k\<close> bytes of the first are already read.\<close>

fun runs_le :: "nat \<Rightarrow> nat \<Rightarrow> string \<Rightarrow> bool" where
  "runs_le m k [] \<longleftrightarrow> k \<le> m"
| "runs_le m k (c # cs) \<longleftrightarrow> k \<le> m \<and> runs_le m (if c = LF then 0 else k + 1) cs"

lemma runs_le_frames:
  "runs_le m (length acc) (xs @ ys) \<Longrightarrow>
   length (snd (frames acc xs)) \<le> m \<and> runs_le m (length (snd (frames acc xs))) ys"
proof (induction acc xs rule: frames.induct)
  case (1 acc)
  then show ?case by (cases ys) auto
qed (auto split: if_splits)

lemma runs_le_no_LF: "LF \<notin> set xs \<Longrightarrow> runs_le m (k + length xs) ys \<Longrightarrow> runs_le m k (xs @ ys)"
proof (induction xs arbitrary: k)
  case (Cons x xs)
  have "k \<le> m" using Cons.prems(2) by (cases ys) auto
  with Cons show ?case by auto
qed simp

lemma runs_le_rest:
  assumes "runs_le m 0 (buf @ ys)"
  shows "length (snd (frames [] buf)) \<le> m \<and> runs_le m 0 (snd (frames [] buf) @ ys)"
  using runs_le_frames [of m "[]" buf ys] assms frames_rest_no_LF [of "[]" buf]
    runs_le_no_LF [of "snd (frames [] buf)" m 0 ys] by auto

lemma session_split:
  assumes "session h p envs (fst (frames [] (buf @ ys))) st = Some (st2, out, go)"
  obtains (more) st1 out1 out2 where "session h p envs (fst (frames [] buf)) st = Some (st1, out1, True)"
      "session h p envs (fst (frames [] (snd (frames [] buf) @ ys))) st1 = Some (st2, out2, go)" "out = out1 @ out2"
    | (stop) "session h p envs (fst (frames [] buf)) st = Some (st2, out, False)" "\<not> go"
  using assms frames_acc [OF frames_rest_no_LF [of "[]" buf], of ys]
  by (auto simp: frames_append [of "[]" buf] session_append split: option.splits bool.splits)

lemma serve_session:
  "list_all got_input rs \<Longrightarrow> list_all (\<lambda>r. \<not> got_input r) ends \<Longrightarrow>
   runs_le kMaxLineBytes 0 (lb_buffer b @ stream_of rs) \<Longrightarrow>
   session h p envs (fst (frames [] (lb_buffer b @ stream_of rs))) (conn_state c) = Some (st, out, go) \<Longrightarrow>
   reliable (length out) (cn_sends c) \<Longrightarrow>
   \<exists>b' rest. serve h p envs (rs @ ends) b c =
     Some (if go \<and> ends = [] then ServeBlocked else ServeReturned, b', conn_after c st out rest)"
proof (induction rs arbitrary: b c out)
  case Nil
  obtain b' rest where "serve_lines h p envs b c = Some (b', conn_after c st out rest, if go then Continue else StopServing)"
    "go \<longrightarrow> lb_buffer b' = snd (frames [] (lb_buffer b))"
    using serve_lines_session [of h p envs b c st out go 0] Nil.prems(4,5) by (auto simp: stream_of_def)
  with runs_le_rest [OF Nil.prems(3)] Nil.prems(2) show ?case
    by (cases ends; cases "hd ends") (subst serve.simps, auto simp: lb_buffered_def)+
next
  case (Cons r rs)
  have stream: "stream_of (r # rs) = chunk_of r @ stream_of rs" by (simp add: stream_of_def)
  from Cons.prems(4) show ?case
  proof (cases rule: session_split)
    case stop
    with serve_lines_session [OF stop(1), of 0] Cons.prems(5) show ?thesis by (subst serve.simps) auto
  next
    case (more st1 out1 out2)
    obtain b' rest where sl: "serve_lines h p envs b c = Some (b', conn_after c st1 out1 rest, Continue)"
      "reliable (length out2) rest" "lb_buffer b' = snd (frames [] (lb_buffer b))"
      using serve_lines_session [OF more(1), of "length out2"] Cons.prems(5) more(3) by auto
    define b2 where "b2 = b'\<lparr>lb_buffer := lb_buffer b' @ chunk_of r\<rparr>"
    have b2: "fill_buffer r b' = (b2, True)" "lb_buffer b2 = lb_buffer b' @ chunk_of r"
      using Cons.prems(1) unfolding b2_def by (cases r; simp add: lb_append_def)+
    have runs: "length (lb_buffer b') \<le> kMaxLineBytes" "runs_le kMaxLineBytes 0 (lb_buffer b2 @ stream_of rs)"
      using runs_le_rest [OF Cons.prems(3)] sl(3) b2(2) stream by auto
    from Cons.IH [of b2 "conn_after c st1 out1 rest" out2] Cons.prems(1,2) runs(2) more sl b2 stream
    obtain b3 rest3 where "serve h p envs (rs @ ends) b2 (conn_after c st1 out1 rest) =
        Some (if go \<and> ends = [] then ServeBlocked else ServeReturned, b3, conn_after c st out rest3)"
      by auto
    with sl(1) more(3) b2(1) runs(1) show ?thesis by (subst serve.simps) (auto simp: lb_buffered_def)
  qed
qed

section \<open>Bounds, and returning\<close>

lemma serve_lines_rest:
  "serve_lines h p envs b c = Some (b', c', e) \<Longrightarrow>
   length (lb_buffer b') \<le> length (lb_buffer b) \<and> (e = StillSending \<longrightarrow> cn_sends c' = [])"
proof (induction h p envs b c arbitrary: b' c' e rule: serve_lines.induct)
  case (1 h p envs b c)
  have sent: "cn_sends c2 = []" if "handle_line h p envs line c = Some (c2, StillSending)" for line c2
    using that by (auto simp: handle_line_def conn_send_def Let_def split: if_splits option.splits prod.splits bind_splits)
  obtain b1 l where n: "next_line b = (b1, l)" by (cases "next_line b")
  show ?case
  proof (cases l)
    case None
    with 1(2) n lb.nxt_none [of b] show ?thesis
      by (subst (asm) serve_lines.simps) (auto simp: next_line_def Let_def split: option.splits)
  next
    case (Some line)
    then obtain c2 e2 where h: "handle_line h p envs line c = Some (c2, e2)"
      using 1(2) n by (subst (asm) serve_lines.simps) (auto simp: bind_eq_Some_conv)
    have shrink: "length (lb_buffer b1) < length (lb_buffer b)" using lb.nxt_shrinks n Some by blast
    show ?thesis
    proof (cases "e2 = Continue")
      case True
      with 1(2) n Some h have "serve_lines h p envs b1 c2 = Some (b', c', e)"
        by (subst (asm) serve_lines.simps) simp
      with 1(1) [OF n [symmetric] Some h refl True] shrink show ?thesis by fastforce
    next
      case False
      with 1(2) n Some h shrink sent [of line c2] show ?thesis by (subst (asm) serve_lines.simps) auto
    qed
  qed
qed

lemma serve_bounds:
  "serve h p envs rs b c = Some (e, b', c') \<Longrightarrow> \<forall>r \<in> set rs. length (chunk_of r) \<le> k \<Longrightarrow>
   length (lb_buffer b) \<le> kMaxLineBytes + k \<Longrightarrow>
   length (lb_buffer b') \<le> kMaxLineBytes + k \<and>
     (e = ServeBlocked \<longrightarrow> cn_sends c' = [] \<or> list_all got_input rs)"
proof (induction rs arbitrary: b c)
  case Nil
  from Nil.prems(1) obtain b1 c1 e1 where s: "serve_lines h p envs b c = Some (b1, c1, e1)"
    by (subst (asm) serve.simps) (auto simp: bind_eq_Some_conv)
  from serve_lines_rest [OF s] Nil.prems s show ?case
    by (subst (asm) serve.simps) (auto split: line_end.splits if_splits prod.splits)
next
  case (Cons r rs)
  from Cons.prems(1) obtain b1 c1 e1 where s: "serve_lines h p envs b c = Some (b1, c1, e1)"
    by (subst (asm) serve.simps) (auto simp: bind_eq_Some_conv)
  note rest = serve_lines_rest [OF s]
  have blocked: "cn_sends (fst (conn_send too_long_reply c1)) = []" if "snd (conn_send too_long_reply c1) = None"
    using that by (auto simp: conn_send_def split: option.splits)
  show ?case
  proof (cases "e1 = Continue \<and> lb_buffered b1 \<le> kMaxLineBytes \<and> got_input r")
    case True
    define b2 where "b2 = fst (fill_buffer r b1)"
    have b2: "fill_buffer r b1 = (b2, True)" "length (lb_buffer b2) \<le> kMaxLineBytes + k"
      using True Cons.prems(2) unfolding b2_def by (cases r; auto simp: lb_append_def lb_buffered_def)+
    have "serve h p envs rs b2 c1 = Some (e, b', c')"
      using Cons.prems(1) s True b2(1) by (subst (asm) serve.simps) (auto simp: not_less)
    from Cons.IH [OF this _ b2(2)] Cons.prems(2) True show ?thesis by auto
  next
    case False
    with Cons.prems s rest blocked show ?thesis
      by (subst (asm) serve.simps) (cases r; auto split: line_end.splits if_splits prod.splits)
  qed
qed

section \<open>Properties\<close>

text \<open>
  C30. A client whose lines keep to the limit gets the conversation of its request lines: whatever
  pieces the bytes arrive in, interrupted reads included, and however the replies are cut into
  sends, the bytes sent back are the replies to the lines of the whole stream in order, each
  command executed once on the state the previous ones left, up to the first QUIT. The loop then
  waits for more input, or has returned after a QUIT or the end of the input.
\<close>

theorem conversation_independent_of_chunks:
  assumes "conn_inv h c" and "list_all got_input rs" and "list_all (\<lambda>r. \<not> got_input r) ends"
    and "runs_le kMaxLineBytes 0 (stream_of rs)"
    and "\<And>st out go. session h p envs (fst (frames [] (stream_of rs))) (conn_state c) = Some (st, out, go) \<Longrightarrow>
      reliable (length out) (cn_sends c)"
  shows "\<exists>st out go b' rest.
    session h p envs (fst (frames [] (stream_of rs))) (conn_state c) = Some (st, out, go) \<and>
    serve h p envs (rs @ ends) lb_fresh c =
      Some (if go \<and> ends = [] then ServeBlocked else ServeReturned, b', conn_after c st out rest)"
proof -
  obtain st out go where s: "session h p envs (fst (frames [] (stream_of rs))) (conn_state c) = Some (st, out, go)"
    using session_defined [of h "conn_state c" p envs "fst (frames [] (stream_of rs))"] assms(1)
    unfolding conn_inv_def conn_state_def by auto
  with serve_session [OF assms(2,3), of lb_fresh h p envs c st out go] assms(4) assms(5) [OF s] show ?thesis
    by (simp add: lb_fresh_def)
qed

text \<open>
  C34. No client can make a connection hold more than a line and a read: whatever it sends and
  whatever the kernel answers, the handler neither fails nor keeps more than \<open>kMaxLineBytes\<close> plus
  \<open>kReadChunkBytes\<close> bytes of input, and leaves a well-formed cache.
\<close>

theorem connection_memory_bounded:
  assumes "conn_inv h c" and "\<forall>r \<in> set rs. length (chunk_of r) \<le> kReadChunkBytes"
  shows "\<exists>e b' c'. serve h p envs rs lb_fresh c = Some (e, b', c') \<and>
    lb_buffered b' \<le> kMaxLineBytes + kReadChunkBytes \<and> conn_inv h c'"
proof -
  obtain e b' c' where s: "serve h p envs rs lb_fresh c = Some (e, b', c')" "conn_inv h c'"
    using serve_defined [OF assms(1)] by blast
  with serve_bounds [OF s(1) assms(2)] show ?thesis by (simp add: lb_fresh_def lb_buffered_def)
qed

text \<open>
  C35. A connection ends with its client: once a read reports the end of the input or an error,
  however many reads came before, \<open>serve\<close> returns, unless the kernel is still taking a reply.
\<close>

theorem connection_ends_with_client:
  assumes "conn_inv h c" and "\<not> list_all got_input rs"
  shows "\<exists>e b' c'. serve h p envs rs lb_fresh c = Some (e, b', c') \<and> (e = ServeReturned \<or> cn_sends c' = [])"
proof -
  obtain e b' c' where s: "serve h p envs rs lb_fresh c = Some (e, b', c')"
    using serve_defined [OF assms(1)] by blast
  have "\<forall>r \<in> set rs. length (chunk_of r) \<le> length (stream_of rs)"
    by (auto simp: stream_of_def length_concat intro!: member_le_sum_list)
  from serve_bounds [OF s this] assms(2) s show ?thesis by (cases e) (auto simp: lb_fresh_def)
qed

section \<open>Instances\<close>

definition demo_conn :: connection where
  "demo_conn = \<lparr>cn_handled = 0, cn_store = demo_store demo_cache,
     cn_sends = SendEintr # replicate 100 (Sent 3), cn_out = []\<rparr>"

lemma demo_conn_inv: "conn_inv (\<lambda>_. 0) demo_conn"
  by (simp add: conn_inv_def demo_conn_def demo_store_def store_inv_def demo_cache_inv)

definition demo_reads :: "recv_outcome list" where
  "demo_reads = [Received ''PI'', RecvEintr, Received (''NG'' @ [LF] @ ''FOO'' @ [CR]), Received ([LF] @ ''QUIT'' @ [LF] @ ''PI'')]"

definition demo_replies :: string where
  "demo_replies = reply_pong @ reply_error (pr_error (parse_command ''FOO'')) @ reply_bye"

lemma demo_lines: "frames [] (stream_of demo_reads) = ([''PING'', ''FOO'', ''QUIT''], ''PI'')"
  by code_simp

lemma demo_parses:
  "parse_command ''PING'' = \<lparr>pr_ok = True, pr_command = fresh_command\<lparr>cmd_type := CPing\<rparr>, pr_error = []\<rparr>" "\<not> pr_ok (parse_command ''FOO'')"
  "parse_command ''QUIT'' = \<lparr>pr_ok = True, pr_command = fresh_command\<lparr>cmd_type := CQuit\<rparr>, pr_error = []\<rparr>"
  by code_simp+

lemma demo_session:
  "session (\<lambda>_. 0) None (\<lambda>_. demo_exec 0) (fst (frames [] (stream_of demo_reads))) (conn_state demo_conn) =
     Some ((2, demo_store demo_cache), demo_replies, False)"
  by (simp add: demo_lines respond_def demo_parses Let_def execute_def conn_state_def demo_conn_def demo_replies_def)

theorem conversation_independent_of_chunks_witness:
  "\<exists>b' rest. serve (\<lambda>_. 0) None (\<lambda>_. demo_exec 0) (demo_reads @ [RecvEof]) lb_fresh demo_conn =
     Some (ServeReturned, b', conn_after demo_conn (2, demo_store demo_cache) demo_replies rest)"
proof -
  have "list_all got_input demo_reads" "runs_le kMaxLineBytes 0 (stream_of demo_reads)"
    by (simp_all add: demo_reads_def stream_of_def kMaxLineBytes_def)
  moreover have "reliable (length demo_replies) (cn_sends demo_conn)"
    by code_simp
  ultimately show ?thesis
    using conversation_independent_of_chunks [of "\<lambda>_. 0" demo_conn demo_reads "[RecvEof]" None "\<lambda>_. demo_exec 0"]
      demo_conn_inv by (simp add: demo_session)
qed

theorem connection_memory_bounded_witness:
  "\<exists>e b' c'. serve (\<lambda>_. 0) None (\<lambda>_. demo_exec 0) demo_reads lb_fresh demo_conn = Some (e, b', c') \<and>
    lb_buffered b' \<le> kMaxLineBytes + kReadChunkBytes \<and> conn_inv (\<lambda>_. 0) c'"
  using demo_conn_inv by (rule connection_memory_bounded) (simp add: demo_reads_def kReadChunkBytes_def)

theorem connection_ends_with_client_witness:
  "\<exists>e b' c'. serve (\<lambda>_. 0) None (\<lambda>_. demo_exec 0) [Received ''PI'', RecvErr] lb_fresh demo_conn = Some (e, b', c') \<and>
    (e = ServeReturned \<or> cn_sends c' = [])"
  using demo_conn_inv by (rule connection_ends_with_client) simp

end
