(* ===== verification/Version.thy ===== *)
theory Version
  imports Decimal
begin

text \<open>
  The version string (\<open>src/version.cpp\<close>), which the programs print. Its numbers come from the build
  (\<open>include/cachex/version.hpp.in\<close>) and are arguments.
\<close>

definition version_string :: "int \<Rightarrow> int \<Rightarrow> int \<Rightarrow> string" where
  "version_string kVersionMajor kVersionMinor kVersionPatch =
     to_string kVersionMajor @ ''.'' @ to_string kVersionMinor @ ''.'' @ to_string kVersionPatch"

type_synonym version = "int \<times> int \<times> int"

definition version_text :: "version \<Rightarrow> string" where
  "version_text v = (case v of (major, minor, patch) \<Rightarrow> version_string major minor patch)"

end
