(* ===== verification/Client.thy ===== *)
theory Client
  imports Connection_Properties Version
begin

text \<open>
  The command-line client (\<open>src/client_main.cpp\<close>): reading one reply through the same line buffer
  the server uses, and the loop that sends a line and prints the answer. The user's input lines
  and the answers of \<open>send\<close> and \<open>recv\<close> are arguments.
\<close>

section \<open>\<open>read_reply\<close>\<close>

text \<open>
  The reply, or \<open>None\<close> when \<open>recv\<close> reports the end or any error (an interrupted call included);
  no result when the call is still blocked.
\<close>

fun read_reply :: "recv_outcome list \<Rightarrow> line_buffer \<Rightarrow> (string option \<times> line_buffer \<times> recv_outcome list) option" where
  "read_reply rs b =
     (case next_line b of
        (b', Some line) \<Rightarrow> Some (Some line, b', rs)
      | (b', None) \<Rightarrow>
          (case rs of
             [] \<Rightarrow> None
           | Received chunk # rs' \<Rightarrow> read_reply rs' (lb_append chunk b')
           | _ # rs' \<Rightarrow> Some (None, b', rs')))"

declare read_reply.simps [simp del]

section \<open>The loop\<close>

text \<open>\<open>cl_screen\<close> is what the user sees on standard output, \<open>cl_errors\<close> on standard error.\<close>

record client =
  cl_sends :: "send_outcome list"
  cl_recvs :: "recv_outcome list"
  cl_replies :: line_buffer
  cl_sent :: string
  cl_printed :: "string list"
  cl_screen :: string
  cl_errors :: string

definition client_start :: "send_outcome list \<Rightarrow> recv_outcome list \<Rightarrow> client" where
  "client_start sends recvs = \<lparr>cl_sends = sends, cl_recvs = recvs, cl_replies = lb_fresh, cl_sent = [], cl_printed = [],
     cl_screen = [], cl_errors = []\<rparr>"

definition say :: "string \<Rightarrow> client \<Rightarrow> client" where
  "say s c = c\<lparr>cl_screen := cl_screen c @ s\<rparr>"

definition complain :: "string \<Rightarrow> client \<Rightarrow> client" where
  "complain s c = c\<lparr>cl_errors := cl_errors c @ ''cachex-client: '' @ s @ [LF]\<rparr>"

datatype client_end = ClientExit int | ClientBlocked

fun client_loop :: "string list \<Rightarrow> client \<Rightarrow> client_end \<times> client" where
  "client_loop [] c = (ClientExit 0, say (''cachex> '' @ [LF]) c)"
| "client_loop (request # inputs) c0 =
     (let c = say ''cachex> '' c0
      in if request = [] then client_loop inputs c
      else case send_all (cl_sends c) (request @ [LF]) of
        None \<Rightarrow> (ClientBlocked, c)
      | Some (ok, out, sends) \<Rightarrow>
          let c = c\<lparr>cl_sends := sends, cl_sent := cl_sent c @ out\<rparr>
          in if \<not> ok then (ClientExit 1, complain ''connection lost while sending'' c)
             else case read_reply (cl_recvs c) (cl_replies c) of
               None \<Rightarrow> (ClientBlocked, c)
             | Some (None, b, rs) \<Rightarrow>
                 (ClientExit 1, complain ''server closed the connection'' (c\<lparr>cl_replies := b, cl_recvs := rs\<rparr>))
             | Some (Some reply, b, rs) \<Rightarrow>
                 let c = say (reply @ [LF]) (c\<lparr>cl_replies := b, cl_recvs := rs, cl_printed := cl_printed c @ [reply]\<rparr>)
                 in if reply = ''+BYE'' then (ClientExit 0, c) else client_loop inputs c)"

definition print_banner :: "version \<Rightarrow> string \<Rightarrow> nat \<Rightarrow> string" where
  "print_banner version host port =
     ''CacheX client '' @ version_text version @ '' connected to '' @ host @ '':'' @ to_string_nat port @ [LF] @
     ''commands: SET key value [ttl_seconds] | GET key | DELETE key'' @ [LF] @
     ''          EXISTS key | TTL key | SAVE | LOAD | PING | QUIT'' @ [LF] @
     ''Ctrl-D or QUIT to exit'' @ [LF] @ [LF]"

text \<open>
  \<open>main\<close>: \<open>args\<close> without the program's name, \<open>resolve\<close> the network's answer for host and port.
\<close>

definition client_main :: "version \<Rightarrow> string \<Rightarrow> string list \<Rightarrow> (string \<Rightarrow> nat \<Rightarrow> string + connect_attempt list) \<Rightarrow>
    send_outcome list \<Rightarrow> recv_outcome list \<Rightarrow> string list \<Rightarrow> client_end \<times> client" where
  "client_main version program args resolve sends recvs inputs =
     (let c = client_start sends recvs;
          host = (if 1 \<le> length args then args ! 0 else ''127.0.0.1'')
      in if 2 < length args
         then (ClientExit 2, c\<lparr>cl_errors := ''usage: '' @ program @ '' [host] [port]'' @ [LF]\<rparr>)
         else case (if 2 \<le> length args then (case parse_port (args ! 1) of Some 0 \<Rightarrow> None | r \<Rightarrow> r) else Some 6379) of
           None \<Rightarrow> (ClientExit 2, complain (''invalid port '' @ [CHR 0x27] @ args ! 1 @ [CHR 0x27]) c)
         | Some port \<Rightarrow>
             (case connect_to host (resolve host port) [] of
                (None, err) \<Rightarrow> (ClientExit 1, complain (''cannot connect to '' @ host @ '':'' @ to_string_nat port @ '': '' @ err) c)
              | (Some fd, err) \<Rightarrow> client_loop inputs (say (print_banner version host port) c)))"

section \<open>Reading a reply from a stream\<close>

fun is_data :: "recv_outcome \<Rightarrow> bool" where
  "is_data (Received chunk) \<longleftrightarrow> True"
| "is_data _ \<longleftrightarrow> False"

definition incoming :: "client \<Rightarrow> string" where
  "incoming c = lb_buffer (cl_replies c) @ stream_of (cl_recvs c)"

lemma say_simps [simp]:
  "cl_sends (say s c) = cl_sends c" "cl_recvs (say s c) = cl_recvs c" "cl_sent (say s c) = cl_sent c"
  "cl_printed (say s c) = cl_printed c" "cl_replies (say s c) = cl_replies c" "incoming (say s c) = incoming c"
  by (simp_all add: say_def incoming_def)

lemma first_line_unique: "x \<notin> set l \<Longrightarrow> x \<notin> set l' \<Longrightarrow> l @ x # r = l' @ x # r' \<longleftrightarrow> l = l' \<and> r = r'"
proof (induction l arbitrary: l')
  case Nil
  then show ?case by (cases l') auto
next
  case (Cons a l)
  then show ?case by (cases l') auto
qed

lemma read_reply_line:
  assumes "list_all is_data rs" and "lb_buffer b @ stream_of rs = body @ LF # rest" and "LF \<notin> set body"
  shows "\<exists>b' rs'. read_reply rs b = Some (Some (strip_cr body), b', rs') \<and> list_all is_data rs' \<and>
    lb_buffer b' @ stream_of rs' = rest"
  using assms(1,2)
proof (induction rs arbitrary: b)
  case Nil
  then have "lb_buffer b = body @ LF # rest" by (simp add: stream_of_def)
  from lb.nxt_some [OF this assms(3)] show ?case
    by (subst read_reply.simps) (auto simp: stream_of_def)
next
  case (Cons r rs)
  obtain chunk where r: "r = Received chunk" using Cons.prems(1) by (cases r) auto
  show ?case
  proof (cases "LF \<in> set (lb_buffer b)")
    case True
    then obtain l more where l: "lb_buffer b = l @ LF # more" "LF \<notin> set l" by (meson split_list_first)
    then have "l = body" "more @ stream_of (r # rs) = rest"
      using Cons.prems(2) first_line_unique [OF l(2) assms(3)] by auto
    with lb.nxt_some [OF l] Cons.prems(1) show ?thesis by (subst read_reply.simps) auto
  next
    case False
    with lb.nxt_none [of b] Cons.IH [of "lb_append chunk b"] Cons.prems r show ?thesis
      by (subst read_reply.simps) (auto simp: stream_of_def lb_append_def)
  qed
qed

section \<open>Replies of the server, one by one\<close>

lemma reply_head_not_bye:
  "execute h p env cmd s = Some (s', reply) \<Longrightarrow> cmd_type cmd \<noteq> CQuit \<Longrightarrow> one_line reply \<Longrightarrow>
   strip_cr (butlast reply) \<noteq> ''+BYE''"
  by (auto simp: execute_def ttl_reply_def reply_defs strip_cr_def butlast_append one_line_def Let_def
      split: command_type.splits option.splits ttl_state.splits if_splits)
    (metis ttl_state.exhaust)+

lemma respond_reply:
  assumes "store_inv h (snd st)" and "cache_clean (st_cache (snd st))" and "LF \<notin> set line"
    and "\<And>n. quiet_env p (envs n)" and "cmd_type (pr_command (parse_command line)) \<noteq> CLoad"
  shows "\<exists>st' body go. respond h p envs line st = Some (st', body @ [LF], go) \<and> LF \<notin> set body \<and>
    store_inv h (snd st') \<and> cache_clean (st_cache (snd st')) \<and> (go \<longleftrightarrow> strip_cr body \<noteq> ''+BYE'')"
proof (cases "pr_ok (parse_command line)")
  case False
  then have "LF \<notin> set (pr_error (parse_command line))" using parse_command_error [OF assms(3)] by simp
  with False assms show ?thesis
    by (intro exI [of _ st] exI [of _ "''-ERR '' @ pr_error (parse_command line)"] exI [of _ True])
      (auto simp: respond_def Let_def reply_error_def strip_cr_def butlast_append)
next
  case True
  let ?cmd = "pr_command (parse_command line)"
  have "LF \<notin> set (cmd_value ?cmd)" using parse_command_ok [OF True] assms(3) by auto
  from execute_one_line [OF assms(1,2) this assms(4)] execute_defined [OF assms(1)] assms(5)
  obtain s' reply where s': "execute h p (envs (fst st + 1)) ?cmd (snd st) = Some (s', reply)"
    "one_line reply" "cache_clean (st_cache s')" "store_inv h s'" by (metis option.inject prod.inject)
  obtain body where body: "reply = body @ [LF]" "LF \<notin> set body" using s'(2) by (auto simp: one_line_def)
  have "cmd_type ?cmd \<noteq> CQuit \<longleftrightarrow> strip_cr body \<noteq> ''+BYE''"
  proof (cases "cmd_type ?cmd = CQuit")
    case True
    with s'(1) body have "body = ''+BYE''" by (auto simp: execute_def reply_bye_def Let_def)
    with True show ?thesis by (simp add: strip_cr_def)
  next
    case False
    with reply_head_not_bye [OF s'(1) False s'(2)] body(1) show ?thesis by simp
  qed
  with True s' body show ?thesis by (auto simp: respond_def Let_def)
qed

section \<open>A dialogue\<close>

definition wire :: "string list \<Rightarrow> string" where
  "wire requests = concat (map (\<lambda>r. r @ [LF]) requests)"

definition plain_request :: "string \<Rightarrow> bool" where
  "plain_request r \<longleftrightarrow> LF \<notin> set r \<and> cmd_type (pr_command (parse_command (strip_cr r))) \<noteq> CLoad"

lemma strip_cr_no_LF: "LF \<notin> set r \<Longrightarrow> LF \<notin> set (strip_cr r)"
  by (auto simp: strip_cr_def dest: in_set_butlastD)

lemma wire_Cons [simp]: "wire [] = []" "wire (r # rs) = r @ LF # wire rs"
  by (simp_all add: wire_def)

lemma frames_wire: "list_all (\<lambda>r. LF \<notin> set r) rs \<Longrightarrow> frames [] (wire rs) = (map strip_cr rs, [])"
  by (induction rs) (auto simp: frames_line)

lemma reliable_mono: "reliable a os \<Longrightarrow> b \<le> a \<Longrightarrow> reliable b os"
  by (simp add: reliable_def)

text \<open>One exchange: the request goes out whole, the next line comes back.\<close>

lemma client_exchange:
  assumes "request \<noteq> []" and "reliable (length request + 1 + m) (cl_sends c)" and "list_all is_data (cl_recvs c)"
    and "incoming c = body @ LF # rest" and "LF \<notin> set body"
  obtains c' where "client_loop (request # inputs) c = (if strip_cr body = ''+BYE'' then (ClientExit 0, c') else client_loop inputs c')"
    "cl_sent c' = cl_sent c @ request @ [LF]" "cl_printed c' = cl_printed c @ [strip_cr body]"
    "reliable m (cl_sends c')" "list_all is_data (cl_recvs c')" "incoming c' = rest"
proof -
  obtain sends where send: "send_all (cl_sends c) (request @ [LF]) = Some (True, request @ [LF], sends)" "reliable m sends"
    using send_all_reliable [of "request @ [LF]" m "cl_sends c"] assms(2) by auto
  obtain b rs where read: "read_reply (cl_recvs c) (cl_replies c) = Some (Some (strip_cr body), b, rs)"
    "list_all is_data rs" "lb_buffer b @ stream_of rs = rest"
    using read_reply_line [OF assms(3) assms(4) [unfolded incoming_def] assms(5)] by blast
  show thesis
    by (rule that [of "c\<lparr>cl_sends := sends, cl_sent := cl_sent c @ request @ [LF], cl_replies := b, cl_recvs := rs,
          cl_printed := cl_printed c @ [strip_cr body], cl_screen := cl_screen c @ ''cachex> '' @ strip_cr body @ [LF]\<rparr>"])
      (use assms(1) send read in \<open>simp_all add: incoming_def Let_def say_def\<close>)
qed

text \<open>The requests the server answered: the lines that are not blank, up to the one answered last.\<close>

definition answered :: "string \<Rightarrow> string list \<Rightarrow> string list" where
  "answered out inputs = take (length (fst (frames [] out))) (filter (\<lambda>r. r \<noteq> []) inputs)"

lemma dialogue:
  assumes env: "\<And>n. quiet_env p (envs n)"
  shows "store_inv h (snd st) \<Longrightarrow> cache_clean (st_cache (snd st)) \<Longrightarrow> list_all plain_request inputs \<Longrightarrow>
    reliable (length (wire inputs)) (cl_sends c) \<Longrightarrow> list_all is_data (cl_recvs c) \<Longrightarrow>
    session h p envs (map strip_cr (filter (\<lambda>r. r \<noteq> []) inputs)) st = Some (st', out, go) \<Longrightarrow> incoming c = out \<Longrightarrow>
    \<exists>c'. client_loop inputs c = (ClientExit 0, c') \<and> cl_sent c' = cl_sent c @ wire (answered out inputs) \<and>
      cl_printed c' = cl_printed c @ fst (frames [] out) \<and> length (fst (frames [] out)) = length (answered out inputs) \<and>
      session h p envs (map strip_cr (answered out inputs)) st = Some (st', out, go) \<and>
      (go \<longrightarrow> answered out inputs = filter (\<lambda>r. r \<noteq> []) inputs)"
proof (induction inputs arbitrary: c st out)
  case Nil
  then show ?case by (auto simp: answered_def)
next
  case (Cons r inputs)
  have r: "LF \<notin> set r" "LF \<notin> set (strip_cr r)" "cmd_type (pr_command (parse_command (strip_cr r))) \<noteq> CLoad"
    using Cons.prems(3) strip_cr_no_LF by (auto simp: plain_request_def)
  show ?case
  proof (cases "r = []")
    case True
    let ?c = "say ''cachex> '' c"
    have "reliable (length (wire inputs)) (cl_sends ?c)"
      using reliable_mono [OF Cons.prems(4)] by simp
    with Cons.IH [OF Cons.prems(1,2), of ?c] Cons.prems(3,5,6,7) True show ?thesis
      by (simp add: answered_def)
  next
    case False
    obtain st1 body go1 where re: "respond h p envs (strip_cr r) st = Some (st1, body @ [LF], go1)" "LF \<notin> set body"
      "store_inv h (snd st1)" "cache_clean (st_cache (snd st1))" "go1 \<longleftrightarrow> strip_cr body \<noteq> ''+BYE''"
      using respond_reply [OF Cons.prems(1,2) r(2), of p envs] env r(3) by blast
    define out1 where "out1 = drop (length body + 1) out"
    have out: "out = body @ LF # out1"
      using Cons.prems(6) False re(1) by (cases go1) (auto simp: out1_def)
    obtain c1 where c1: "client_loop (r # inputs) c = (if strip_cr body = ''+BYE'' then (ClientExit 0, c1) else client_loop inputs c1)"
      "cl_sent c1 = cl_sent c @ r @ [LF]" "cl_printed c1 = cl_printed c @ [strip_cr body]"
      "reliable (length (wire inputs)) (cl_sends c1)" "list_all is_data (cl_recvs c1)" "incoming c1 = out1"
      using client_exchange [OF False _ Cons.prems(5), of "length (wire inputs)" body out1 inputs] Cons.prems(4,7) out re(2)
      by (auto simp: add.assoc)
    show ?thesis
    proof (cases go1)
      case False
      then have "st1 = st'" "out1 = []" "\<not> go" using Cons.prems(6) \<open>r \<noteq> []\<close> re(1) out by auto
      with False re c1 \<open>r \<noteq> []\<close> out show ?thesis
        by (intro exI [of _ c1]) (auto simp: frames_line answered_def)
    next
      case True
      then have "session h p envs (map strip_cr (filter (\<lambda>r. r \<noteq> []) inputs)) st1 = Some (st', out1, go)"
        using Cons.prems(6) \<open>r \<noteq> []\<close> re(1) out by auto
      from Cons.IH [OF re(3,4) _ c1(4,5) this c1(6)] Cons.prems(3) obtain c' where
        "client_loop inputs c1 = (ClientExit 0, c')" "cl_sent c' = cl_sent c1 @ wire (answered out1 inputs)"
        "cl_printed c' = cl_printed c1 @ fst (frames [] out1)" "length (fst (frames [] out1)) = length (answered out1 inputs)"
        "session h p envs (map strip_cr (answered out1 inputs)) st1 = Some (st', out1, go)"
        "go \<longrightarrow> answered out1 inputs = filter (\<lambda>r. r \<noteq> []) inputs"
        by auto
      moreover have "answered out (r # inputs) = r # answered out1 inputs"
        using \<open>r \<noteq> []\<close> out re(2) by (simp add: answered_def frames_line)
      ultimately show ?thesis using True re c1 out \<open>r \<noteq> []\<close> by (intro exI [of _ c']) (simp add: frames_line)
    qed
  qed
qed

lemma runs_le_wire: "list_all (\<lambda>r. LF \<notin> set r \<and> length r \<le> m) rs \<Longrightarrow> runs_le m 0 (wire rs)"
proof (induction rs)
  case (Cons r rs)
  then show ?case using runs_le_no_LF [of r m 0 "LF # wire rs"] by simp
qed simp

end
