(* ===== verification/Server.thy ===== *)
theory Server
  imports Connection
begin

text \<open>
  The server (\<open>include/cachex/server.hpp\<close>, \<open>src/net/server.cpp\<close>): opening the listening socket,
  and the accept loop with its worker threads as a step machine. What the kernel answers is an
  argument of \<open>server_start\<close> and a choice of step in the machine.
\<close>

section \<open>Options and \<open>start\<close>\<close>

record server_options =
  op_host :: string
  op_port :: nat
  op_backlog :: int
  op_max_connections :: nat
  op_verbose :: bool

definition default_options :: server_options where
  "default_options = \<lparr>op_host = ''127.0.0.1'', op_port = 6379, op_backlog = 128, op_max_connections = 256,
     op_verbose = True\<rparr>"

text \<open>
  The answers of \<open>socket\<close>, \<open>inet_pton\<close>, \<open>bind\<close>, \<open>listen\<close> and \<open>getsockname\<close>: an error carries the
  text of \<open>strerror(errno)\<close>, and for \<open>bind\<close> whether \<open>errno\<close> is \<open>EADDRINUSE\<close>.
\<close>

record start_env =
  se_socket :: "string + int"
  se_address_ok :: "string \<Rightarrow> bool"
  se_bind :: "(string \<times> bool) option"
  se_listen :: "string option"
  se_sockname :: "nat option"

record server_socket =
  ss_listener :: int
  ss_bound_port :: nat

definition in_use_advice :: "server_options \<Rightarrow> string" where
  "in_use_advice opts =
     [LF] @ ''  Another process already holds '' @ op_host opts @ '':'' @ to_string_nat (op_port opts) @
     ''. Note that 6379 is also Redis's default port -- check with'' @ [LF] @
     ''  `lsof -nP -iTCP:'' @ to_string_nat (op_port opts) @
     '' -sTCP:LISTEN`, or start CacheX on a different port.''"

definition server_start :: "server_options \<Rightarrow> start_env \<Rightarrow> server_socket \<Rightarrow> server_socket \<times> string option" where
  "server_start opts env s =
     (case se_socket env of
        Inl why \<Rightarrow> (s\<lparr>ss_listener := kInvalid\<rparr>, Some (''socket() failed: '' @ why))
      | Inr fd \<Rightarrow>
          let s = s\<lparr>ss_listener := fd\<rparr>
          in if \<not> se_address_ok env (op_host opts)
             then (s, Some (''invalid bind address '' @ [CHR 0x27] @ op_host opts @ [CHR 0x27]))
             else case se_bind env of
               Some (why, in_use) \<Rightarrow>
                 (s, Some (''bind() failed: '' @ why @ (if in_use then in_use_advice opts else [])))
             | None \<Rightarrow>
                 (case se_listen env of
                    Some why \<Rightarrow> (s, Some (''listen() failed: '' @ why))
                  | None \<Rightarrow>
                      (s\<lparr>ss_bound_port := (case se_sockname env of Some port \<Rightarrow> port | None \<Rightarrow> op_port opts)\<rparr>, None)))"

section \<open>The accept loop and the workers\<close>

text \<open>
  \<open>run\<close> at its points of interaction: at the loop's test, in the \<open>i\<close>-th turn of
  \<open>reap_finished_workers\<close> (remembering whether a client is waiting), about to \<open>accept\<close>, in
  \<open>spawn_worker\<close> after the counters and before the thread, with the thread and before
  \<open>push_back\<close>, in \<open>join_all_workers\<close> with those still to join, and returned.
\<close>

datatype run_point = AtLoop | Reaping nat bool | Accepting | Spawning | Pushing nat | Joining "nat list" | RunReturned

text \<open>
  A worker: in \<open>serve\<close>; past \<open>active_connections_.fetch_sub(1)\<close>; past \<open>finished->store(true)\<close>,
  its last statement; joined by the accept loop.
\<close>

datatype worker_phase = Serving | Uncounted | Finished | Joined

record server_machine =
  sv_point :: run_point
  sv_stop :: bool
  sv_served :: nat
  sv_active :: nat
  sv_workers :: "nat list"
  sv_threads :: "worker_phase list"

definition limit_reply :: "nat \<Rightarrow> string" where
  "limit_reply n = reply_error (''server at connection limit ('' @ to_string_nat n @ '')'')"

inductive server_step :: "nat \<Rightarrow> server_machine \<Rightarrow> server_machine \<Rightarrow> bool" for max_connections where
  stop_called: "\<not> sv_stop m \<Longrightarrow> server_step max_connections m (m\<lparr>sv_stop := True\<rparr>)"
| loop_left: "sv_point m = AtLoop \<Longrightarrow> sv_stop m \<Longrightarrow>
    server_step max_connections m (m\<lparr>sv_point := Joining (sv_workers m), sv_workers := []\<rparr>)"
| poll_interrupted: "sv_point m = AtLoop \<Longrightarrow> \<not> sv_stop m \<Longrightarrow> server_step max_connections m m"
| poll_failed: "sv_point m = AtLoop \<Longrightarrow> \<not> sv_stop m \<Longrightarrow>
    server_step max_connections m (m\<lparr>sv_point := Joining (sv_workers m), sv_workers := []\<rparr>)"
| polled: "sv_point m = AtLoop \<Longrightarrow> \<not> sv_stop m \<Longrightarrow> server_step max_connections m (m\<lparr>sv_point := Reaping 0 ready\<rparr>)"
| reaped: "sv_point m = Reaping i ready \<Longrightarrow> i < length (sv_workers m) \<Longrightarrow> w = sv_workers m ! i \<Longrightarrow>
    sv_threads m ! w = Finished \<Longrightarrow>
    server_step max_connections m (m\<lparr>sv_threads := (sv_threads m)[w := Joined], sv_workers := drop_nth i (sv_workers m)\<rparr>)"
| kept: "sv_point m = Reaping i ready \<Longrightarrow> i < length (sv_workers m) \<Longrightarrow>
    sv_threads m ! (sv_workers m ! i) \<in> {Serving, Uncounted} \<Longrightarrow>
    server_step max_connections m (m\<lparr>sv_point := Reaping (Suc i) ready\<rparr>)"
| reap_done: "sv_point m = Reaping i ready \<Longrightarrow> length (sv_workers m) \<le> i \<Longrightarrow>
    server_step max_connections m (m\<lparr>sv_point := (if ready then Accepting else AtLoop)\<rparr>)"
| accept_failed: "sv_point m = Accepting \<Longrightarrow> server_step max_connections m (m\<lparr>sv_point := AtLoop\<rparr>)"
| refused: "sv_point m = Accepting \<Longrightarrow> max_connections \<le> sv_active m \<Longrightarrow>
    server_step max_connections m (m\<lparr>sv_point := AtLoop\<rparr>)"
| counted: "sv_point m = Accepting \<Longrightarrow> sv_active m < max_connections \<Longrightarrow>
    server_step max_connections m (m\<lparr>sv_point := Spawning, sv_served := sv_served m + 1, sv_active := sv_active m + 1\<rparr>)"
| thread_started: "sv_point m = Spawning \<Longrightarrow>
    server_step max_connections m (m\<lparr>sv_point := Pushing (length (sv_threads m)), sv_threads := sv_threads m @ [Serving]\<rparr>)"
| thread_refused: "sv_point m = Spawning \<Longrightarrow>
    server_step max_connections m (m\<lparr>sv_point := AtLoop, sv_active := sv_active m - 1\<rparr>)"
| pushed: "sv_point m = Pushing w \<Longrightarrow>
    server_step max_connections m (m\<lparr>sv_point := AtLoop, sv_workers := sv_workers m @ [w]\<rparr>)"
| joined: "sv_point m = Joining (w # ws) \<Longrightarrow> sv_threads m ! w = Finished \<Longrightarrow>
    server_step max_connections m (m\<lparr>sv_point := Joining ws, sv_threads := (sv_threads m)[w := Joined]\<rparr>)"
| run_returned: "sv_point m = Joining [] \<Longrightarrow> server_step max_connections m (m\<lparr>sv_point := RunReturned\<rparr>)"
| served: "w < length (sv_threads m) \<Longrightarrow> sv_threads m ! w = Serving \<Longrightarrow>
    server_step max_connections m (m\<lparr>sv_threads := (sv_threads m)[w := Uncounted], sv_active := sv_active m - 1\<rparr>)"
| flagged: "w < length (sv_threads m) \<Longrightarrow> sv_threads m ! w = Uncounted \<Longrightarrow>
    server_step max_connections m (m\<lparr>sv_threads := (sv_threads m)[w := Finished]\<rparr>)"

definition server_fresh :: server_machine where
  "server_fresh = \<lparr>sv_point = AtLoop, sv_stop = False, sv_served = 0, sv_active = 0, sv_workers = [], sv_threads = []\<rparr>"

section \<open>Invariant\<close>

definition serving :: "worker_phase list \<Rightarrow> nat" where
  "serving ts = length (filter (\<lambda>p. p = Serving) ts)"

text \<open>The threads the accept loop still has to join.\<close>

definition owned :: "server_machine \<Rightarrow> nat list" where
  "owned m = sv_workers m @ (case sv_point m of Pushing w \<Rightarrow> [w] | Joining ws \<Rightarrow> ws | _ \<Rightarrow> [])"

definition unjoined :: "worker_phase list \<Rightarrow> nat set" where
  "unjoined ts = {w. w < length ts \<and> ts ! w \<noteq> Joined}"

fun leaving :: "run_point \<Rightarrow> bool" where
  "leaving (Joining ws) \<longleftrightarrow> True"
| "leaving RunReturned \<longleftrightarrow> True"
| "leaving _ \<longleftrightarrow> False"

definition server_inv :: "nat \<Rightarrow> server_machine \<Rightarrow> bool" where
  "server_inv max_connections m \<longleftrightarrow>
     sv_active m = serving (sv_threads m) + (if sv_point m = Spawning then 1 else 0) \<and>
     sv_active m \<le> max_connections \<and>
     distinct (owned m) \<and> set (owned m) = unjoined (sv_threads m) \<and>
     (leaving (sv_point m) \<longrightarrow> sv_workers m = []) \<and>
     length (sv_threads m) + (if sv_point m = Spawning then 1 else 0) \<le> sv_served m"

lemma serving_update:
  "w < length ts \<Longrightarrow> serving (ts[w := p]) + (if ts ! w = Serving then 1 else 0) = serving ts + (if p = Serving then 1 else 0)"
  unfolding serving_def by (rule filter_update)

lemma unjoined_update:
  "w < length ts \<Longrightarrow> ts ! w \<noteq> Joined \<Longrightarrow> unjoined (ts[w := p]) = (if p = Joined then unjoined ts - {w} else unjoined ts)"
  by (auto simp: unjoined_def nth_list_update split: if_splits)

lemma thread_lists [simp]:
  "serving [] = 0" "serving (ts @ [p]) = serving ts + (if p = Serving then 1 else 0)"
  "unjoined [] = {}" "unjoined (ts @ [Serving]) = insert (length ts) (unjoined ts)"
  by (auto simp: serving_def unjoined_def nth_append split: if_splits)

lemma unjoined_less: "w \<in> unjoined ts \<Longrightarrow> w < length ts" "w \<in> unjoined ts \<Longrightarrow> ts ! w \<noteq> Joined"
  by (simp_all add: unjoined_def)

text \<open>Joining one of the threads that is still owned.\<close>

lemma join_keeps:
  assumes "server_inv n m" and "w \<in> set (owned m)" and "sv_threads m ! w = Finished"
  shows "serving ((sv_threads m)[w := Joined]) = serving (sv_threads m)"
    "unjoined ((sv_threads m)[w := Joined]) = set (owned m) - {w}"
proof -
  have w: "w < length (sv_threads m)" using assms(1,2) unjoined_less by (auto simp: server_inv_def)
  show "serving ((sv_threads m)[w := Joined]) = serving (sv_threads m)"
    using serving_update [OF w, of Joined] assms(3) by simp
  show "unjoined ((sv_threads m)[w := Joined]) = set (owned m) - {w}"
    using unjoined_update [OF w, of Joined] assms(1,3) by (simp add: server_inv_def)
qed

lemma server_inv_step: "server_inv n m \<Longrightarrow> server_step n m m' \<Longrightarrow> server_inv n m'"
proof (erule server_step.cases, goal_cases)
  case (6 m1 i ready w)
  have own: "w \<in> set (owned m)" "owned m = sv_workers m" using 6 by (auto simp: owned_def)
  have "distinct (sv_workers m)" using 6(1) own by (simp add: server_inv_def)
  with join_keeps [OF 6(1) own(1)] 6 own set_drop_nth_eq [of "sv_workers m" i] distinct_drop_nth [of "sv_workers m" i]
  show ?case by (auto simp: server_inv_def owned_def)
next
  case (15 m1 w ws)
  have own: "w \<in> set (owned m)" "owned m = w # ws" using 15 by (auto simp: owned_def server_inv_def)
  with join_keeps [OF 15(1) own(1)] 15 show ?case by (auto simp: server_inv_def owned_def)
next
  case (17 w m1)
  with serving_update [of w "sv_threads m" Uncounted] unjoined_update [of w "sv_threads m" Uncounted]
  show ?case by (auto simp: server_inv_def owned_def split: if_splits)
next
  case (18 w m1)
  with serving_update [of w "sv_threads m" Finished] unjoined_update [of w "sv_threads m" Finished]
  show ?case by (auto simp: server_inv_def owned_def split: if_splits)
next
  case (12 m1)
  then have "length (sv_threads m) \<notin> set (owned m)" using unjoined_less(1) [of "length (sv_threads m)"] by (auto simp: server_inv_def)
  with 12 show ?case by (auto simp: server_inv_def owned_def)
qed (auto simp: server_inv_def owned_def split: if_splits run_point.splits)

interpretation accept_loop: step_invariant "server_step n" "server_inv n" for n
  by unfold_locales (rule server_inv_step)

lemma server_inv_fresh: "server_inv n server_fresh"
  by (simp add: server_inv_def server_fresh_def owned_def)

section \<open>Shutting down\<close>

fun phase_left :: "worker_phase \<Rightarrow> nat" where
  "phase_left Serving = 2"
| "phase_left Uncounted = 1"
| "phase_left _ = 0"

text \<open>Steps of \<open>run\<close> left after \<open>stop\<close>, with \<open>k\<close> workers in the vector.\<close>

fun point_left :: "nat \<Rightarrow> run_point \<Rightarrow> nat" where
  "point_left k AtLoop = k + 2"
| "point_left k (Reaping i ready) = k + (k - i) + 9"
| "point_left k Accepting = k + 8"
| "point_left k Spawning = k + 7"
| "point_left k (Pushing w) = k + 4"
| "point_left k (Joining ws) = length ws + 1"
| "point_left k RunReturned = 0"

definition shutdown_left :: "server_machine \<Rightarrow> nat" where
  "shutdown_left m = point_left (length (sv_workers m)) (sv_point m) + sum_list (map phase_left (sv_threads m))"

lemma join_left: "ts ! w = Finished \<Longrightarrow> sum_list (map phase_left (ts[w := Joined])) = sum_list (map phase_left ts)"
  using sum_map_update [of w ts phase_left Joined] by (cases "w < length ts") (simp_all add: not_less list_update_beyond)

lemma shutdown_decreases:
  assumes "server_step n m m'" and "sv_stop m"
  shows "sv_stop m' \<and> shutdown_left m' < shutdown_left m"
  using assms(1)
proof (cases rule: server_step.cases)
  case (served w)
  with sum_map_update [of w "sv_threads m" phase_left Uncounted] assms(2) show ?thesis by (simp add: shutdown_left_def)
next
  case (flagged w)
  with sum_map_update [of w "sv_threads m" phase_left Finished] assms(2) show ?thesis by (simp add: shutdown_left_def)
qed (use assms(2) in \<open>auto simp: shutdown_left_def join_left length_drop_nth\<close>)

lemma shutdown_run:
  "(server_step n ^^ k) m m' \<Longrightarrow> sv_stop m \<Longrightarrow> sv_stop m' \<and> k + shutdown_left m' \<le> shutdown_left m"
proof (induction k arbitrary: m')
  case (Suc k)
  then obtain m1 where m1: "(server_step n ^^ k) m m1" "server_step n m1 m'" by auto
  from Suc.IH [OF m1(1) Suc.prems(2)] shutdown_decreases [OF m1(2)] show ?case by auto
qed simp

lemma worker_goes_on:
  assumes "server_inv n m" and "w \<in> set (owned m)"
  shows "sv_threads m ! w = Finished \<or> (\<exists>m'. server_step n m m')"
proof -
  have "w < length (sv_threads m)" "sv_threads m ! w \<noteq> Joined"
    using assms unjoined_less by (auto simp: server_inv_def)
  then show ?thesis using server_step.served server_step.flagged by (cases "sv_threads m ! w") blast+
qed

lemma stopped_goes_on:
  assumes inv: "server_inv n m" and stop: "sv_stop m" and point: "sv_point m \<noteq> RunReturned"
  shows "\<exists>m'. server_step n m m'"
proof (cases "sv_point m")
  case AtLoop
  then show ?thesis using server_step.loop_left stop by blast
next
  case (Reaping i ready)
  show ?thesis
  proof (cases "i < length (sv_workers m)")
    case True
    then have "sv_workers m ! i \<in> set (owned m)" by (simp add: owned_def)
    with worker_goes_on [OF inv this] server_step.reaped [OF Reaping True refl] show ?thesis by blast
  qed (use server_step.reap_done [OF Reaping] in force)
next
  case (Joining ws)
  show ?thesis
  proof (cases ws)
    case (Cons w rest)
    then have "w \<in> set (owned m)" using Joining by (simp add: owned_def)
    with worker_goes_on [OF inv this] server_step.joined Joining Cons show ?thesis by blast
  qed (use server_step.run_returned Joining in blast)
qed (use point server_step.accept_failed server_step.thread_started server_step.pushed in blast)+

section \<open>Properties\<close>

text \<open>
  C36. Throughout the life of the server, for every order of arrivals, disconnections, failures and
  \<open>stop\<close>: the count of active connections is the number of workers in \<open>serve\<close> (with the one about
  to start), it never exceeds the limit, so the refusal bounds the threads serving clients and the
  unsigned count never wraps; every thread started and not yet joined is known to the accept loop,
  once; and when \<open>run\<close> returns every thread it started has been joined.
\<close>

theorem workers_accounted_for:
  assumes "(server_step max_connections)\<^sup>*\<^sup>* server_fresh m"
  shows "sv_active m = serving (sv_threads m) + (if sv_point m = Spawning then 1 else 0) \<and>
    sv_active m \<le> max_connections \<and> distinct (owned m) \<and> set (owned m) = unjoined (sv_threads m) \<and>
    (sv_point m = RunReturned \<longrightarrow> (\<forall>w < length (sv_threads m). sv_threads m ! w = Joined))"
proof -
  have inv: "server_inv max_connections m" using accept_loop.reach_inv [OF assms] server_inv_fresh by blast
  then show ?thesis by (auto simp: server_inv_def owned_def unjoined_def)
qed

text \<open>
  \<open>stop\<close> ends the server: from any state after it, whatever happens meanwhile, \<open>run\<close> can
  always go on until it has returned, and does so within a number of steps fixed by the state, given
  that each worker's \<open>serve\<close> returns. No thread is left waiting for another.
\<close>

lemma stop_ends_run:
  assumes "(server_step max_connections)\<^sup>*\<^sup>* server_fresh m" and "sv_stop m"
    and "(server_step max_connections ^^ k) m m'"
  shows "k \<le> shutdown_left m \<and> (sv_point m' = RunReturned \<or> (\<exists>m''. server_step max_connections m' m''))"
proof -
  have "(server_step max_connections)\<^sup>*\<^sup>* server_fresh m'"
    using assms(1) relpowp_imp_rtranclp [OF assms(3)] by simp
  then have "server_inv max_connections m'" using accept_loop.reach_inv server_inv_fresh by blast
  with shutdown_run [OF assms(3,2)] stopped_goes_on [of max_connections m'] show ?thesis by auto
qed

section \<open>Instances\<close>

text \<open>One client is being served when \<open>stop\<close> is called.\<close>

definition demo_server :: server_machine where
  "demo_server = \<lparr>sv_point = AtLoop, sv_stop = True, sv_served = 1, sv_active = 1, sv_workers = [0], sv_threads = [Serving]\<rparr>"

lemma demo_server_reachable: "(server_step 1)\<^sup>*\<^sup>* server_fresh demo_server"
proof -
  define m1 where "m1 = server_fresh\<lparr>sv_point := Reaping 0 True\<rparr>"
  define m2 where "m2 = m1\<lparr>sv_point := (if True then Accepting else AtLoop)\<rparr>"
  define m3 where "m3 = m2\<lparr>sv_point := Spawning, sv_served := sv_served m2 + 1, sv_active := sv_active m2 + 1\<rparr>"
  define m4 where "m4 = m3\<lparr>sv_point := Pushing (length (sv_threads m3)), sv_threads := sv_threads m3 @ [Serving]\<rparr>"
  define m5 where "m5 = m4\<lparr>sv_point := AtLoop, sv_workers := sv_workers m4 @ [length (sv_threads m3)]\<rparr>"
  note defs = m1_def m2_def m3_def m4_def m5_def
  have s1: "server_step 1 server_fresh m1"
    unfolding m1_def by (rule server_step.polled) (simp_all add: server_fresh_def)
  have s2: "server_step 1 m1 m2"
    unfolding m2_def by (rule server_step.reap_done) (simp_all add: m1_def server_fresh_def)
  have s3: "server_step 1 m2 m3"
    unfolding m3_def by (rule server_step.counted) (simp_all add: m1_def m2_def server_fresh_def)
  have s4: "server_step 1 m3 m4"
    unfolding m4_def by (rule server_step.thread_started) (simp add: m3_def)
  have s5: "server_step 1 m4 m5"
    unfolding m5_def by (rule server_step.pushed) (simp add: m4_def)
  have s6: "server_step 1 m5 (m5\<lparr>sv_stop := True\<rparr>)"
    by (rule server_step.stop_called) (simp add: defs server_fresh_def)
  have fin: "m5\<lparr>sv_stop := True\<rparr> = demo_server"
    by (simp add: defs server_fresh_def demo_server_def)
  note chain = converse_rtranclp_into_rtranclp [where r = "server_step 1"]
  show ?thesis
    using chain [OF s1 chain [OF s2 chain [OF s3 chain [OF s4 chain [OF s5 r_into_rtranclp [of "server_step 1", OF s6]]]]]]
    by (simp only: fin)
qed

theorem workers_accounted_for_witness:
  "sv_active demo_server = serving (sv_threads demo_server) \<and> set (owned demo_server) = unjoined (sv_threads demo_server)"
proof -
  have "sv_point demo_server \<noteq> Spawning" by (simp add: demo_server_def)
  with workers_accounted_for [OF demo_server_reachable] show ?thesis by simp
qed

lemma stop_ends_run_instance:
  "\<exists>m'. server_step 1 demo_server m' \<and> (sv_point m' = RunReturned \<or> (\<exists>m''. server_step 1 m' m''))"
proof -
  let ?m = "demo_server\<lparr>sv_point := Joining (sv_workers demo_server), sv_workers := []\<rparr>"
  have step: "server_step 1 demo_server ?m" by (rule server_step.loop_left) (simp_all add: demo_server_def)
  then have "(server_step 1 ^^ 1) demo_server ?m" by auto
  from stop_ends_run [OF demo_server_reachable _ this] step show ?thesis by (auto simp: demo_server_def)
qed

end
