(* ===== verification/Periodic_Saver.thy ===== *)
theory Periodic_Saver
  imports Command_Handler
begin

text \<open>
  The background saver (\<open>PeriodicSaver\<close> of \<open>include/cachex/persistence.hpp\<close> and
  \<open>src/persistence.cpp\<close>): the thread that waits, saves and counts, and any number of calls of \<open>stop\<close>,
  the destructor's among them, each on a thread of its own. Taking and releasing \<open>mutex_\<close>, entering and
  leaving the wait set of \<open>wake_\<close>, \<open>notify_all\<close> and \<open>join\<close> are steps of their own; when the interval is over,
  or the wait ends for no reason, is a choice of step. The store a save sees is whatever the other
  threads made of it.
\<close>

text \<open>
  The saver's thread in \<open>run\<close>: about to lock, evaluating the predicate of \<open>wait_for\<close> (the flag: the time
  is over), in the wait set with the mutex released, out of it and about to lock again (the flag as
  before), behind \<open>wait_for\<close>, in \<open>save\<close>, past \<open>return\<close>.
\<close>

datatype saver_point = AtLock | Testing bool | Waiting | Woken bool | AfterWait | InSave | SaverReturned

text \<open>
  A call of \<open>stop\<close>: about to lock, in the block of the lock guard, before \<open>notify_all\<close>, before \<open>join\<close>,
  returned after it; or returned early because \<open>stopping_\<close> was set.
\<close>

datatype stop_point = AtStopLock | InStop | AtNotify | AtJoin | StopReturned | StopSkipped

datatype mutex_owner = BySaver | ByStop nat

record saver =
  ps_point :: saver_point
  ps_stops :: "stop_point list"
  ps_mutex :: "mutex_owner option"
  ps_stopping :: bool
  ps_joined :: bool
  ps_saves :: nat
  ps_failures :: nat

definition saver_fresh :: saver where
  "saver_fresh = \<lparr>ps_point = AtLock, ps_stops = [], ps_mutex = None, ps_stopping = False, ps_joined = False,
     ps_saves = 0, ps_failures = 0\<rparr>"

definition count_save :: "save_result \<Rightarrow> saver \<Rightarrow> saver" where
  "count_save res m = (if sr_ok res then m\<lparr>ps_saves := ps_saves m + 1\<rparr> else m\<lparr>ps_failures := ps_failures m + 1\<rparr>)"

definition notify_all :: "saver \<Rightarrow> saver" where
  "notify_all m = (if ps_point m = Waiting then m\<lparr>ps_point := Woken False\<rparr> else m)"

text \<open>A step is work of one of the threads, the end of a wait by the clock or for no reason, or a new call of \<open>stop\<close>.\<close>

datatype saver_event = Work | WaitEnds | StopCall

inductive saver_step :: "hash_fn \<Rightarrow> string \<Rightarrow> saver_event \<Rightarrow> saver \<Rightarrow> saver \<Rightarrow> bool" for h path where
  locked: "ps_point m = AtLock \<Longrightarrow> ps_mutex m = None \<Longrightarrow>
    saver_step h path Work m (m\<lparr>ps_point := Testing False, ps_mutex := Some BySaver\<rparr>)"
| suspended: "ps_point m = Testing False \<Longrightarrow> \<not> ps_stopping m \<Longrightarrow>
    saver_step h path Work m (m\<lparr>ps_point := Waiting, ps_mutex := None\<rparr>)"
| interval_over: "ps_point m = Waiting \<Longrightarrow> saver_step h path WaitEnds m (m\<lparr>ps_point := Woken True\<rparr>)"
| spurious: "ps_point m = Waiting \<Longrightarrow> saver_step h path WaitEnds m (m\<lparr>ps_point := Woken False\<rparr>)"
| relocked: "ps_point m = Woken over \<Longrightarrow> ps_mutex m = None \<Longrightarrow>
    saver_step h path Work m (m\<lparr>ps_point := Testing over, ps_mutex := Some BySaver\<rparr>)"
| wait_returns: "ps_point m = Testing over \<Longrightarrow> ps_stopping m \<or> over \<Longrightarrow>
    saver_step h path Work m (m\<lparr>ps_point := AfterWait\<rparr>)"
| run_returns: "ps_point m = AfterWait \<Longrightarrow> ps_stopping m \<Longrightarrow>
    saver_step h path Work m (m\<lparr>ps_point := SaverReturned, ps_mutex := None\<rparr>)"
| save_begins: "ps_point m = AfterWait \<Longrightarrow> \<not> ps_stopping m \<Longrightarrow>
    saver_step h path Work m (m\<lparr>ps_point := InSave, ps_mutex := None\<rparr>)"
| saved: "ps_point m = InSave \<Longrightarrow> store_inv h s \<Longrightarrow> save path env (st_cache s) (st_disk s) = Some (c, d, res) \<Longrightarrow>
    saver_step h path Work m (count_save res (m\<lparr>ps_point := AtLock\<rparr>))"
| stop_called: "saver_step h path StopCall m (m\<lparr>ps_stops := ps_stops m @ [AtStopLock]\<rparr>)"
| stop_locked: "i < length (ps_stops m) \<Longrightarrow> ps_stops m ! i = AtStopLock \<Longrightarrow> ps_mutex m = None \<Longrightarrow>
    saver_step h path Work m (m\<lparr>ps_stops := (ps_stops m)[i := InStop], ps_mutex := Some (ByStop i)\<rparr>)"
| stop_repeated: "i < length (ps_stops m) \<Longrightarrow> ps_stops m ! i = InStop \<Longrightarrow> ps_stopping m \<Longrightarrow>
    saver_step h path Work m (m\<lparr>ps_stops := (ps_stops m)[i := StopSkipped], ps_mutex := None\<rparr>)"
| stop_first: "i < length (ps_stops m) \<Longrightarrow> ps_stops m ! i = InStop \<Longrightarrow> \<not> ps_stopping m \<Longrightarrow>
    saver_step h path Work m (m\<lparr>ps_stops := (ps_stops m)[i := AtNotify], ps_stopping := True, ps_mutex := None\<rparr>)"
| notified: "i < length (ps_stops m) \<Longrightarrow> ps_stops m ! i = AtNotify \<Longrightarrow>
    saver_step h path Work m ((notify_all m)\<lparr>ps_stops := (ps_stops m)[i := AtJoin]\<rparr>)"
| joined: "i < length (ps_stops m) \<Longrightarrow> ps_stops m ! i = AtJoin \<Longrightarrow> \<not> ps_joined m \<Longrightarrow> ps_point m = SaverReturned \<Longrightarrow>
    saver_step h path Work m (m\<lparr>ps_stops := (ps_stops m)[i := StopReturned], ps_joined := True\<rparr>)"
| not_joinable: "i < length (ps_stops m) \<Longrightarrow> ps_stops m ! i = AtJoin \<Longrightarrow> ps_joined m \<Longrightarrow>
    saver_step h path Work m (m\<lparr>ps_stops := (ps_stops m)[i := StopReturned]\<rparr>)"

inductive saver_run :: "hash_fn \<Rightarrow> string \<Rightarrow> saver_event list \<Rightarrow> saver \<Rightarrow> saver \<Rightarrow> bool" for h path where
  run_nil: "saver_run h path [] m m"
| run_snoc: "saver_run h path evs m m1 \<Longrightarrow> saver_step h path ev m1 m2 \<Longrightarrow> saver_run h path (evs @ [ev]) m m2"

section \<open>Mutual exclusion and no lost wake-up\<close>

fun holds_mutex :: "saver_point \<Rightarrow> bool" where
  "holds_mutex (Testing over) = True"
| "holds_mutex AfterWait = True"
| "holds_mutex _ = False"

text \<open>
  The mutex is held by whom the program points say; one call of \<open>stop\<close> is the first as soon as the flag
  is set, and none before; the thread ends only when it is set, and is joined only by the first. While
  the flag is set and the thread is in the wait set, the notification is still to come.
\<close>

definition calls_at :: "stop_point set \<Rightarrow> stop_point list \<Rightarrow> nat" where
  "calls_at ps stops = length (filter (\<lambda>p. p \<in> ps) stops)"

definition mutex_inv :: "saver \<Rightarrow> bool" where
  "mutex_inv m \<longleftrightarrow>
     (ps_mutex m = Some BySaver \<longleftrightarrow> holds_mutex (ps_point m)) \<and>
     calls_at {InStop} (ps_stops m) = (if ps_mutex m \<in> {None, Some BySaver} then 0 else 1) \<and>
     (\<forall>i. ps_mutex m = Some (ByStop i) \<longrightarrow> i < length (ps_stops m) \<and> ps_stops m ! i = InStop)"

definition stop_inv :: "saver \<Rightarrow> bool" where
  "stop_inv m \<longleftrightarrow>
     calls_at {AtNotify, AtJoin, StopReturned} (ps_stops m) = (if ps_stopping m then 1 else 0) \<and>
     (ps_point m = SaverReturned \<longrightarrow> ps_stopping m) \<and>
     calls_at {StopReturned} (ps_stops m) = (if ps_joined m then 1 else 0) \<and>
     (ps_joined m \<longrightarrow> ps_point m = SaverReturned) \<and>
     (ps_stopping m \<and> ps_point m = Waiting \<longrightarrow> calls_at {AtNotify} (ps_stops m) = 1)"

definition saver_inv :: "saver \<Rightarrow> bool" where
  "saver_inv m \<longleftrightarrow> mutex_inv m \<and> stop_inv m"

lemma calls_at_update [simp]:
  "i < length stops \<Longrightarrow> calls_at ps (stops[i := q]) =
     calls_at ps stops + (if q \<in> ps then 1 else 0) - (if stops ! i \<in> ps then 1 else 0)"
  using filter_update [of i stops "\<lambda>p. p \<in> ps" q] by (simp add: calls_at_def)

lemma calls_at_append [simp]: "calls_at ps (stops @ [q]) = calls_at ps stops + (if q \<in> ps then 1 else 0)"
  by (simp add: calls_at_def)

lemma calls_at_nth: "i < length stops \<Longrightarrow> stops ! i \<in> ps \<Longrightarrow> 0 < calls_at ps stops"
  by (auto simp: calls_at_def filter_empty_conv)

lemma calls_at_first:
  "calls_at {AtNotify, AtJoin, StopReturned} stops =
     calls_at {AtNotify} stops + calls_at {AtJoin} stops + calls_at {StopReturned} stops"
  by (induction stops) (auto simp: calls_at_def)

lemma saver_inv_fresh: "saver_inv saver_fresh"
  by (simp add: saver_inv_def mutex_inv_def stop_inv_def calls_at_def saver_fresh_def)

lemma count_save_simps [simp]:
  "ps_point (count_save res m) = ps_point m" "ps_stops (count_save res m) = ps_stops m"
  "ps_mutex (count_save res m) = ps_mutex m" "ps_stopping (count_save res m) = ps_stopping m"
  "ps_joined (count_save res m) = ps_joined m"
  by (simp_all add: count_save_def)

lemma notify_all_simps [simp]:
  "ps_point (notify_all m) = (if ps_point m = Waiting then Woken False else ps_point m)"
  "ps_stops (notify_all m) = ps_stops m" "ps_mutex (notify_all m) = ps_mutex m"
  "ps_stopping (notify_all m) = ps_stopping m" "ps_joined (notify_all m) = ps_joined m"
  "ps_saves (notify_all m) = ps_saves m" "ps_failures (notify_all m) = ps_failures m"
  by (simp_all add: notify_all_def)

lemma mutex_step:
  assumes "saver_step h path ev m m'" and "mutex_inv m"
  shows "mutex_inv m'"
  using assms
proof (induction rule: saver_step.induct)
  case (stop_repeated i m)
  with calls_at_nth [of i "ps_stops m" "{InStop}"] show ?case by (auto simp: mutex_inv_def split: if_splits)
next
  case (stop_first i m)
  with calls_at_nth [of i "ps_stops m" "{InStop}"] show ?case by (auto simp: mutex_inv_def split: if_splits)
qed (auto simp: mutex_inv_def nth_append nth_list_update)

lemma stop_step:
  assumes "saver_step h path ev m m'" and "stop_inv m"
  shows "stop_inv m'"
  using assms
proof (induction rule: saver_step.induct)
  case (notified i m)
  with calls_at_nth [of i "ps_stops m" "{AtNotify, AtJoin, StopReturned}"] show ?case by (auto simp: stop_inv_def split: if_splits)
next
  case (joined i m)
  with calls_at_nth [of i "ps_stops m" "{AtNotify, AtJoin, StopReturned}"] show ?case by (auto simp: stop_inv_def split: if_splits)
next
  case (stop_first i m)
  then show ?case by (auto simp: stop_inv_def calls_at_first)
next
  case (not_joinable i m)
  with calls_at_nth [of i "ps_stops m" "{AtJoin}"] show ?case by (auto simp: stop_inv_def calls_at_first)
qed (auto simp: stop_inv_def)

interpretation saver_threads: step_invariant "\<lambda>m m'. \<exists>ev. saver_step h path ev m m'" saver_inv for h path
  by unfold_locales (auto simp: saver_inv_def intro: mutex_step stop_step)

lemma saver_run_steps: "saver_run h path evs m m' \<Longrightarrow> (\<lambda>m m'. \<exists>ev. saver_step h path ev m m')\<^sup>*\<^sup>* m m'"
  by (induction rule: saver_run.induct) (auto intro: rtranclp.rtrancl_into_rtrancl)

lemmas saver_run_inv = saver_threads.reach_inv [OF saver_run_steps]

section \<open>Stopping\<close>

definition attempts :: "saver \<Rightarrow> nat" where
  "attempts m = ps_saves m + ps_failures m"

lemma attempts_simps [simp]: "attempts (count_save res m) = attempts m + 1" "attempts (notify_all m) = attempts m"
  by (simp_all add: attempts_def count_save_def)

text \<open>The steps that are left once \<open>stopping_\<close> is set: of the saver's thread, and of a call of \<open>stop\<close>.\<close>

fun thread_left :: "saver_point \<Rightarrow> nat" where
  "thread_left InSave = 4"
| "thread_left Waiting = 4"
| "thread_left AtLock = 3"
| "thread_left (Woken over) = 3"
| "thread_left (Testing over) = 2"
| "thread_left AfterWait = 1"
| "thread_left SaverReturned = 0"

fun stop_left :: "stop_point \<Rightarrow> nat" where
  "stop_left AtStopLock = 2"
| "stop_left InStop = 1"
| "stop_left AtNotify = 2"
| "stop_left AtJoin = 1"
| "stop_left StopReturned = 0"
| "stop_left StopSkipped = 0"

definition steps_left :: "saver \<Rightarrow> nat" where
  "steps_left m = thread_left (ps_point m) + sum_list (map stop_left (ps_stops m))"

definition saves_left :: "saver \<Rightarrow> nat" where
  "saves_left m = (if ps_point m = InSave then 1 else 0)"

lemma stop_left_le: "sum_list (map stop_left stops) \<le> 2 * length stops"
proof (induction stops)
  case (Cons p stops)
  then show ?case by (cases p) simp_all
qed simp

lemma steps_left_le: "steps_left m \<le> 4 + 2 * length (ps_stops m)"
  using stop_left_le [of "ps_stops m"] by (cases "ps_point m") (simp_all add: steps_left_def)

lemma stop_left_update:
  "i < length stops \<Longrightarrow> stops ! i = p \<Longrightarrow> stop_left p = Suc (stop_left q) \<Longrightarrow>
     sum_list (map stop_left stops) = Suc (sum_list (map stop_left (stops[i := q])))"
  using sum_map_update_Suc [of i stops stop_left q] by simp

lemma stopping_step:
  assumes "saver_step h path ev m m'" and "ps_stopping m"
  shows "ps_stopping m' \<and> attempts m' + saves_left m' = attempts m + saves_left m \<and>
    (if ev = StopCall then steps_left m' = steps_left m + 2 \<and> length (ps_stops m') = Suc (length (ps_stops m))
     else steps_left m' < steps_left m \<and> length (ps_stops m') = length (ps_stops m))"
  using assms
proof (induction rule: saver_step.induct)
  case (saved m s env c d res)
  then show ?case by (simp add: steps_left_def saves_left_def) (simp add: attempts_def)
next
  case (stop_locked i m)
  with stop_left_update [of i "ps_stops m" AtStopLock InStop] show ?case
    by (simp add: steps_left_def saves_left_def attempts_def)
next
  case (stop_repeated i m)
  with stop_left_update [of i "ps_stops m" InStop StopSkipped] show ?case
    by (simp add: steps_left_def saves_left_def attempts_def)
next
  case (notified i m)
  with stop_left_update [of i "ps_stops m" AtNotify AtJoin] show ?case
    by (simp add: steps_left_def saves_left_def attempts_def)
next
  case (joined i m)
  with stop_left_update [of i "ps_stops m" AtJoin StopReturned] show ?case
    by (simp add: steps_left_def saves_left_def attempts_def)
next
  case (not_joinable i m)
  with stop_left_update [of i "ps_stops m" AtJoin StopReturned] show ?case
    by (simp add: steps_left_def saves_left_def attempts_def)
qed (auto simp: steps_left_def saves_left_def attempts_def)

lemma stopping_run:
  assumes "saver_run h path evs m m'" and "ps_stopping m"
  shows "ps_stopping m' \<and> attempts m' + saves_left m' = attempts m + saves_left m \<and>
    length (filter (\<lambda>ev. ev \<noteq> StopCall) evs) + steps_left m' + 2 * length (ps_stops m) \<le> steps_left m + 2 * length (ps_stops m')"
  using assms
proof (induction rule: saver_run.induct)
  case (run_snoc evs m m1 ev m2)
  from stopping_step [OF run_snoc.hyps(2)] run_snoc.IH [OF run_snoc.prems] show ?case by (cases ev) auto
qed simp

text \<open>
  As long as a call of \<open>stop\<close> has not returned, one of the threads can work, without waiting for the
  clock: nobody waits for the mutex for ever, and the thread is not left in the wait set.
\<close>

definition finished :: "stop_point \<Rightarrow> bool" where
  "finished p \<longleftrightarrow> p \<in> {StopReturned, StopSkipped}"

lemma calls_at_member: "0 < calls_at ps stops \<Longrightarrow> \<exists>i < length stops. stops ! i \<in> ps"
  by (auto simp: calls_at_def filter_empty_conv in_set_conv_nth)

lemma stops_finished:
  assumes "saver_inv m" and "ps_stopping m" and "list_all finished (ps_stops m)"
  shows "ps_point m = SaverReturned"
proof -
  have "calls_at {AtNotify} (ps_stops m) = 0" "calls_at {AtJoin} (ps_stops m) = 0"
    using assms(3) by (auto simp: calls_at_def filter_empty_conv list_all_iff finished_def)
  with assms(1,2) show ?thesis by (auto simp: saver_inv_def stop_inv_def calls_at_first split: if_splits)
qed

lemma saver_goes_on:
  assumes inv: "saver_inv m" and stopping: "ps_stopping m" and s: "store_inv h s"
    and busy: "i < length (ps_stops m)" "\<not> finished (ps_stops m ! i)"
  shows "\<exists>m'. saver_step h path Work m m'"
proof (cases "ps_mutex m")
  case (Some x)
  show ?thesis
  proof (cases x)
    case BySaver
    with Some inv have "holds_mutex (ps_point m)" by (simp add: saver_inv_def mutex_inv_def)
    with stopping show ?thesis
      by (cases "ps_point m") (auto intro: saver_step.wait_returns saver_step.run_returns)
  next
    case (ByStop j)
    with Some inv have "j < length (ps_stops m)" "ps_stops m ! j = InStop" by (auto simp: saver_inv_def mutex_inv_def)
    with stopping show ?thesis by (blast intro: saver_step.stop_repeated)
  qed
next
  case None
  have idle: "\<not> holds_mutex (ps_point m)" "calls_at {InStop} (ps_stops m) = 0" "ps_joined m \<longrightarrow> ps_point m = SaverReturned"
    and first: "ps_point m = Waiting \<Longrightarrow> calls_at {AtNotify} (ps_stops m) = 1"
    using None inv stopping by (auto simp: saver_inv_def mutex_inv_def stop_inv_def)
  consider "ps_stops m ! i = AtStopLock" | "ps_stops m ! i = AtNotify" | "ps_stops m ! i = AtJoin"
    using busy idle(2) calls_at_nth [OF busy(1), of "{InStop}"] by (cases "ps_stops m ! i") (auto simp: finished_def)
  then show ?thesis
  proof cases
    case 3
    show ?thesis
    proof (cases "ps_point m")
      case Waiting
      from calls_at_member [of "{AtNotify}" "ps_stops m"] first [OF this] show ?thesis
        by (auto intro: saver_step.notified)
    next
      case InSave
      from save_defined [OF s [unfolded store_inv_def]] saver_step.saved [OF InSave s] show ?thesis by blast
    next
      case SaverReturned
      with 3 busy(1) show ?thesis by (cases "ps_joined m") (blast intro: saver_step.joined saver_step.not_joinable)+
    qed (use None idle(1) in \<open>auto intro: saver_step.locked saver_step.relocked\<close>)
  qed (use None busy(1) in \<open>blast intro: saver_step.stop_locked saver_step.notified\<close>)+
qed

text \<open>
  C38. \<open>PeriodicSaver::stop\<close> needs no interval to pass and leaves nothing running, however many threads
  call it and however often. From the moment \<open>stopping_\<close> is set, whatever the threads do:
  there are at most four steps and two for each call of \<open>stop\<close>; at most the save already under way is
  completed and no other begins; exactly one call goes on to notify and join, all others return early;
  when that call has returned, the saver's thread has ended, so the cache it refers to may be destroyed.
  As long as a call has not returned, some thread can go on without the clock or a spurious wake-up; when
  all have returned, the thread has ended. Only a call that returns early, beside a first one that is
  still in \<open>join\<close>, can return before the thread has ended.
\<close>

theorem saver_stop_returns:
  assumes "saver_run h path before saver_fresh m" and "ps_stopping m" and "saver_run h path evs m m'"
    and "store_inv h s"
  shows "length (filter (\<lambda>ev. ev \<noteq> StopCall) evs) \<le> 4 + 2 * length (ps_stops m') \<and>
    attempts m' \<le> attempts m + (if ps_point m = InSave then 1 else 0) \<and>
    calls_at {AtNotify, AtJoin, StopReturned} (ps_stops m') = 1 \<and>
    (StopReturned \<in> set (ps_stops m') \<longrightarrow> ps_point m' = SaverReturned) \<and>
    (if list_all finished (ps_stops m') then ps_point m' = SaverReturned else \<exists>m''. saver_step h path Work m' m'')"
proof -
  have inv: "saver_inv m" by (rule saver_run_inv [OF assms(1) saver_inv_fresh])
  have inv': "saver_inv m'" by (rule saver_run_inv [OF assms(3) inv])
  note run = stopping_run [OF assms(3,2)]
  have stopping': "ps_stopping m'" using run by simp
  have "\<exists>m''. saver_step h path Work m' m''" if "\<not> list_all finished (ps_stops m')"
  proof -
    from that obtain i where "i < length (ps_stops m')" "\<not> finished (ps_stops m' ! i)" by (auto simp: list_all_length)
    then show ?thesis by (rule saver_goes_on [OF inv' stopping' assms(4)])
  qed
  moreover have "ps_point m' = SaverReturned" if "StopReturned \<in> set (ps_stops m')"
  proof -
    from that obtain i where "i < length (ps_stops m')" "ps_stops m' ! i = StopReturned" by (auto simp: in_set_conv_nth)
    with calls_at_nth [of i "ps_stops m'" "{StopReturned}"] inv' show ?thesis
      by (auto simp: saver_inv_def stop_inv_def split: if_splits)
  qed
  moreover have "calls_at {AtNotify, AtJoin, StopReturned} (ps_stops m') = 1"
    using inv' stopping' by (simp add: saver_inv_def stop_inv_def)
  ultimately show ?thesis
    using run steps_left_le [of m] stops_finished [OF inv' stopping'] by (auto simp: saves_left_def)
qed

text \<open>The thread is in the wait set when \<open>stop\<close> is called; a second call comes while the first is in \<open>join\<close>.\<close>

definition asleep :: saver where
  "asleep = saver_fresh\<lparr>ps_point := Waiting, ps_stops := [AtNotify], ps_stopping := True\<rparr>"

lemma asleep_reached: "saver_run h path [Work, Work, StopCall, Work, Work] saver_fresh asleep"
proof -
  let ?m1 = "saver_fresh\<lparr>ps_point := Testing False, ps_mutex := Some BySaver\<rparr>"
  let ?m2 = "saver_fresh\<lparr>ps_point := Waiting\<rparr>"
  let ?m3 = "?m2\<lparr>ps_stops := [AtStopLock]\<rparr>"
  let ?m4 = "?m2\<lparr>ps_stops := [InStop], ps_mutex := Some (ByStop 0)\<rparr>"
  have "saver_step h path Work saver_fresh ?m1" by (rule saver_step.locked) (simp_all add: saver_fresh_def)
  moreover have "saver_step h path Work ?m1 ?m2" using saver_step.suspended [of ?m1] by (simp add: saver_fresh_def)
  moreover have "saver_step h path StopCall ?m2 ?m3" using saver_step.stop_called [of h path ?m2] by (simp add: saver_fresh_def)
  moreover have "saver_step h path Work ?m3 ?m4" using saver_step.stop_locked [of 0 ?m3] by (simp add: saver_fresh_def)
  moreover have "saver_step h path Work ?m4 asleep"
    using saver_step.stop_first [of 0 ?m4] by (simp add: saver_fresh_def asleep_def)
  ultimately show ?thesis
    using run_snoc [OF run_snoc [OF run_snoc [OF run_snoc [OF run_snoc [OF run_nil]]]]] by fastforce
qed

lemma asleep_stops:
  "saver_run h path [Work, StopCall, Work, Work, Work, Work, Work, Work] asleep
     (saver_fresh\<lparr>ps_point := SaverReturned, ps_stops := [StopReturned, StopSkipped], ps_stopping := True, ps_joined := True\<rparr>)"
proof -
  let ?at = "\<lambda>p q r l. saver_fresh\<lparr>ps_point := p, ps_stops := q, ps_mutex := r, ps_stopping := True, ps_joined := l\<rparr>"
  let ?m1 = "?at (Woken False) [AtJoin] None False" and ?m2 = "?at (Woken False) [AtJoin, AtStopLock] None False"
    and ?m3 = "?at (Woken False) [AtJoin, InStop] (Some (ByStop 1)) False" and ?m4 = "?at (Woken False) [AtJoin, StopSkipped] None False"
    and ?m5 = "?at (Testing False) [AtJoin, StopSkipped] (Some BySaver) False" and ?m6 = "?at AfterWait [AtJoin, StopSkipped] (Some BySaver) False"
    and ?m7 = "?at SaverReturned [AtJoin, StopSkipped] None False" and ?m8 = "?at SaverReturned [StopReturned, StopSkipped] None True"
  have "saver_step h path Work asleep ?m1"
    using saver_step.notified [of 0 asleep] by (simp add: asleep_def saver_fresh_def notify_all_def)
  moreover have "saver_step h path StopCall ?m1 ?m2" using saver_step.stop_called [of h path ?m1] by (simp add: saver_fresh_def)
  moreover have "saver_step h path Work ?m2 ?m3" using saver_step.stop_locked [of 1 ?m2] by (simp add: saver_fresh_def)
  moreover have "saver_step h path Work ?m3 ?m4" using saver_step.stop_repeated [of 1 ?m3] by (simp add: saver_fresh_def)
  moreover have "saver_step h path Work ?m4 ?m5" using saver_step.relocked [of ?m4 False] by (simp add: saver_fresh_def)
  moreover have "saver_step h path Work ?m5 ?m6" using saver_step.wait_returns [of ?m5 False] by (simp add: saver_fresh_def)
  moreover have "saver_step h path Work ?m6 ?m7" using saver_step.run_returns [of ?m6] by (simp add: saver_fresh_def)
  moreover have "saver_step h path Work ?m7 ?m8" using saver_step.joined [of 0 ?m7] by (simp add: saver_fresh_def)
  ultimately have "saver_run h path [Work, StopCall, Work, Work, Work, Work, Work, Work] asleep ?m8"
    using run_snoc [OF run_snoc [OF run_snoc [OF run_snoc [OF run_snoc [OF run_snoc [OF run_snoc [OF run_snoc [OF run_nil]]]]]]]] by fastforce
  then show ?thesis by (simp add: saver_fresh_def)
qed

theorem saver_stop_returns_witness:
  "\<exists>m'. saver_run (\<lambda>_. 0) ''dump'' [Work, StopCall, Work, Work, Work, Work, Work, Work] asleep m' \<and>
     ps_stops m' = [StopReturned, StopSkipped] \<and> ps_point m' = SaverReturned \<and> attempts m' \<le> attempts asleep"
proof -
  have "store_inv (\<lambda>_. 0) \<lparr>st_cache = sharded_unbounded 1, st_disk = \<lparr>dk_files = Map.empty, dk_counter = 0\<rparr>\<rparr>"
    by (simp add: store_inv_def)
  from saver_stop_returns [OF asleep_reached [of "\<lambda>_. 0" "''dump''"] _ asleep_stops this] asleep_stops [of "\<lambda>_. 0" "''dump''"]
  show ?thesis by (fastforce simp: asleep_def)
qed

end
