(* ===== verification/Server_Main.thy ===== *)
theory Server_Main
  imports Server Periodic_Saver Version Persistence_Properties
begin

text \<open>
  The server program (\<open>src/server_main.cpp\<close>): its arguments, the cache it builds, the snapshot it
  restores, the background saver it starts, the save it makes on the way out, and what it prints. The
  commands the workers executed, in the order the shards saw them, are an argument.
\<close>

section \<open>Arguments\<close>

definition parse_count :: "string \<Rightarrow> nat option" where
  "parse_count s =
     (case from_chars_unsigned uint64_max s of
        FcOk v [] \<Rightarrow> if s = [] then None else Some (nat v)
      | _ \<Rightarrow> None)"

record server_args =
  ag_port :: nat
  ag_capacity :: nat
  ag_shards :: nat
  ag_snapshot :: string
  ag_save_interval :: nat

text \<open>\<open>args\<close> is \<open>argv\<close> without the program's name; \<open>None\<close> means the usage message and exit code 2.\<close>

definition arg_or :: "nat \<Rightarrow> (string \<Rightarrow> nat option) \<Rightarrow> nat \<Rightarrow> string list \<Rightarrow> nat option" where
  "arg_or i parse otherwise args = (if length args \<le> i then Some otherwise else parse (args ! i))"

definition parse_server_args :: "string list \<Rightarrow> server_args option" where
  "parse_server_args args =
     (if 5 < length args then None
      else do {
        port \<leftarrow> arg_or 0 parse_port 6379 args;
        capacity \<leftarrow> arg_or 1 parse_count 0 args;
        shards \<leftarrow> arg_or 2 parse_count 8 args;
        save_interval \<leftarrow> arg_or 4 parse_count 0 args;
        Some \<lparr>ag_port = port, ag_capacity = capacity, ag_shards = shards,
          ag_snapshot = (if 4 \<le> length args then args ! 3 else []), ag_save_interval = save_interval\<rparr>
      })"

section \<open>\<open>main\<close>\<close>

definition make_cache :: "server_args \<Rightarrow> sharded_cache" where
  "make_cache a = (if ag_capacity a > 0 then sharded_bounded (ag_shards a) (ag_capacity a) else sharded_unbounded (ag_shards a))"

definition snapshot_path :: "server_args \<Rightarrow> string option" where
  "snapshot_path a = (if ag_snapshot a = [] then None else Some (ag_snapshot a))"

text \<open>\<open>std::chrono::seconds(static_cast<long long>(save_interval))\<close>; \<open>None\<close>: no saver is started.\<close>

definition saver_interval :: "server_args \<Rightarrow> int option" where
  "saver_interval a =
     (if snapshot_path a \<noteq> None \<and> ag_save_interval a > 0 then Some (wrap64 (int (ag_save_interval a))) else None)"

definition server_options_of :: "server_args \<Rightarrow> server_options" where
  "server_options_of a = default_options\<lparr>op_port := ag_port a\<rparr>"

text \<open>
  What the program prints is collected as a pair: standard output and standard error.
\<close>

type_synonym terminal = "string \<times> string"

definition then_print :: "terminal \<Rightarrow> terminal \<Rightarrow> terminal" where
  "then_print a b = (fst a @ fst b, snd a @ snd b)"

definition usage :: "string \<Rightarrow> string" where
  "usage program =
     ''usage: '' @ program @ '' [port] [capacity] [shards] [snapshot] [save-secs]'' @ [LF] @
     ''  port       TCP port to listen on (default 6379)'' @ [LF] @
     ''  capacity   maximum entries total, 0 for unbounded (default 0)'' @ [LF] @
     ''  shards     independently locked shards (default 8)'' @ [LF] @
     ''  snapshot   snapshot file path; enables SAVE/LOAD (default off)'' @ [LF] @
     ''  save-secs  auto-save interval in seconds, 0 to disable'' @ [LF]"

text \<open>The snapshot is loaded into the new cache; an error is reported and the cache stays as it is.\<close>

definition restore_report :: "string \<Rightarrow> load_result \<Rightarrow> terminal" where
  "restore_report path res =
     (if \<not> lr_ok res then ([], ''cachex-server: ignoring snapshot: '' @ lr_error res @ [LF])
      else if lr_loaded res > 0 \<or> lr_expired res > 0
      then (''restored '' @ to_string_nat (lr_loaded res) @ '' entries from '' @ path @ '' ('' @
        to_string_nat (lr_expired res) @ '' already expired)'' @ [LF], [])
      else ([], []))"

definition restore :: "hash_fn \<Rightarrow> server_args \<Rightarrow> int \<Rightarrow> (nat \<Rightarrow> time_ns) \<Rightarrow> store_state \<Rightarrow> (store_state \<times> terminal) defined" where
  "restore h a wall clock s =
     (case snapshot_path a of
        None \<Rightarrow> Some (s, [], [])
      | Some path \<Rightarrow> map_option (\<lambda>(c, res). (s\<lparr>st_cache := c\<rparr>, restore_report path res))
          (load h path wall clock (st_disk s) (st_cache s)))"

definition banner :: "version \<Rightarrow> server_args \<Rightarrow> server_options \<Rightarrow> nat \<Rightarrow> sharded_cache \<Rightarrow> string" where
  "banner version a opts bound_port c =
     ''CacheX '' @ version_text version @ '' listening on '' @ op_host opts @ '':'' @ to_string_nat bound_port @ [LF] @
     ''capacity: '' @ (if ag_capacity a > 0 then to_string_nat (ag_capacity a) @ '' entries'' else ''unbounded'') @ [LF] @
     ''shards: '' @ to_string_nat (shard_count c) @ [LF] @
     ''snapshot: '' @
       (if ag_snapshot a = [] then ''disabled''
        else ag_snapshot a @
          (if ag_save_interval a > 0 then '' (auto-save every '' @ to_string_nat (ag_save_interval a) @ ''s)''
           else '' (SAVE/LOAD only)'')) @ [LF] @
     ''thread-per-connection, max '' @ to_string_nat (op_max_connections opts) @ '' concurrent clients'' @ [LF] @
     ''press Ctrl-C to stop'' @ [LF]"

text \<open>The signal handler, on \<open>g_server\<close>: it only sets the flag that \<open>stop\<close> sets.\<close>

definition handle_signal :: "server_machine option \<Rightarrow> server_machine option" where
  "handle_signal g_server = (case g_server of None \<Rightarrow> None | Some m \<Rightarrow> Some (m\<lparr>sv_stop := True\<rparr>))"

text \<open>
  While \<open>run\<close> is running: the commands of the clients in the order the cache took them, the saves of
  the background saver among them as SAVE.
\<close>

fun run_commands :: "hash_fn \<Rightarrow> string option \<Rightarrow> (exec_env \<times> command) list \<Rightarrow> store_state \<Rightarrow> store_state defined" where
  "run_commands h p [] s = Some s"
| "run_commands h p ((env, cmd) # cmds) s = do {
     (s', reply) \<leftarrow> execute h p env cmd s;
     run_commands h p cmds s'
   }"

definition shutdown_report :: "nat \<Rightarrow> nat \<Rightarrow> string" where
  "shutdown_report served entries =
     [LF] @ ''[cachex] shutting down after '' @ to_string_nat served @ '' connection(s); '' @ to_string_nat entries @
     '' entries in cache'' @ [LF]"

definition final_save :: "server_args \<Rightarrow> save_env \<Rightarrow> store_state \<Rightarrow> (store_state \<times> terminal \<times> int) defined" where
  "final_save a env s =
     (case snapshot_path a of
        None \<Rightarrow> Some (s, ([], []), 0)
      | Some path \<Rightarrow> map_option (\<lambda>(c, d, saved).
            (s\<lparr>st_cache := c, st_disk := d\<rparr>,
             if sr_ok saved
             then ((''[cachex] saved '' @ to_string_nat (sr_entries saved) @ '' entries to '' @ path @ '' ('' @
               to_string_nat (sr_bytes saved) @ '' bytes)'' @ [LF], []), 0)
             else (([], ''[cachex] final save failed: '' @ sr_error saved @ [LF]), 1)))
          (save path env (st_cache s) (st_disk s)))"

text \<open>
  The outside world of one run: the program's name and version, the answers of the kernel, the
  clocks, what the clients did, and the last save.
\<close>

record main_env =
  me_program :: string
  me_version :: version
  me_start :: start_env
  me_now :: time_ns
  me_clock :: "nat \<Rightarrow> time_ns"
  me_commands :: "(exec_env \<times> command) list"
  me_served :: nat
  me_final :: save_env

record main_result =
  mr_store :: "store_state option"
  mr_disk :: disk
  mr_output :: terminal
  mr_code :: int

text \<open>From \<open>start\<close> on: the store is restored, \<open>printed\<close> is what was printed so far.\<close>

definition serve_until_stopped :: "hash_fn \<Rightarrow> server_args \<Rightarrow> main_env \<Rightarrow> disk \<Rightarrow> terminal \<Rightarrow> store_state \<Rightarrow> main_result defined" where
  "serve_until_stopped h a env d printed s =
     (case server_start (server_options_of a) (me_start env) \<lparr>ss_listener = kInvalid, ss_bound_port = 0\<rparr> of
        (_, Some err) \<Rightarrow> Some \<lparr>mr_store = None, mr_disk = d,
          mr_output = then_print printed ([], ''cachex-server: '' @ err @ [LF]), mr_code = 1\<rparr>
      | (listening, None) \<Rightarrow> do {
          let hello = banner (me_version env) a (server_options_of a) (ss_bound_port listening) (st_cache s);
          s \<leftarrow> run_commands h (snapshot_path a) (me_commands env) s;
          (c, entries) \<leftarrow> sharded_size (st_cache s);
          (s, report, code) \<leftarrow> final_save a (me_final env) (s\<lparr>st_cache := c\<rparr>);
          Some \<lparr>mr_store = Some s, mr_disk = st_disk s,
            mr_output = then_print (then_print printed (hello @ shutdown_report (me_served env) entries, [])) report,
            mr_code = code\<rparr>
        })"

definition server_main :: "hash_fn \<Rightarrow> string list \<Rightarrow> main_env \<Rightarrow> disk \<Rightarrow> main_result defined" where
  "server_main h args env d =
     (case parse_server_args args of
        None \<Rightarrow> Some \<lparr>mr_store = None, mr_disk = d, mr_output = ([], usage (me_program env)), mr_code = 2\<rparr>
      | Some a \<Rightarrow> do {
          (s, printed) \<leftarrow> restore h a (wall_clock_ms (me_now env)) (me_clock env) \<lparr>st_cache = make_cache a, st_disk = d\<rparr>;
          serve_until_stopped h a env d printed s
        })"

section \<open>Facts\<close>

text \<open>A signal is \<open>stop\<close>, wherever the server is; a second one changes nothing.\<close>

lemma signal_stops:
  "handle_signal (Some m) = Some m' \<Longrightarrow> \<not> sv_stop m \<Longrightarrow> server_step n m m'"
  "handle_signal (handle_signal g) = handle_signal g"
  by (auto simp: handle_signal_def server_step.stop_called split: option.splits)

lemma parse_count_Some:
  "parse_count s = Some n \<longleftrightarrow> s \<noteq> [] \<and> list_all is_digit s \<and> digits_val 0 s = n \<and> int n \<le> uint64_max"
proof
  assume "parse_count s = Some n"
  then obtain v where v: "from_chars_unsigned uint64_max s = FcOk v []" "s \<noteq> []" "n = nat v"
    by (auto simp: parse_count_def split: from_chars_result.splits list.splits if_splits)
  from from_chars_digits_complete [OF v(1) [unfolded from_chars_unsigned_def]] v show
    "s \<noteq> [] \<and> list_all is_digit s \<and> digits_val 0 s = n \<and> int n \<le> uint64_max" by auto
next
  assume "s \<noteq> [] \<and> list_all is_digit s \<and> digits_val 0 s = n \<and> int n \<le> uint64_max"
  then show "parse_count s = Some n" using from_chars_all_digits [of s uint64_max] by (auto simp: parse_count_def)
qed

lemma make_cache_inv: "sharded_inv h (make_cache a)"
  by (simp add: make_cache_def)

lemma just_built_make_cache: "just_built (make_cache a)"
  by (auto simp: make_cache_def just_built_def)

lemma run_commands_defined: "store_inv h s \<Longrightarrow> \<exists>s'. run_commands h p cmds s = Some s' \<and> store_inv h s'"
proof (induction cmds arbitrary: s)
  case (Cons x cmds)
  obtain env cmd where x: "x = (env, cmd)" by fastforce
  from execute_defined [OF Cons.prems, of p env cmd] Cons.IH x show ?case by fastforce
qed simp

lemma restore_defined:
  assumes "store_inv h s"
  shows "\<exists>s' printed. restore h a wall clock s = Some (s', printed) \<and> store_inv h s' \<and> st_disk s' = st_disk s"
proof (cases "snapshot_path a")
  case (Some path)
  from assms have "sharded_inv h (st_cache s)" by (simp add: store_inv_def)
  from load_reaches [OF this, of path wall clock "st_disk s"] Some show ?thesis
    by (fastforce simp: restore_def store_inv_def)
qed (use assms in \<open>simp add: restore_def\<close>)

lemma run_commands_capacities:
  "store_inv h s \<Longrightarrow> run_commands h p cmds s = Some s' \<Longrightarrow> shard_capacities (st_cache s') = shard_capacities (st_cache s)"
proof (induction cmds arbitrary: s)
  case (Cons x cmds)
  obtain env cmd where x: "x = (env, cmd)" by fastforce
  obtain s1 reply where s1: "execute h p env cmd s = Some (s1, reply)" "store_inv h s1"
    using execute_defined [OF Cons.prems(1)] by blast
  from Cons.IH [OF s1(2)] execute_capacities [OF Cons.prems(1) s1(1)] Cons.prems(2) s1(1) x show ?case by simp
qed simp

lemma restore_capacities:
  assumes "store_inv h s" and "restore h a wall clock s = Some (s', printed)"
  shows "shard_capacities (st_cache s') = shard_capacities (st_cache s)"
  using assms load_capacities [of h "st_cache s" _ wall clock "st_disk s"]
  by (cases "snapshot_path a") (auto simp: restore_def store_inv_def)

lemma final_save_defined:
  assumes "store_inv h s"
  shows "\<exists>s' out code. final_save a env s = Some (s', out, code) \<and> code \<in> {0, 1} \<and> st_cache s' = st_cache s"
proof (cases "snapshot_path a")
  case (Some path)
  obtain d res where "save path env (st_cache s) (st_disk s) = Some (st_cache s, d, res)"
    using save_defined [OF assms [unfolded store_inv_def]] by blast
  with Some show ?thesis by (simp add: final_save_def)
qed (simp add: final_save_def)

lemma serve_until_stopped_defined:
  assumes "store_inv h s"
  shows "\<exists>r. serve_until_stopped h a env d printed s = Some r \<and> mr_code r \<in> {0, 1} \<and>
    (mr_store r = None \<longrightarrow> mr_disk r = d \<and> mr_code r = 1)"
proof -
  obtain s2 where s2: "run_commands h (snapshot_path a) (me_commands env) s = Some s2" "store_inv h s2"
    using run_commands_defined [OF assms] by blast
  obtain k where size: "sharded_size (st_cache s2) = Some (st_cache s2, k)"
    using sharded_reads(1) [OF s2(2) [unfolded store_inv_def]] by blast
  obtain s3 out code where s3: "final_save a (me_final env) s2 = Some (s3, out, code)" "code \<in> {0, 1}"
    using final_save_defined [OF s2(2)] by blast
  obtain l e where st: "server_start (server_options_of a) (me_start env) \<lparr>ss_listener = kInvalid, ss_bound_port = 0\<rparr> = (l, e)"
    by fastforce
  show ?thesis using s2(1) size s3 st by (cases e) (simp_all add: serve_until_stopped_def)
qed

text \<open>
  Every run of the program ends with one of its exit codes: 2 and the usage text for the arguments,
  with the files untouched, 1 when the socket cannot be opened or the last save fails, 0 otherwise.
\<close>

lemma server_main_exits:
  "\<exists>r. server_main h args env d = Some r \<and> mr_code r \<in> {0, 1, 2} \<and>
     (mr_code r = 2 \<longleftrightarrow> parse_server_args args = None) \<and> (mr_store r = None \<longrightarrow> mr_disk r = d \<and> mr_code r \<noteq> 0)"
proof (cases "parse_server_args args")
  case (Some a)
  have "store_inv h \<lparr>st_cache = make_cache a, st_disk = d\<rparr>" by (simp add: store_inv_def make_cache_inv)
  from restore_defined [OF this, of a "wall_clock_ms (me_now env)" "me_clock env"] obtain s printed where
    s: "restore h a (wall_clock_ms (me_now env)) (me_clock env) \<lparr>st_cache = make_cache a, st_disk = d\<rparr> = Some (s, printed)"
      "store_inv h s" by blast
  from serve_until_stopped_defined [OF s(2), of a env d printed] s(1) Some show ?thesis
    by (auto simp: server_main_def)
qed (simp add: server_main_def)

text \<open>A run that ends with code 0 has saved its cache.\<close>

lemma final_save_zero:
  assumes "final_save a env s0 = Some (s, out, 0)" and "snapshot_path a = Some path" and "store_inv h s0"
  shows "\<exists>saved. save path env (st_cache s) (st_disk s0) = Some (st_cache s, st_disk s, saved) \<and> sr_ok saved \<and> st_cache s = st_cache s0"
proof -
  obtain d res where "save path env (st_cache s0) (st_disk s0) = Some (st_cache s0, d, res)"
    using save_defined [OF assms(3) [unfolded store_inv_def]] by blast
  with assms(1,2) show ?thesis by (auto simp: final_save_def split: if_splits)
qed

lemma server_main_saved:
  assumes "parse_server_args args = Some a" and "snapshot_path a = Some path"
    and "server_main h args env d = Some r" and "mr_code r = 0"
  obtains s d0 saved where "mr_store r = Some s" "mr_disk r = st_disk s" "sharded_inv h (st_cache s)"
    "save path (me_final env) (st_cache s) d0 = Some (st_cache s, st_disk s, saved)" "sr_ok saved"
    "shard_capacities (st_cache s) = shard_capacities (make_cache a)"
proof -
  have s0: "store_inv h \<lparr>st_cache = make_cache a, st_disk = d\<rparr>" by (simp add: store_inv_def make_cache_inv)
  from restore_defined [OF this, of a "wall_clock_ms (me_now env)" "me_clock env"] obtain s1 printed where
    s1: "restore h a (wall_clock_ms (me_now env)) (me_clock env) \<lparr>st_cache = make_cache a, st_disk = d\<rparr> = Some (s1, printed)"
      "store_inv h s1" by blast
  obtain s2 where s2: "run_commands h (snapshot_path a) (me_commands env) s1 = Some s2" "store_inv h s2"
    using run_commands_defined [OF s1(2)] by blast
  obtain k where size: "sharded_size (st_cache s2) = Some (st_cache s2, k)"
    using sharded_reads(1) [OF s2(2) [unfolded store_inv_def]] by blast
  have r: "serve_until_stopped h a env d printed s1 = Some r" using assms(1,3) s1(1) by (simp add: server_main_def)
  obtain l e where st: "server_start (server_options_of a) (me_start env) \<lparr>ss_listener = kInvalid, ss_bound_port = 0\<rparr> = (l, e)"
    by fastforce
  have "e = None" using r assms(4) st by (cases e) (auto simp: serve_until_stopped_def)
  with r assms(4) st s2(1) size obtain s out where f: "final_save a (me_final env) s2 = Some (s, out, 0)"
    "mr_store r = Some s" "mr_disk r = st_disk s"
    by (auto simp: serve_until_stopped_def bind_eq_Some_conv)
  have "shard_capacities (st_cache s2) = shard_capacities (make_cache a)"
    using run_commands_capacities [OF s1(2) s2(1)] restore_capacities [OF s0 s1(1)] by simp
  with final_save_zero [OF f(1) assms(2) s2(2)] s2(2) f(2,3) that show thesis by (auto simp: store_inv_def)
qed

text \<open>
  C19. Stopping and starting the server keeps the data. When the program ran with a snapshot file and
  ended with code 0, starting it again on the files it left, with the same path and either without a
  capacity, whatever the number of shards and the hash function, or with the capacity, the shards and
  the hash function it had, restores a cache in which every entry of the final cache is back with its
  value, with what is left of its time to live, and no other key appears. The program reports how many
  entries it restored. Records are applied from the last of the file to the first, the \<open>j\<close>-th of them
  at \<open>clock j\<close>.
\<close>

theorem server_restart_restores:
  assumes "parse_server_args args = Some a" and "snapshot_path a = Some path"
    and "server_main h args env d = Some r" and "mr_code r = 0" and "mr_store r = Some s"
    and "sharded_export (se_clock (me_final env)) (st_cache s) = Some (st_cache s, es)"
    and "list_all saveable es" and "length es < 2 ^ 63" and "int64_range (se_wall (me_final env))"
    and "snapshot_path a' = Some path"
    and "ag_capacity a' = 0 \<or> ag_capacity a' = ag_capacity a \<and> ag_shards a' = ag_shards a \<and> h' = h"
  shows "\<exists>t res. restore h' a' wall clock \<lparr>st_cache = make_cache a', st_disk = mr_disk r\<rparr> = Some (t, restore_report path res) \<and>
    lr_ok res \<and> lr_loaded res + lr_expired res = length es \<and>
    (\<forall>j < length es. sharded_kv h' (st_cache t) (snap_key (rev es ! j)) =
       revived (clock j) (elapsed_ms wall (se_wall (me_final env))) (rev es ! j)) \<and>
    (\<forall>k. k \<notin> snap_key ` set es \<longrightarrow> sharded_kv h' (st_cache t) k = None)"
proof -
  obtain d0 saved where saved: "mr_disk r = st_disk s" "sharded_inv h (st_cache s)"
    "save path (me_final env) (st_cache s) d0 = Some (st_cache s, st_disk s, saved)" "sr_ok saved"
    "shard_capacities (st_cache s) = shard_capacities (make_cache a)"
    using server_main_saved [OF assms(1-4)] assms(5) by (metis option.inject)
  have "\<exists>t res. load h' path wall clock (st_disk s) (make_cache a') = Some (t, res) \<and> lr_ok res \<and>
    lr_loaded res + lr_expired res = length es \<and>
    (\<forall>j < length es. sharded_kv h' t (snap_key (rev es ! j)) =
       revived (clock j) (elapsed_ms wall (se_wall (me_final env))) (rev es ! j)) \<and>
    (\<forall>k. k \<notin> snap_key ` set es \<longrightarrow> sharded_kv h' t k = None)"
    using assms(11)
  proof
    assume "ag_capacity a' = 0"
    then have "make_cache a' = sharded_unbounded (ag_shards a')" by (simp add: make_cache_def)
    with saved_then_loaded [OF saved(2-4) assms(6-9), of h' wall clock "ag_shards a'"] show ?thesis by simp
  next
    assume alike: "ag_capacity a' = ag_capacity a \<and> ag_shards a' = ag_shards a \<and> h' = h"
    then have "make_cache a' = make_cache a" by (simp add: make_cache_def)
    with alike saved_then_loaded_alike [OF saved(2-4) assms(6-9) just_built_make_cache saved(5) [symmetric], of wall clock]
    show ?thesis by simp
  qed
  then show ?thesis
    by (auto simp: restore_def assms(10) saved(1) intro: exI [of _ "\<lparr>st_cache = _, st_disk = mr_disk r\<rparr>"])
qed

section \<open>Instances\<close>

definition demo_args :: "nat \<Rightarrow> nat \<Rightarrow> server_args" where
  "demo_args cap n = \<lparr>ag_port = 7000, ag_capacity = cap, ag_shards = n, ag_snapshot = ''dump'', ag_save_interval = 0\<rparr>"

definition demo_world :: main_env where
  "demo_world = \<lparr>me_program = ''cachex-server'', me_version = (1, 0, 0),
     me_start = \<lparr>se_socket = Inr 3, se_address_ok = (\<lambda>_. True), se_bind = None, se_listen = None, se_sockname = Some 7000\<rparr>,
     me_now = 0, me_clock = (\<lambda>_. 0),
     me_commands = [(demo_exec 0, \<lparr>cmd_type = CSet, cmd_key = ''k'', cmd_value = ''v'', cmd_ttl = None\<rparr>)],
     me_served = 1, me_final = demo_env\<rparr>"

lemma demo_args_parsed: "parse_server_args [''7000'', ''3'', ''1'', ''dump''] = Some (demo_args 3 1)"
  by code_simp

lemma demo_args_simps:
  "snapshot_path (demo_args cap n) = Some ''dump''" "ag_capacity (demo_args cap n) = cap" "ag_shards (demo_args cap n) = n"
  by (simp_all add: snapshot_path_def demo_args_def)

definition small_cache :: sharded_cache where
  "small_cache = demo_cache\<lparr>shards := map (\<lambda>sh. sh\<lparr>sy_cache := (sy_cache sh)\<lparr>c_capacity := Some 3\<rparr>\<rparr>) (shards demo_cache)\<rparr>"

lemma small_cache_reached: "sharded_step (\<lambda>_. 0) (0, KvSet ''k'' ''v'') (sharded_bounded 1 3) = Some (small_cache, RUnit)"
  by code_simp

lemma small_cache_inv: "sharded_inv (\<lambda>_. 0) small_cache"
  using sharded_step_refines [OF sharded_inv_bounded, of "\<lambda>_. 0" "(0, KvSet ''k'' ''v'')" 1 3]
  unfolding small_cache_reached by auto

lemma small_export:
  "sharded_export clock small_cache =
     Some (small_cache, [\<lparr>snap_key = ''k'', snap_value = ''v'', snap_remaining_ttl = None\<rparr>])"
  using sharded_reads(4) [OF small_cache_inv, of clock]
  by (simp add: small_cache_def demo_cache_def cache_export_def rl_range_def)

lemma small_save:
  "\<exists>d res. save path demo_env small_cache demo_disk = Some (small_cache, d, res) \<and> sr_ok res"
  by (simp add: save_def write_snapshot_def small_export Let_def demo_env_def)

lemma demo_restore: "restore h (demo_args 3 1) wall clock \<lparr>st_cache = make_cache (demo_args 3 1), st_disk = demo_disk\<rparr> =
    Some (demo_store (sharded_bounded 1 3), [], [])"
  by (simp add: restore_def demo_args_simps load_def demo_disk_def make_cache_def demo_store_def restore_report_def load_start_def)

lemma demo_world_run:
  "\<exists>r s. server_main (\<lambda>_. 0) [''7000'', ''3'', ''1'', ''dump''] demo_world demo_disk = Some r \<and> mr_code r = 0 \<and>
     mr_store r = Some s \<and> st_cache s = small_cache"
proof -
  have cmds: "run_commands (\<lambda>_. 0) (Some ''dump'') (me_commands demo_world) (demo_store (sharded_bounded 1 3)) =
      Some (demo_store small_cache)"
    using small_cache_reached by (simp add: demo_world_def execute_def demo_store_def demo_exec_def del: One_nat_def)
  obtain k where size: "sharded_size small_cache = Some (small_cache, k)" using sharded_reads(1) [OF small_cache_inv] by blast
  obtain d res where saved: "save ''dump'' demo_env small_cache demo_disk = Some (small_cache, d, res)" "sr_ok res"
    using small_save by blast
  show ?thesis
    using demo_args_simps(1) [of 3 1] cmds size saved
    by (simp add: server_main_def demo_args_parsed demo_restore serve_until_stopped_def final_save_def del: One_nat_def)
      (simp add: demo_world_def server_start_def demo_store_def del: One_nat_def)
qed

text \<open>A server with three entries at most, restarted as it was and restarted unbounded with four shards.\<close>

theorem server_restart_restores_witness:
  "\<exists>r t1 t2 res1 res2. server_main (\<lambda>_. 0) [''7000'', ''3'', ''1'', ''dump''] demo_world demo_disk = Some r \<and>
     restore (\<lambda>_. 0) (demo_args 3 1) 5000 (\<lambda>_. 10)
       \<lparr>st_cache = make_cache (demo_args 3 1), st_disk = mr_disk r\<rparr> = Some (t1, restore_report ''dump'' res1) \<and>
     restore (\<lambda>k. of_nat (length k)) (demo_args 0 4) 5000 (\<lambda>_. 10)
       \<lparr>st_cache = make_cache (demo_args 0 4), st_disk = mr_disk r\<rparr> = Some (t2, restore_report ''dump'' res2) \<and>
     sharded_kv (\<lambda>_. 0) (st_cache t1) ''k'' = Some \<lparr>entry_key = ''k'', entry_value = ''v'', entry_expires_at = None\<rparr> \<and>
     sharded_kv (\<lambda>k. of_nat (length k)) (st_cache t2) ''k'' =
       Some \<lparr>entry_key = ''k'', entry_value = ''v'', entry_expires_at = None\<rparr>"
proof -
  let ?e = "\<lparr>snap_key = ''k'', snap_value = ''v'', snap_remaining_ttl = None\<rparr>"
  obtain r s where r: "server_main (\<lambda>_. 0) [''7000'', ''3'', ''1'', ''dump''] demo_world demo_disk = Some r" "mr_code r = 0"
    "mr_store r = Some s" "st_cache s = small_cache" using demo_world_run by blast
  have final: "me_final demo_world = demo_env" by (simp add: demo_world_def)
  have facts: "list_all saveable [?e]" "length [?e] < 2 ^ 63" "int64_range (se_wall (me_final demo_world))"
    by (simp_all add: final saveable_def entry_ttl_def kNoExpiry_def demo_env_def int64_range_def)
  have export: "sharded_export (se_clock (me_final demo_world)) (st_cache s) = Some (st_cache s, [?e])"
    by (simp add: r(4) small_export)
  note again = server_restart_restores [OF demo_args_parsed demo_args_simps(1) r(1-3) export facts demo_args_simps(1)]
  from again [where cap1 = 3 and n1 = 1 and h' = "\<lambda>_. 0" and wall = 5000 and clock = "\<lambda>_. 10"]
    again [where cap1 = 0 and n1 = 4 and h' = "\<lambda>k. of_nat (length k)" and wall = 5000 and clock = "\<lambda>_. 10"] r(1)
  show ?thesis by (fastforce simp: revived_def demo_args_simps)
qed

end
