(* ===== verification/Service.thy ===== *)
theory Service
  imports Connection_Properties "HOL-Library.Sublist"
begin

text \<open>
  Many clients at once: the workers of \<open>src/net/server.cpp\<close>, each in the loop of \<open>Connection::serve\<close>
  on its own socket, all on one sharded cache. A step is one turn of one worker: parse and execute
  the next buffered line, send the reply, read from the socket, or give up on a line that is too
  long. The server runs without a snapshot file (its default), so that executing a command is at
  most one call on one shard; SAVE and LOAD answer that persistence is off. That a command may be
  taken as one step is shown in \<open>Service_Locks\<close>.
\<close>

section \<open>The machine\<close>

datatype conn_point = Draining | Replying string bool | ConnReturned

text \<open>\<open>wc_got\<close> records the bytes read so far.\<close>

record worker_conn =
  wc_buffer :: line_buffer
  wc_recvs :: "recv_outcome list"
  wc_sends :: "send_outcome list"
  wc_handled :: nat
  wc_out :: string
  wc_point :: conn_point
  wc_got :: string

record service =
  sr_store :: store_state
  sr_conns :: "worker_conn list"
  sr_log :: "(nat \<times> string) list"

definition conn_start :: "recv_outcome list \<times> send_outcome list \<Rightarrow> worker_conn" where
  "conn_start script = \<lparr>wc_buffer = lb_fresh, wc_recvs = fst script, wc_sends = snd script, wc_handled = 0, wc_out = [],
     wc_point = Draining, wc_got = []\<rparr>"

definition service_start :: "store_state \<Rightarrow> (recv_outcome list \<times> send_outcome list) list \<Rightarrow> service" where
  "service_start s scripts = \<lparr>sr_store = s, sr_conns = map conn_start scripts, sr_log = []\<rparr>"

text \<open>The steps of a worker on its own socket: send the reply, give up on the line, read.\<close>

inductive conn_io :: "worker_conn \<Rightarrow> worker_conn \<Rightarrow> bool" where
  replied: "wc_point w = Replying reply go \<Longrightarrow> send_all (wc_sends w) reply = Some (ok, out, rest) \<Longrightarrow>
    conn_io w (w\<lparr>wc_sends := rest, wc_out := wc_out w @ out, wc_point := (if ok \<and> go then Draining else ConnReturned)\<rparr>)"
| too_long: "wc_point w = Draining \<Longrightarrow> next_line (wc_buffer w) = (b, None) \<Longrightarrow> lb_buffered b > kMaxLineBytes \<Longrightarrow>
    conn_io w (w\<lparr>wc_buffer := b, wc_point := Replying too_long_reply False\<rparr>)"
| filled: "wc_point w = Draining \<Longrightarrow> next_line (wc_buffer w) = (b, None) \<Longrightarrow> lb_buffered b \<le> kMaxLineBytes \<Longrightarrow>
    wc_recvs w = r # rs \<Longrightarrow> fill_buffer r b = (b', again) \<Longrightarrow>
    conn_io w (w\<lparr>wc_buffer := b', wc_recvs := rs, wc_got := wc_got w @ chunk_of r,
      wc_point := (if again then Draining else ConnReturned)\<rparr>)"

inductive service_step :: "hash_fn \<Rightarrow> (nat \<Rightarrow> nat \<Rightarrow> exec_env) \<Rightarrow> service \<Rightarrow> service \<Rightarrow> bool" for h envs where
  handled: "i < length (sr_conns m) \<Longrightarrow> w = sr_conns m ! i \<Longrightarrow> wc_point w = Draining \<Longrightarrow>
    next_line (wc_buffer w) = (b, Some line) \<Longrightarrow>
    respond h None (envs i) line (wc_handled w, sr_store m) = Some ((n, s), reply, go) \<Longrightarrow>
    service_step h envs m (m\<lparr>sr_store := s,
      sr_conns := (sr_conns m)[i := w\<lparr>wc_buffer := b, wc_handled := n, wc_point := Replying reply go\<rparr>],
      sr_log := sr_log m @ [(i, line)]\<rparr>)"
| io: "i < length (sr_conns m) \<Longrightarrow> conn_io (sr_conns m ! i) w \<Longrightarrow>
    service_step h envs m (m\<lparr>sr_conns := (sr_conns m)[i := w]\<rparr>)"

section \<open>One worker after the other\<close>

text \<open>
  The specification: the requests of all clients answered one at a time, in one order, each on the
  store the one before it left. \<open>n i\<close> counts the commands of client \<open>i\<close>.
\<close>

fun serial :: "hash_fn \<Rightarrow> (nat \<Rightarrow> nat \<Rightarrow> exec_env) \<Rightarrow> (nat \<times> string) list \<Rightarrow> (nat \<Rightarrow> nat) \<Rightarrow> store_state \<Rightarrow>
    ((nat \<Rightarrow> nat) \<times> store_state \<times> (nat \<times> string) list) defined" where
  "serial h envs [] n s = Some (n, s, [])"
| "serial h envs ((i, line) # log) n s = do {
     ((k, s'), reply, go) \<leftarrow> respond h None (envs i) line (n i, s);
     (n', s'', replies) \<leftarrow> serial h envs log (n(i := k)) s';
     Some (n', s'', (i, reply) # replies)
   }"

definition of_client :: "nat \<Rightarrow> (nat \<times> string) list \<Rightarrow> string list" where
  "of_client i log = map snd (filter (\<lambda>e. fst e = i) log)"

lemma of_client_append [simp]:
  "of_client i [] = []" "of_client i (log @ [(j, x)]) = of_client i log @ (if j = i then [x] else [])"
  by (simp_all add: of_client_def)

lemma serial_snoc:
  "serial h envs log n s = Some (n', s', replies) \<Longrightarrow> respond h None (envs i) line (n' i, s') = Some ((k, s''), reply, go) \<Longrightarrow>
   serial h envs (log @ [(i, line)]) n s = Some (n'(i := k), s'', replies @ [(i, reply)])"
  by (induction h envs log n s arbitrary: replies rule: serial.induct) (auto simp: bind_eq_Some_conv split: prod.splits)

section \<open>Invariant\<close>

definition point_ok :: "conn_point \<Rightarrow> string \<Rightarrow> string \<Rightarrow> bool" where
  "point_ok p out replies \<longleftrightarrow>
     (case p of
        Draining \<Rightarrow> out = replies
      | Replying reply go \<Rightarrow> out @ reply = replies \<or> (out @ reply = replies @ too_long_reply \<and> \<not> go)
      | ConnReturned \<Rightarrow> prefix out (replies @ too_long_reply))"

text \<open>
  A worker against its part of the history: the lines it handled are the first lines of what it
  read, and what it sent is what they were answered.
\<close>

definition worker_ok :: "recv_outcome list \<Rightarrow> string list \<Rightarrow> string list \<Rightarrow> nat \<Rightarrow> worker_conn \<Rightarrow> bool" where
  "worker_ok rs lines replies k w \<longleftrightarrow>
     wc_handled w = k \<and> stream_of rs = wc_got w @ stream_of (wc_recvs w) \<and>
     frames [] (wc_got w) = (lines @ fst (frames [] (lb_buffer (wc_buffer w))), snd (frames [] (lb_buffer (wc_buffer w)))) \<and>
     point_ok (wc_point w) (wc_out w) (concat replies)"

definition service_inv :: "hash_fn \<Rightarrow> (nat \<Rightarrow> nat \<Rightarrow> exec_env) \<Rightarrow> store_state \<Rightarrow> recv_outcome list list \<Rightarrow> service \<Rightarrow> bool" where
  "service_inv h envs s rss m \<longleftrightarrow> length (sr_conns m) = length rss \<and> store_inv h (sr_store m) \<and>
     (\<exists>n replies. serial h envs (sr_log m) (\<lambda>_. 0) s = Some (n, sr_store m, replies) \<and>
        (\<forall>i < length rss. worker_ok (rss ! i) (of_client i (sr_log m)) (of_client i replies) (n i) (sr_conns m ! i)))"

lemma next_line_frames:
  "next_line b = (b', None) \<Longrightarrow> b' = b \<and> frames [] (lb_buffer b) = ([], lb_buffer b)"
  "next_line b = (b', Some line) \<Longrightarrow> frames [] (lb_buffer b) = apfst (\<lambda>ls. line # ls) (frames [] (lb_buffer b'))"
  using lb.nxt_frames [of b] lb.nxt_stuck [of b b'] by auto

lemma respond_inv: "respond h p envs line (k, s) = Some ((n, s'), reply, go) \<Longrightarrow> store_inv h s \<Longrightarrow> store_inv h s'"
  using respond_defined [of h "(k, s)" p envs line] by auto

lemma worker_ok_handled:
  assumes "worker_ok rs lines replies k w" and "wc_point w = Draining" and "next_line (wc_buffer w) = (b, Some line)"
  shows "worker_ok rs (lines @ [line]) (replies @ [reply]) n (w\<lparr>wc_buffer := b, wc_handled := n, wc_point := Replying reply go\<rparr>)"
  using assms next_line_frames(2) [OF assms(3)] by (auto simp: worker_ok_def point_ok_def)

lemma worker_ok_replied:
  assumes "worker_ok rs lines replies k w" and "wc_point w = Replying reply go"
    and "send_all (wc_sends w) reply = Some (ok, out, rest)"
  shows "worker_ok rs lines replies k (w\<lparr>wc_sends := rest, wc_out := wc_out w @ out,
    wc_point := (if ok \<and> go then Draining else ConnReturned)\<rparr>)"
proof -
  obtain unsent where u: "reply = out @ unsent" "ok \<longleftrightarrow> unsent = []" using send_all_prefix [OF assms(3)] by blast
  have sent: "wc_out w @ reply = concat replies \<or> (wc_out w @ reply = concat replies @ too_long_reply \<and> \<not> go)"
    using assms(1,2) by (simp add: worker_ok_def point_ok_def)
  then have "prefix ((wc_out w @ out) @ unsent) (concat replies @ too_long_reply)"
    unfolding u(1) append_assoc by (metis prefixI prefix_order.refl)
  then have "prefix (wc_out w @ out) (concat replies @ too_long_reply)" by (rule append_prefixD)
  with sent u have "point_ok (if ok \<and> go then Draining else ConnReturned) (wc_out w @ out) (concat replies)"
    by (auto simp: point_ok_def)
  with assms(1) show ?thesis by (simp add: worker_ok_def)
qed

lemma worker_ok_filled:
  assumes "worker_ok rs0 lines replies k w" and "wc_point w = Draining" and "next_line (wc_buffer w) = (b, None)"
    and "wc_recvs w = r # rs" and "fill_buffer r b = (b', again)"
  shows "worker_ok rs0 lines replies k (w\<lparr>wc_buffer := b', wc_recvs := rs, wc_got := wc_got w @ chunk_of r,
    wc_point := (if again then Draining else ConnReturned)\<rparr>)"
proof -
  have b: "b = wc_buffer w" "frames [] (lb_buffer (wc_buffer w)) = ([], lb_buffer (wc_buffer w))"
    using next_line_frames(1) [OF assms(3)] by auto
  have b': "lb_buffer b' = lb_buffer b @ chunk_of r" using assms(5) by (cases r) (auto simp: lb_append_def)
  show ?thesis
    using assms(1,2,4) b b' by (auto simp: worker_ok_def point_ok_def stream_of_def frames_append [of "[]"])
qed

lemma worker_ok_too_long:
  assumes "worker_ok rs lines replies k w" and "wc_point w = Draining" and "next_line (wc_buffer w) = (b, None)"
  shows "worker_ok rs lines replies k (w\<lparr>wc_buffer := b, wc_point := Replying too_long_reply False\<rparr>)"
  using assms next_line_frames(1) [OF assms(3)] by (auto simp: worker_ok_def point_ok_def)

lemma worker_ok_io: "conn_io w w' \<Longrightarrow> worker_ok rs lines replies k w \<Longrightarrow> worker_ok rs lines replies k w'"
  by (cases rule: conn_io.cases) (auto intro: worker_ok_replied worker_ok_filled worker_ok_too_long simp del: if_split)

lemma service_inv_update:
  assumes "service_inv h envs s rss m"
    and "\<And>lines replies k. worker_ok (rss ! i) lines replies k (sr_conns m ! i) \<Longrightarrow> worker_ok (rss ! i) lines replies k w"
  shows "service_inv h envs s rss (m\<lparr>sr_conns := (sr_conns m)[i := w]\<rparr>)"
proof -
  obtain n replies where c: "serial h envs (sr_log m) (\<lambda>_. 0) s = Some (n, sr_store m, replies)"
    "\<And>j. j < length rss \<Longrightarrow> worker_ok (rss ! j) (of_client j (sr_log m)) (of_client j replies) (n j) (sr_conns m ! j)"
    and len: "length (sr_conns m) = length rss" and inv: "store_inv h (sr_store m)"
    using assms(1) unfolding service_inv_def by blast
  have "worker_ok (rss ! j) (of_client j (sr_log m)) (of_client j replies) (n j) ((sr_conns m)[i := w] ! j)"
    if "j < length rss" for j
    using c(2) [OF that] assms(2) that len by (cases "i = j") simp_all
  then show ?thesis using c(1) len inv by (simp add: service_inv_def)
qed

lemma service_inv_step:
  assumes "service_inv h envs s rss m" and "service_step h envs m m'"
  shows "service_inv h envs s rss m'"
  using assms(2)
proof (cases rule: service_step.cases)
  case (handled i w b line n s' reply go)
  obtain c replies where c: "serial h envs (sr_log m) (\<lambda>_. 0) s = Some (c, sr_store m, replies)"
    "\<And>j. j < length rss \<Longrightarrow> worker_ok (rss ! j) (of_client j (sr_log m)) (of_client j replies) (c j) (sr_conns m ! j)"
    using assms(1) by (auto simp: service_inv_def)
  have i: "i < length rss" using assms(1) handled(2) by (simp add: service_inv_def)
  have k: "c i = wc_handled w" using c(2) [OF i] handled(3) by (simp add: worker_ok_def)
  have ser: "serial h envs (sr_log m @ [(i, line)]) (\<lambda>_. 0) s = Some (c(i := n), s', replies @ [(i, reply)])"
    by (rule serial_snoc [OF c(1)]) (use handled(6) k in simp)
  have inv: "store_inv h s'" using respond_inv [OF handled(6)] assms(1) by (simp add: service_inv_def)
  have "worker_ok (rss ! j) (of_client j (sr_log m @ [(i, line)])) (of_client j (replies @ [(i, reply)])) ((c(i := n)) j)
      (sr_conns m' ! j)" if "j < length rss" for j
    using c(2) [OF that] worker_ok_handled [OF _ handled(4,5)] handled(1-3) by (cases "i = j") auto
  then show ?thesis using ser inv assms(1) handled(1) by (auto simp: service_inv_def)
next
  case (io i w)
  show ?thesis unfolding io(1)
    by (rule service_inv_update [OF assms(1)]) (use io worker_ok_io in blast)
qed

interpretation clients: step_invariant "service_step h envs" "service_inv h envs s rss" for h envs s rss
  by unfold_locales (rule service_inv_step)

lemma service_start_inv:
  "store_inv h s \<Longrightarrow> service_inv h envs s (map fst scripts) (service_start s scripts)"
  by (simp add: service_inv_def service_start_def conn_start_def worker_ok_def point_ok_def lb_fresh_def stream_of_def)

lemma service_log_grows: "(service_step h envs)\<^sup>*\<^sup>* m m' \<Longrightarrow> prefix (sr_log m) (sr_log m')"
proof (induction rule: rtranclp_induct)
  case (step y z)
  from step(2) have "prefix (sr_log y) (sr_log z)" by (cases rule: service_step.cases) auto
  with step(3) show ?case by (rule prefix_order.trans)
qed simp

lemma worker_ok_answers:
  assumes "worker_ok rs lines replies k w"
  shows "stream_of rs = wc_got w @ stream_of (wc_recvs w)" "prefix lines (fst (frames [] (wc_got w)))"
    "prefix (wc_out w) (concat replies @ too_long_reply)" "wc_point w = Draining \<Longrightarrow> wc_out w = concat replies"
    "snd (next_line (wc_buffer w)) = None \<Longrightarrow> lines = fst (frames [] (wc_got w))"
proof -
  show "stream_of rs = wc_got w @ stream_of (wc_recvs w)" "prefix lines (fst (frames [] (wc_got w)))"
    "wc_point w = Draining \<Longrightarrow> wc_out w = concat replies"
    using assms by (auto simp: worker_ok_def point_ok_def)
  show "prefix (wc_out w) (concat replies @ too_long_reply)"
    using assms by (cases "wc_point w") (auto simp: worker_ok_def point_ok_def dest: sym [THEN prefixI] intro: append_prefixD)
  show "lines = fst (frames [] (wc_got w))" if "snd (next_line (wc_buffer w)) = None"
    using assms next_line_frames(1) [of "wc_buffer w" "fst (next_line (wc_buffer w))"] that
    by (auto simp: worker_ok_def prod_eq_iff)
qed

section \<open>The loop of one connection is a run of the machine\<close>

definition conn_view :: "nat \<Rightarrow> service \<Rightarrow> connection" where
  "conn_view i m = \<lparr>cn_handled = wc_handled (sr_conns m ! i), cn_store = sr_store m, cn_sends = wc_sends (sr_conns m ! i),
     cn_out = wc_out (sr_conns m ! i)\<rparr>"

definition worker_at :: "nat \<Rightarrow> service \<Rightarrow> line_buffer \<Rightarrow> recv_outcome list \<Rightarrow> conn_point \<Rightarrow> connection \<Rightarrow> bool" where
  "worker_at i m b rs p c \<longleftrightarrow> i < length (sr_conns m) \<and> wc_buffer (sr_conns m ! i) = b \<and> wc_recvs (sr_conns m ! i) = rs \<and>
     wc_point (sr_conns m ! i) = p \<and> conn_view i m = c"

lemma handle_line_eq:
  "handle_line h p envs line c =
     (case respond h p envs line (conn_state c) of
        None \<Rightarrow> None
      | Some (st, reply, go) \<Rightarrow>
          (case conn_send reply (c\<lparr>cn_handled := fst st, cn_store := snd st\<rparr>) of
             (c', r) \<Rightarrow> Some (c', case r of None \<Rightarrow> StillSending | Some ok \<Rightarrow> if ok \<and> go then Continue else StopServing)))"
  by (auto simp: handle_line_def respond_def conn_state_def Let_def split: option.splits bind_splits prod.splits)

lemma reply_run:
  assumes "worker_at i m b rs (Replying reply go) c" and "conn_send reply c = (c', Some ok)"
  shows "\<exists>m'. service_step h envs m m' \<and> worker_at i m' b rs (if ok \<and> go then Draining else ConnReturned) c'"
proof -
  obtain out rest where s: "send_all (wc_sends (sr_conns m ! i)) reply = Some (ok, out, rest)"
    "c' = c\<lparr>cn_sends := rest, cn_out := cn_out c @ out\<rparr>"
    using assms by (auto simp: conn_send_def worker_at_def conn_view_def split: option.splits)
  show ?thesis
    by (rule exI, rule conjI, rule io [of i m, OF _ replied [OF _ s(1)]])
      (use assms(1) s(2) in \<open>auto simp: worker_at_def conn_view_def\<close>)
qed

lemma handle_line_run:
  assumes "worker_at i m b rs Draining c" and "next_line b = (b', Some line)"
    and "handle_line h None (envs i) line c = Some (c', e)" and "e \<noteq> StillSending"
  shows "\<exists>m'. (service_step h envs)\<^sup>*\<^sup>* m m' \<and> worker_at i m' b' rs (if e = Continue then Draining else ConnReturned) c'"
proof -
  obtain n s reply go ok where r: "respond h None (envs i) line (conn_state c) = Some ((n, s), reply, go)"
    and snd: "conn_send reply (c\<lparr>cn_handled := n, cn_store := s\<rparr>) = (c', Some ok)"
    and e: "e = (if ok \<and> go then Continue else StopServing)"
    using assms(3,4) by (auto simp: handle_line_eq split: option.splits prod.splits)
  have "\<exists>m1. service_step h envs m m1 \<and> worker_at i m1 b' rs (Replying reply go) (c\<lparr>cn_handled := n, cn_store := s\<rparr>)"
    by (rule exI, rule conjI, rule handled [of i m, OF _ refl])
      (use assms(1,2) r in \<open>auto simp: worker_at_def conn_view_def conn_state_def\<close>)
  then obtain m1 where m1: "service_step h envs m m1"
    "worker_at i m1 b' rs (Replying reply go) (c\<lparr>cn_handled := n, cn_store := s\<rparr>)" by blast
  obtain m2 where "service_step h envs m1 m2" "worker_at i m2 b' rs (if ok \<and> go then Draining else ConnReturned) c'"
    using reply_run [OF m1(2) snd, of h envs] by blast
  with m1(1) have "(service_step h envs)\<^sup>*\<^sup>* m m2" by simp
  moreover have "worker_at i m2 b' rs (if e = Continue then Draining else ConnReturned) c'"
    using \<open>worker_at i m2 _ _ _ _\<close> e by (cases "ok \<and> go") auto
  ultimately show ?thesis by blast
qed

lemma serve_lines_run:
  "worker_at i m b rs Draining c \<Longrightarrow> serve_lines h None (envs i) b c = Some (b', c', e) \<Longrightarrow> e \<noteq> StillSending \<Longrightarrow>
   \<exists>m'. (service_step h envs)\<^sup>*\<^sup>* m m' \<and> worker_at i m' b' rs (if e = Continue then Draining else ConnReturned) c'"
proof (induction "length (lb_buffer b)" arbitrary: b c m rule: less_induct)
  case less
  show ?case
  proof (cases "next_line b")
    case (Pair b1 l)
    show ?thesis
    proof (cases l)
      case None
      with Pair less.prems next_line_frames(1) [of b b1] show ?thesis by (subst (asm) serve_lines.simps) auto
    next
      case (Some line)
      obtain c1 e1 where h: "handle_line h None (envs i) line c = Some (c1, e1)"
        and rest: "if e1 = Continue then serve_lines h None (envs i) b1 c1 = Some (b', c', e) else (b', c', e) = (b1, c1, e1)"
        using less.prems(2) Pair Some by (subst (asm) serve_lines.simps) (auto split: bind_splits if_splits)
      have "e1 \<noteq> StillSending" using rest less.prems(3) by (auto split: if_splits)
      with handle_line_run [where envs = envs, OF less.prems(1) _ h] Pair Some obtain m1 where
        m1: "(service_step h envs)\<^sup>*\<^sup>* m m1" "worker_at i m1 b1 rs (if e1 = Continue then Draining else ConnReturned) c1" by blast
      show ?thesis
      proof (cases "e1 = Continue")
        case True
        have "length (lb_buffer b1) < length (lb_buffer b)" using lb.nxt_shrinks Pair Some by blast
        from less.hyps [OF this _ _ less.prems(3), of m1 c1] m1 rest True show ?thesis by (auto intro: rtranclp_trans)
      qed (use m1 rest in auto)
    qed
  qed
qed

lemma serve_lines_stuck: "serve_lines h p envs b c = Some (b', c', Continue) \<Longrightarrow> next_line b' = (b', None)"
proof (induction h p envs b c rule: serve_lines.induct)
  case (1 h p envs b c)
  show ?case
    using 1(2) 1(1) next_line_frames(1) [of b]
    by (subst (asm) serve_lines.simps) (auto split: prod.splits option.splits bind_splits if_splits)
qed

lemma too_long_run:
  assumes "worker_at i m b rs Draining c" and "next_line b = (b, None)" and "lb_buffered b > kMaxLineBytes"
    and "conn_send too_long_reply c = (c', Some ok)"
  shows "\<exists>m'. (service_step h envs)\<^sup>*\<^sup>* m m' \<and> worker_at i m' b rs ConnReturned c'"
proof -
  have "\<exists>m1. service_step h envs m m1 \<and> worker_at i m1 b rs (Replying too_long_reply False) c"
    by (rule exI, rule conjI, rule io [of i m, OF _ too_long])
      (use assms in \<open>auto simp: worker_at_def conn_view_def\<close>)
  then obtain m1 where m1: "service_step h envs m m1" "worker_at i m1 b rs (Replying too_long_reply False) c" by blast
  obtain m2 where "service_step h envs m1 m2" "worker_at i m2 b rs ConnReturned c'"
    using reply_run [OF m1(2) assms(4), of h envs] by auto
  with m1(1) show ?thesis by (metis rtranclp.rtrancl_into_rtrancl r_into_rtranclp)
qed

lemma fill_run:
  assumes "worker_at i m b (r # rs) Draining c" and "next_line b = (b, None)" and "lb_buffered b \<le> kMaxLineBytes"
    and "fill_buffer r b = (b', again)"
  shows "\<exists>m'. service_step h envs m m' \<and> worker_at i m' b' rs (if again then Draining else ConnReturned) c"
  by (rule exI, rule conjI, rule io [of i m, OF _ filled])
    (use assms in \<open>auto simp: worker_at_def conn_view_def\<close>)

lemma serve_turn:
  assumes "serve h p envs rs b c = Some (ServeReturned, b', c')"
  obtains (stopped) "serve_lines h p envs b c = Some (b', c', StopServing)"
  | (overlong) c1 ok where "serve_lines h p envs b c = Some (b', c1, Continue)" "lb_buffered b' > kMaxLineBytes"
      "conn_send too_long_reply c1 = (c', Some ok)"
  | (ended) b1 r rs' where "serve_lines h p envs b c = Some (b1, c', Continue)" "lb_buffered b1 \<le> kMaxLineBytes"
      "rs = r # rs'" "fill_buffer r b1 = (b', False)"
  | (more_input) b1 c1 r rs' b2 where "serve_lines h p envs b c = Some (b1, c1, Continue)" "lb_buffered b1 \<le> kMaxLineBytes"
      "rs = r # rs'" "fill_buffer r b1 = (b2, True)" "serve h p envs rs' b2 c1 = Some (ServeReturned, b', c')"
proof -
  obtain b1 c1 e where l: "serve_lines h p envs b c = Some (b1, c1, e)"
    using assms by (subst (asm) serve.simps) (auto split: bind_splits)
  show thesis
    using assms l that
    by (subst (asm) serve.simps)
      (auto simp: not_less split: line_end.splits if_splits prod.splits list.splits bool.splits)
qed

text \<open>
  Whatever \<open>serve\<close> does up to its return, the machine can do by steps of that worker alone: the
  machine has the runs of the handler among its own.
\<close>

lemma serve_run:
  "worker_at i m b rs Draining c \<Longrightarrow> serve h None (envs i) rs b c = Some (ServeReturned, b', c') \<Longrightarrow>
   \<exists>m' rs'. (service_step h envs)\<^sup>*\<^sup>* m m' \<and> worker_at i m' b' rs' ConnReturned c'"
proof (induction "length rs" arbitrary: rs b c m rule: less_induct)
  case less
  from less.prems(2) show ?case
  proof (cases rule: serve_turn)
    case stopped
    from serve_lines_run [where envs = envs, OF less.prems(1) this] show ?thesis by auto
  next
    case (overlong c1 ok)
    obtain m1 where m1: "(service_step h envs)\<^sup>*\<^sup>* m m1" "worker_at i m1 b' rs Draining c1"
      using serve_lines_run [where envs = envs, OF less.prems(1) overlong(1)] by auto
    from too_long_run [OF m1(2) serve_lines_stuck [OF overlong(1)] overlong(2,3), of h envs] m1(1)
    show ?thesis by (blast intro: rtranclp_trans)
  next
    case (ended b1 r rs')
    obtain m1 where m1: "(service_step h envs)\<^sup>*\<^sup>* m m1" "worker_at i m1 b1 (r # rs') Draining c'"
      using serve_lines_run [where envs = envs, OF less.prems(1) ended(1)] ended(3) by auto
    from fill_run [OF m1(2) serve_lines_stuck [OF ended(1)] ended(2,4), of h envs] m1(1)
    show ?thesis by (auto intro: rtranclp.rtrancl_into_rtrancl)
  next
    case (more_input b1 c1 r rs' b2)
    obtain m1 where m1: "(service_step h envs)\<^sup>*\<^sup>* m m1" "worker_at i m1 b1 (r # rs') Draining c1"
      using serve_lines_run [where envs = envs, OF less.prems(1) more_input(1)] more_input(3) by auto
    obtain m2 where m2: "service_step h envs m1 m2" "worker_at i m2 b2 rs' Draining c1"
      using fill_run [OF m1(2) serve_lines_stuck [OF more_input(1)] more_input(2,4), of h envs] by auto
    have "(service_step h envs)\<^sup>*\<^sup>* m m2" using m1(1) m2(1) by (rule rtranclp.rtrancl_into_rtrancl)
    with less.hyps [OF _ m2(2) more_input(5)] more_input(3) show ?thesis by (auto intro: rtranclp_trans)
  qed
qed

section \<open>One order of all requests\<close>

text \<open>
  Clients served at the same time see a server that works on one request at a time: for every
  interleaving of the workers there is one order of all the requests such that answering them one by
  one, on the same starting cache, gives the cache and exactly the replies each client was sent.
  Each client's requests are the first lines of what it sent, in its order, all of them once its
  buffer holds no complete line; what it was sent is a beginning of its replies (and of the message
  that ends an overlong line), and all of them between two requests. The order only grows, so
  a request handled earlier stays before every later one.
\<close>

lemma service_serializable:
  assumes "store_inv h s" and "(service_step h envs)\<^sup>*\<^sup>* (service_start s scripts) m" and "(service_step h envs)\<^sup>*\<^sup>* m m'"
  shows "prefix (sr_log m) (sr_log m') \<and>
    (\<exists>n replies. serial h envs (sr_log m) (\<lambda>_. 0) s = Some (n, sr_store m, replies) \<and>
       (\<forall>i < length scripts. let w = sr_conns m ! i in
          stream_of (fst (scripts ! i)) = wc_got w @ stream_of (wc_recvs w) \<and>
          prefix (of_client i (sr_log m)) (fst (frames [] (wc_got w))) \<and>
          (snd (next_line (wc_buffer w)) = None \<longrightarrow> of_client i (sr_log m) = fst (frames [] (wc_got w))) \<and>
          prefix (wc_out w) (concat (of_client i replies) @ too_long_reply) \<and>
          (wc_point w = Draining \<longrightarrow> wc_out w = concat (of_client i replies))))"
proof -
  have "service_inv h envs s (map fst scripts) m" by (rule clients.reach_inv [OF assms(2) service_start_inv [OF assms(1)]])
  then obtain n replies where c: "serial h envs (sr_log m) (\<lambda>_. 0) s = Some (n, sr_store m, replies)"
    and w: "\<And>i. i < length scripts \<Longrightarrow>
      worker_ok (fst (scripts ! i)) (of_client i (sr_log m)) (of_client i replies) (n i) (sr_conns m ! i)"
    by (auto simp: service_inv_def)
  show ?thesis using c worker_ok_answers [OF w] service_log_grows [OF assms(3)] by (auto simp: Let_def)
qed

section \<open>Instances\<close>

definition demo_scripts :: "(recv_outcome list \<times> send_outcome list) list" where
  "demo_scripts = [(demo_reads @ [RecvEof], cn_sends demo_conn), ([Received ''GE''], [])]"

lemma service_serializable_instance:
  "\<exists>m n replies. (service_step (\<lambda>_. 0) (\<lambda>_ _. demo_exec 0))\<^sup>*\<^sup>* (service_start (demo_store demo_cache) demo_scripts) m \<and>
     wc_point (sr_conns m ! 0) = ConnReturned \<and> wc_out (sr_conns m ! 0) = demo_replies \<and>
     serial (\<lambda>_. 0) (\<lambda>_ _. demo_exec 0) (sr_log m) (\<lambda>_. 0) (demo_store demo_cache) = Some (n, sr_store m, replies) \<and>
     prefix demo_replies (concat (of_client 0 replies) @ too_long_reply)"
proof -
  let ?h = "\<lambda>_. 0 :: 64 word" and ?envs = "\<lambda>_ _. demo_exec 0" and ?s = "demo_store demo_cache"
  have inv: "store_inv ?h ?s" using demo_conn_inv by (simp add: conn_inv_def demo_conn_def)
  have start: "worker_at 0 (service_start ?s demo_scripts) lb_fresh (demo_reads @ [RecvEof]) Draining demo_conn"
    by (simp add: worker_at_def conn_view_def service_start_def demo_scripts_def conn_start_def demo_conn_def)
  have "list_all got_input demo_reads" "runs_le kMaxLineBytes 0 (stream_of demo_reads)"
    by (simp_all add: demo_reads_def stream_of_def kMaxLineBytes_def)
  moreover have "reliable (length demo_replies) (cn_sends demo_conn)" by code_simp
  ultimately obtain b' rest where serve: "serve ?h None (\<lambda>_. demo_exec 0) (demo_reads @ [RecvEof]) lb_fresh demo_conn =
      Some (ServeReturned, b', conn_after demo_conn (2, ?s) demo_replies rest)"
    using serve_session [where go = False, of demo_reads "[RecvEof]" lb_fresh ?h None "\<lambda>_. demo_exec 0" demo_conn] demo_session
    by (auto simp: lb_fresh_def)
  obtain m rs' where m: "(service_step ?h ?envs)\<^sup>*\<^sup>* (service_start ?s demo_scripts) m"
    "worker_at 0 m b' rs' ConnReturned (conn_after demo_conn (2, ?s) demo_replies rest)"
    using serve_run [where envs = ?envs, OF start serve] by blast
  have out: "wc_out (sr_conns m ! 0) = demo_replies" "wc_point (sr_conns m ! 0) = ConnReturned"
    using m(2) by (auto simp: worker_at_def conn_view_def conn_after_def demo_conn_def)
  from service_serializable [OF inv m(1) rtranclp.rtrancl_refl] obtain n replies where
    "serial ?h ?envs (sr_log m) (\<lambda>_. 0) ?s = Some (n, sr_store m, replies)"
    "prefix (wc_out (sr_conns m ! 0)) (concat (of_client 0 replies) @ too_long_reply)"
    by (auto simp: Let_def demo_scripts_def)
  with m(1) out show ?thesis by auto
qed

end
