(* ===== verification/Shard_Concurrency.thy ===== *)
theory Shard_Concurrency
  imports Sharded_Properties "HOL-Library.Sublist"
begin

text \<open>
  Threads sharing one \<open>ShardedCache\<close>. A method of \<open>SyncCache\<close> is a critical section of four steps:
  take the shard's mutex, read the cache, write it back, release the mutex; the steps of different
  threads interleave freely, and a thread that finds the mutex taken waits. A key operation of
  \<open>ShardedCache\<close> is one such call on the shard of its key; \<open>clear\<close>, \<open>size\<close> and
  \<open>export_entries\<close> call one shard after the other.
\<close>

type_synonym shard_call = "nat \<times> time_ns \<times> cache_op"

datatype phase = Idle | Acquired shard_call | Loaded shard_call cache | Stored shard_call cache_result

record thread =
  th_phase :: phase
  th_todo :: "shard_call list"
  th_results :: "cache_result list"

text \<open>\<open>sc_log\<close> is the history: the calls in the order they wrote their shard, with their results.\<close>

record shard_machine =
  sc_shards :: "sync_cache list"
  sc_threads :: "thread list"
  sc_log :: "(nat \<times> shard_call \<times> cache_result) list"

definition key_call :: "hash_fn \<Rightarrow> sharded_cache \<Rightarrow> time_ns \<times> kv_op \<Rightarrow> shard_call" where
  "key_call h s x = (shard_index_for h (the (kv_key (snd x))) s, fst x, cache_op_of (snd x))"

definition loop_calls :: "nat \<Rightarrow> (nat \<Rightarrow> time_ns) \<Rightarrow> cache_op \<Rightarrow> shard_call list" where
  "loop_calls n clock op = map (\<lambda>i. (i, clock i, op)) [0..<n]"

inductive shard_step :: "shard_machine \<Rightarrow> shard_machine \<Rightarrow> bool" where
  acquired: "t < length (sc_threads m) \<Longrightarrow> th = sc_threads m ! t \<Longrightarrow> th_phase th = Idle \<Longrightarrow>
    th_todo th = call # rest \<Longrightarrow> fst call < length (sc_shards m) \<Longrightarrow>
    lock_mutex (sc_shards m ! fst call) = Some sh \<Longrightarrow>
    shard_step m (m\<lparr>sc_shards := (sc_shards m)[fst call := sh],
      sc_threads := (sc_threads m)[t := th\<lparr>th_phase := Acquired call, th_todo := rest\<rparr>]\<rparr>)"
| loaded: "t < length (sc_threads m) \<Longrightarrow> th = sc_threads m ! t \<Longrightarrow> th_phase th = Acquired call \<Longrightarrow>
    shard_step m (m\<lparr>sc_threads := (sc_threads m)[t := th\<lparr>th_phase := Loaded call (sy_cache (sc_shards m ! fst call))\<rparr>]\<rparr>)"
| stored: "t < length (sc_threads m) \<Longrightarrow> th = sc_threads m ! t \<Longrightarrow> th_phase th = Loaded call c \<Longrightarrow>
    cache_step (snd call) c = Some (d, r) \<Longrightarrow>
    shard_step m (m\<lparr>sc_shards := (sc_shards m)[fst call := (sc_shards m ! fst call)\<lparr>sy_cache := d\<rparr>],
      sc_threads := (sc_threads m)[t := th\<lparr>th_phase := Stored call r\<rparr>], sc_log := sc_log m @ [(t, call, r)]\<rparr>)"
| released: "t < length (sc_threads m) \<Longrightarrow> th = sc_threads m ! t \<Longrightarrow> th_phase th = Stored call r \<Longrightarrow>
    shard_step m (m\<lparr>sc_shards := (sc_shards m)[fst call := unlock_mutex (sc_shards m ! fst call)],
      sc_threads := (sc_threads m)[t := th\<lparr>th_phase := Idle, th_results := th_results th @ [r]\<rparr>]\<rparr>)"

section \<open>Mutual exclusion\<close>

fun holding :: "phase \<Rightarrow> nat option" where
  "holding Idle = None"
| "holding (Acquired call) = Some (fst call)"
| "holding (Loaded call c) = Some (fst call)"
| "holding (Stored call r) = Some (fst call)"

definition held_by :: "shard_machine \<Rightarrow> nat \<Rightarrow> nat \<Rightarrow> bool" where
  "held_by m t i \<longleftrightarrow> t < length (sc_threads m) \<and> holding (th_phase (sc_threads m ! t)) = Some i"

text \<open>
  A mutex is locked exactly when one thread is inside its critical section, no two threads are, and
  what a thread has read is still what the shard holds.
\<close>

definition locks_inv :: "shard_machine \<Rightarrow> bool" where
  "locks_inv m \<longleftrightarrow>
     (\<forall>t i. held_by m t i \<longrightarrow> i < length (sc_shards m)) \<and>
     (\<forall>i < length (sc_shards m). sy_locked (sc_shards m ! i) \<longleftrightarrow> (\<exists>t. held_by m t i)) \<and>
     (\<forall>t u i. held_by m t i \<longrightarrow> held_by m u i \<longrightarrow> t = u) \<and>
     (\<forall>t < length (sc_threads m). \<forall>call c. th_phase (sc_threads m ! t) = Loaded call c \<longrightarrow>
        c = sy_cache (sc_shards m ! fst call))"

lemma locks_inv_read:
  "locks_inv m \<Longrightarrow> t < length (sc_threads m) \<Longrightarrow> th_phase (sc_threads m ! t) = Loaded call c \<Longrightarrow>
   c = sy_cache (sc_shards m ! fst call)"
  unfolding locks_inv_def by blast

lemma locks_inv_range: "locks_inv m \<Longrightarrow> held_by m t i \<Longrightarrow> i < length (sc_shards m)"
  unfolding locks_inv_def by blast

lemma held_by_update:
  "t < length (sc_threads m) \<Longrightarrow>
   held_by (m\<lparr>sc_shards := ss, sc_threads := (sc_threads m)[t := th], sc_log := l\<rparr>) u i \<longleftrightarrow>
     (if u = t then holding (th_phase th) = Some i else held_by m u i)"
  by (auto simp: held_by_def)

lemma locks_inv_acquired:
  assumes inv: "locks_inv m" and t: "t < length (sc_threads m)" "th_phase (sc_threads m ! t) = Idle"
    and call: "i < length (sc_shards m)" "lock_mutex (sc_shards m ! i) = Some sh"
    and th: "th_phase th = Acquired call" "fst call = i"
  shows "locks_inv (m\<lparr>sc_shards := (sc_shards m)[i := sh], sc_threads := (sc_threads m)[t := th]\<rparr>)"
proof -
  let ?m = "m\<lparr>sc_shards := (sc_shards m)[i := sh], sc_threads := (sc_threads m)[t := th]\<rparr>"
  have held: "held_by ?m u j \<longleftrightarrow> (if u = t then j = i else held_by m u j)" for u j
    using held_by_update [OF t(1), where ss = "(sc_shards m)[i := sh]" and th = th and l = "sc_log m" and u = u and i = j] th by auto
  have idle: "\<not> held_by m t j" for j using t by (simp add: held_by_def)
  have sh: "\<not> sy_locked (sc_shards m ! i)" "sy_locked sh" "sy_cache sh = sy_cache (sc_shards m ! i)"
    using call(2) by (auto simp: lock_mutex_def split: if_splits)
  then have free: "\<not> held_by m u i" for u using inv call(1) by (auto simp: locks_inv_def)
  have "sy_locked (sc_shards ?m ! j) \<longleftrightarrow> (\<exists>u. if u = t then j = i else held_by m u j)" if "j < length (sc_shards m)" for j
  proof (cases "j = i")
    case False
    then have "(\<exists>u. if u = t then j = i else held_by m u j) \<longleftrightarrow> (\<exists>u. held_by m u j)" using idle by metis
    with False inv that show ?thesis by (simp add: locks_inv_def)
  qed (use call(1) sh in auto)
  then show ?thesis unfolding locks_inv_def held
    using inv call(1) sh free t th by (auto simp: locks_inv_def nth_list_update split: if_splits)
qed

lemma locks_inv_inside:
  assumes inv: "locks_inv m" and t: "held_by m t i"
    and sh: "sy_locked sh" and th: "holding (th_phase th) = Some i"
    and read: "\<And>call c. th_phase th = Loaded call c \<Longrightarrow> c = sy_cache sh"
  shows "locks_inv (m\<lparr>sc_shards := (sc_shards m)[i := sh], sc_threads := (sc_threads m)[t := th], sc_log := l\<rparr>)"
proof -
  let ?m = "m\<lparr>sc_shards := (sc_shards m)[i := sh], sc_threads := (sc_threads m)[t := th], sc_log := l\<rparr>"
  have lt: "t < length (sc_threads m)" "i < length (sc_shards m)"
    using t inv by (auto simp: held_by_def locks_inv_def)
  have held: "held_by ?m u j \<longleftrightarrow> held_by m u j" for u j
    using held_by_update [OF lt(1), where ss = "(sc_shards m)[i := sh]" and th = th and l = l and u = u and i = j] th t by (auto simp: held_by_def)
  have other: "fst call \<noteq> i" if "u < length (sc_threads m)" "u \<noteq> t" "th_phase (sc_threads m ! u) = Loaded call c" for u call c
    using inv t that unfolding locks_inv_def by (auto simp: held_by_def)
  have mine: "fst call = i" if "th_phase th = Loaded call c" for call c using th that by simp
  have "c = sy_cache (sc_shards ?m ! fst call)"
    if "u < length (sc_threads ?m)" "th_phase (sc_threads ?m ! u) = Loaded call c" for u call c
  proof (cases "u = t")
    case False
    with that locks_inv_read [OF inv] other [of u call c] show ?thesis by simp
  qed (use that lt read mine [of call c] in simp)
  moreover have "\<forall>j < length (sc_shards ?m). sy_locked (sc_shards ?m ! j) \<longleftrightarrow> (\<exists>u. held_by m u j)"
    using inv lt sh t by (auto simp: locks_inv_def nth_list_update)
  ultimately show ?thesis unfolding locks_inv_def held using inv by (simp add: locks_inv_def)
qed

lemma locks_inv_released:
  assumes inv: "locks_inv m" and t: "held_by m t i" and th: "th_phase th = Idle"
  shows "locks_inv (m\<lparr>sc_shards := (sc_shards m)[i := unlock_mutex (sc_shards m ! i)], sc_threads := (sc_threads m)[t := th]\<rparr>)"
proof -
  let ?sh = "(sc_shards m)[i := unlock_mutex (sc_shards m ! i)]"
  let ?m = "m\<lparr>sc_shards := ?sh, sc_threads := (sc_threads m)[t := th]\<rparr>"
  have lt: "t < length (sc_threads m)" "i < length (sc_shards m)"
    using t inv by (auto simp: held_by_def locks_inv_def)
  have held: "held_by ?m u j \<longleftrightarrow> u \<noteq> t \<and> held_by m u j" for u j
    using held_by_update [OF lt(1), where ss = ?sh and th = th and l = "sc_log m" and u = u and i = j] th by auto
  have cache: "sy_cache (?sh ! j) = sy_cache (sc_shards m ! j)" for j
    using lt by (cases "j = i") (auto simp: unlock_mutex_def)
  have "sy_locked (?sh ! j) \<longleftrightarrow> (\<exists>u. u \<noteq> t \<and> held_by m u j)" if "j < length (sc_shards m)" for j
  proof (cases "j = i")
    case True
    with inv lt t show ?thesis unfolding locks_inv_def by (auto simp: unlock_mutex_def)
  next
    case False
    with t have "\<not> held_by m t j" by (simp add: held_by_def)
    then have "(\<exists>u. u \<noteq> t \<and> held_by m u j) \<longleftrightarrow> (\<exists>u. held_by m u j)" by metis
    with False inv that show ?thesis by (simp add: locks_inv_def)
  qed
  then show ?thesis unfolding locks_inv_def held using inv lt th cache
    by (auto simp: locks_inv_def nth_list_update split: if_splits)
qed

lemma locks_inv_step: "locks_inv m \<Longrightarrow> shard_step m m' \<Longrightarrow> locks_inv m'"
proof (erule shard_step.cases, goal_cases)
  case (1 t m1 th call rest sh)
  then show ?case using locks_inv_acquired [of m t "fst call" sh] by simp
next
  case (2 t m1 th call)
  have h: "held_by m t (fst call)" using 2 by (simp add: held_by_def)
  then have "sy_locked (sc_shards m ! fst call)" using 2 by (auto simp: locks_inv_def)
  with locks_inv_inside [OF 2(1) h, of "sc_shards m ! fst call"
      "th\<lparr>th_phase := Loaded call (sy_cache (sc_shards m ! fst call))\<rparr>" "sc_log m"] 2
  show ?case by simp
next
  case (3 t m1 th call c d r)
  have h: "held_by m t (fst call)" using 3 by (simp add: held_by_def)
  then have "sy_locked (sc_shards m ! fst call)" using 3 by (auto simp: locks_inv_def)
  with locks_inv_inside [OF 3(1) h, of "(sc_shards m ! fst call)\<lparr>sy_cache := d\<rparr>" "th\<lparr>th_phase := Stored call r\<rparr>"] 3 show ?case by simp
next
  case (4 t m1 th call r)
  then have "held_by m t (fst call)" by (simp add: held_by_def)
  with locks_inv_released [OF 4(1) this] 4 show ?case by simp
qed

section \<open>The history\<close>

text \<open>The history replayed by one thread: every call returns the result it returned then.\<close>

fun replay :: "(nat \<times> shard_call \<times> cache_result) list \<Rightarrow> cache list \<Rightarrow> cache list option" where
  "replay [] cs = Some cs"
| "replay ((t, (i, x), r) # log) cs =
     (if i < length cs
      then (case cache_step x (cs ! i) of
              Some (d, r') \<Rightarrow> if r' = r then replay log (cs[i := d]) else None
            | None \<Rightarrow> None)
      else None)"

lemma replay_append: "replay (l1 @ l2) cs = Option.bind (replay l1 cs) (replay l2)"
  by (induction l1 cs rule: replay.induct) (auto split: option.splits)

lemma replay_inv:
  "replay log cs = Some ds \<Longrightarrow> \<forall>c \<in> set cs. cache_inv c \<Longrightarrow> (\<forall>d \<in> set ds. cache_inv d) \<and> length ds = length cs"
proof (induction log cs rule: replay.induct)
  case (2 t i x r log cs)
  have i: "i < length cs" using 2(2) by (simp split: if_splits)
  with 2(3) have "cache_inv (cs ! i)" by simp
  from cache_step_refines [OF this, of x] obtain d r' where
    d: "cache_step x (cs ! i) = Some (d, r')" "cache_inv d" by blast
  have r': "r' = r" using 2(2) d i by (simp split: if_splits)
  have "\<forall>c \<in> set (cs[i := d]). cache_inv c" using 2(3) d(2) by (auto dest: set_update_subset_insert [THEN subsetD])
  with 2(1) [OF i d(1) refl r'] 2(2) i d(1) r' show ?case by simp
qed simp

definition thread_log :: "shard_machine \<Rightarrow> nat \<Rightarrow> (shard_call \<times> cache_result) list" where
  "thread_log m t = map snd (filter (\<lambda>e. fst e = t) (sc_log m))"

fun started :: "phase \<Rightarrow> shard_call list" where
  "started (Acquired call) = [call]"
| "started (Loaded call c) = [call]"
| "started _ = []"

fun unreturned :: "phase \<Rightarrow> cache_result list" where
  "unreturned (Stored call r) = [r]"
| "unreturned _ = []"

text \<open>
  The history explains the state: replaying it gives the shards, and for each thread its part is its
  program so far with the results it was given.
\<close>

definition history_inv :: "cache list \<Rightarrow> shard_call list list \<Rightarrow> shard_machine \<Rightarrow> bool" where
  "history_inv cs progs m \<longleftrightarrow>
     replay (sc_log m) cs = Some (map sy_cache (sc_shards m)) \<and> length (sc_threads m) = length progs \<and>
     (\<forall>e \<in> set (sc_log m). fst e < length progs) \<and>
     (\<forall>t < length progs. let th = sc_threads m ! t in
        map fst (thread_log m t) @ started (th_phase th) @ th_todo th = progs ! t \<and>
        map snd (thread_log m t) = th_results th @ unreturned (th_phase th))"

lemma thread_log_simps [simp]:
  "thread_log (m\<lparr>sc_shards := ss\<rparr>) t = thread_log m t" "thread_log (m\<lparr>sc_threads := ts\<rparr>) t = thread_log m t"
  "thread_log (m\<lparr>sc_log := sc_log m @ [(u, call, r)]\<rparr>) t = thread_log m t @ (if t = u then [(call, r)] else [])"
  "thread_log (m\<lparr>sc_shards := ss, sc_threads := ts, sc_log := sc_log m @ [(u, call, r)]\<rparr>) t =
     thread_log m t @ (if t = u then [(call, r)] else [])"
  by (simp_all add: thread_log_def)

lemma map_update_same: "f x = f (xs ! i) \<Longrightarrow> map f (xs[i := x]) = map f xs"
  by (metis list_update_id map_update)

lemma history_inv_step:
  assumes "locks_inv m" and "history_inv cs progs m" and "shard_step m m'"
  shows "history_inv cs progs m'"
  using assms(3,1,2)
proof (cases rule: shard_step.cases)
  case (acquired t th call rest sh)
  then have "sy_cache sh = sy_cache (sc_shards m ! fst call)" by (auto simp: lock_mutex_def split: if_splits)
  with acquired assms(2) show ?thesis
    by (auto simp: history_inv_def Let_def nth_list_update map_update_same)
next
  case (loaded t th call)
  with assms(2) show ?thesis by (auto simp: history_inv_def Let_def nth_list_update)
next
  case (stored t th call c d r)
  obtain i x where call: "call = (i, x)" by (cases call) blast
  have c: "c = sy_cache (sc_shards m ! i)" using locks_inv_read [OF assms(1) stored(2)] stored(3,4) call by simp
  have "held_by m t i" using stored(2-4) call by (simp add: held_by_def)
  then have "i < length (sc_shards m)" by (rule locks_inv_range [OF assms(1)])
  then have "replay (sc_log m') cs = Some (map sy_cache (sc_shards m'))"
    using assms(2) stored call c by (simp add: history_inv_def replay_append map_update)
  with stored assms(2) show ?thesis by (auto simp: history_inv_def Let_def nth_list_update)
next
  case (released t th call r)
  with assms(2) show ?thesis
    by (auto simp: history_inv_def Let_def nth_list_update map_update_same unlock_mutex_def)
qed

definition shard_inv :: "cache list \<Rightarrow> shard_call list list \<Rightarrow> shard_machine \<Rightarrow> bool" where
  "shard_inv cs progs m \<longleftrightarrow> locks_inv m \<and> history_inv cs progs m"

interpretation shard_threads: step_invariant shard_step "shard_inv cs progs" for cs progs
  by unfold_locales (auto simp: shard_inv_def intro: locks_inv_step history_inv_step)

definition start_threads :: "sharded_cache \<Rightarrow> shard_call list list \<Rightarrow> shard_machine" where
  "start_threads s progs = \<lparr>sc_shards = shards s,
     sc_threads = map (\<lambda>calls. \<lparr>th_phase = Idle, th_todo = calls, th_results = []\<rparr>) progs, sc_log = []\<rparr>"

lemma start_threads_inv:
  assumes "sharded_inv h s"
  shows "shard_inv (map sy_cache (shards s)) progs (start_threads s progs)"
  using assms
  by (auto simp: shard_inv_def locks_inv_def history_inv_def held_by_def start_threads_def sharded_inv_def
      sync_inv_def thread_log_def)

section \<open>Key operations\<close>

lemma cache_op_of_inj: "cache_op_of a = cache_op_of b \<Longrightarrow> a = b"
  by (cases a; cases b) auto

lemma key_call_inj: "key_call h s x = key_call h s y \<Longrightarrow> x = y"
  by (cases x; cases y) (auto simp: key_call_def dest: cache_op_of_inj)

definition keyed :: "time_ns \<times> kv_op \<Rightarrow> bool" where
  "keyed x \<longleftrightarrow> kv_key (snd x) \<noteq> None"

type_synonym history = "(nat \<times> (time_ns \<times> kv_op) \<times> cache_result) list"

definition calls_of :: "hash_fn \<Rightarrow> sharded_cache \<Rightarrow> history \<Rightarrow> (nat \<times> shard_call \<times> cache_result) list" where
  "calls_of h s hist = map (\<lambda>(t, x, r). (t, key_call h s x, r)) hist"

definition ops_of :: "history \<Rightarrow> (time_ns \<times> kv_op) list" where
  "ops_of hist = map (\<lambda>e. fst (snd e)) hist"

definition answers_of :: "history \<Rightarrow> cache_result list" where
  "answers_of hist = map (\<lambda>e. snd (snd e)) hist"

definition by_thread :: "nat \<Rightarrow> history \<Rightarrow> history" where
  "by_thread t hist = filter (\<lambda>e. fst e = t) hist"

lemmas history_defs = calls_of_def ops_of_def answers_of_def by_thread_def

text \<open>A history of key operations that replays on the shards is a run of the sharded cache.\<close>

lemma key_call_cong: "length (shards s) = length (shards s') \<Longrightarrow> key_call h s = key_call h s'"
  by (auto simp: key_call_def shard_index_for_def)

lemma replay_sharded:
  "sharded_inv h s \<Longrightarrow> \<forall>e \<in> set hist. keyed (fst (snd e)) \<Longrightarrow>
   replay (calls_of h s hist) (map sy_cache (shards s)) = Some ds \<Longrightarrow>
   \<exists>s'. run_defined (sharded_step h) (ops_of hist) s = Some (s', answers_of hist) \<and> map sy_cache (shards s') = ds"
proof (induction hist arbitrary: s)
  case (Cons e hist)
  obtain t now op r where e: "e = (t, (now, op), r)" by (cases e) auto
  obtain k where k: "kv_key op = Some k" using Cons.prems(2) e by (auto simp: keyed_def)
  let ?i = "shard_index_for h k s"
  have i: "?i < length (shards s)" using Cons.prems(1) by (simp add: sharded_inv_def shard_index_less)
  obtain c q where c: "cache_step (now, cache_op_of op) (sy_cache (shards s ! ?i)) = Some (c, q)"
    using cache_step_refines [OF sharded_inv_shard(2) [OF Cons.prems(1) i]] by blast
  then have s1: "sharded_step h (now, op) s = Some (s\<lparr>shards := (shards s)[?i := sync_of c]\<rparr>, q)"
    "sharded_inv h (s\<lparr>shards := (shards s)[?i := sync_of c]\<rparr>)"
    using sharded_step_key [OF Cons.prems(1) k, of now] sharded_step_key_refines [OF Cons.prems(1) k, of now]
    by (auto simp: Let_def)
  let ?s = "s\<lparr>shards := (shards s)[?i := sync_of c]\<rparr>"
  have "key_call h ?s = key_call h s" by (rule key_call_cong) simp
  then have calls: "calls_of h s hist = calls_of h ?s hist" by (simp add: calls_of_def)
  have "calls_of h s (e # hist) = (t, (?i, now, cache_op_of op), r) # calls_of h s hist"
    using e k by (simp add: calls_of_def key_call_def)
  with Cons.prems(3) c i have "q = r \<and> replay (calls_of h ?s hist) (map sy_cache (shards ?s)) = Some ds"
    unfolding calls [symmetric] by (auto simp: map_update split: if_splits)
  with Cons.IH [OF s1(2)] Cons.prems(2) s1(1) e show ?case by (auto simp: ops_of_def answers_of_def)
qed (simp add: history_defs)

lemma linearization:
  assumes inv: "shard_inv (map sy_cache (shards s)) (map (map (key_call h s)) opss) m"
    and s: "sharded_inv h s" and keyed: "\<forall>ops \<in> set opss. \<forall>x \<in> set ops. keyed x"
  obtains hist s' where "sc_log m = calls_of h s hist"
    "run_defined (sharded_step h) (ops_of hist) s = Some (s', answers_of hist)"
    "map sy_cache (shards s') = map sy_cache (sc_shards m)"
    "\<And>t. t < length opss \<Longrightarrow> prefix (ops_of (by_thread t hist)) (opss ! t)"
    "\<And>t. t < length opss \<Longrightarrow> answers_of (by_thread t hist) =
       th_results (sc_threads m ! t) @ unreturned (th_phase (sc_threads m ! t))"
proof -
  let ?f = "\<lambda>(t, x, r). (t, key_call h s x, r)"
  have hi: "replay (sc_log m) (map sy_cache (shards s)) = Some (map sy_cache (sc_shards m))"
    and lt: "\<And>e. e \<in> set (sc_log m) \<Longrightarrow> fst e < length opss"
    and prog: "\<And>t. t < length opss \<Longrightarrow> prefix (map fst (thread_log m t)) (map (key_call h s) (opss ! t))"
    and res: "\<And>t. t < length opss \<Longrightarrow> map snd (thread_log m t) =
       th_results (sc_threads m ! t) @ unreturned (th_phase (sc_threads m ! t))"
    using inv by (auto simp: shard_inv_def history_inv_def Let_def prefix_def) metis
  have "\<exists>x. keyed (fst (snd x)) \<and> e = ?f x" if "e \<in> set (sc_log m)" for e
  proof -
    obtain t call r where e: "e = (t, call, r)" by (cases e) auto
    have "call \<in> set (map fst (thread_log m t))" using that e by (force simp: thread_log_def)
    moreover have t: "t < length opss" using lt [OF that] e by simp
    ultimately have "call \<in> set (map (key_call h s) (opss ! t))"
      using set_mono_prefix [OF prog [OF t]] by blast
    then obtain x where "x \<in> set (opss ! t)" "call = key_call h s x" by auto
    moreover from this(1) keyed t have "keyed x" by (meson nth_mem)
    ultimately show ?thesis using e by (intro exI [of _ "(t, x, r)"]) simp
  qed
  then have "sc_log m \<in> lists (?f ` {x. keyed (fst (snd x))})" by (fastforce simp: image_iff)
  then obtain hist where hist: "sc_log m = calls_of h s hist" "\<forall>e \<in> set hist. keyed (fst (snd e))"
    unfolding lists_image calls_of_def by auto
  from replay_sharded [OF s hist(2)] hi hist(1) obtain s' where
    s': "run_defined (sharded_step h) (ops_of hist) s = Some (s', answers_of hist)"
      "map sy_cache (shards s') = map sy_cache (sc_shards m)" by auto
  have tl: "thread_log m t = map (\<lambda>(t, x, r). (key_call h s x, r)) (by_thread t hist)" for t
    by (auto simp: thread_log_def hist(1) calls_of_def by_thread_def filter_map comp_def case_prod_beta)
  have "map fst (thread_log m t) = map (key_call h s) (ops_of (by_thread t hist))" for t
    by (simp add: tl ops_of_def comp_def case_prod_beta)
  then have pre: "prefix (ops_of (by_thread t hist)) (opss ! t)" if "t < length opss" for t
    using prefix_map_rightE [of "map fst (thread_log m t)" "key_call h s" "opss ! t"] prog [OF that]
      inj_map_eq_map [OF injI, of "key_call h s"] key_call_inj [of h s] by metis
  show thesis
    by (rule that [OF hist(1) s' pre]) (use res in \<open>auto simp: tl answers_of_def comp_def case_prod_beta\<close>)
qed

section \<open>Progress\<close>

fun phase_work :: "phase \<Rightarrow> nat" where
  "phase_work Idle = 0"
| "phase_work (Acquired call) = 3"
| "phase_work (Loaded call c) = 2"
| "phase_work (Stored call r) = 1"

definition thread_work :: "thread \<Rightarrow> nat" where
  "thread_work th = 4 * length (th_todo th) + phase_work (th_phase th)"

definition machine_work :: "shard_machine \<Rightarrow> nat" where
  "machine_work m = sum_list (map thread_work (sc_threads m))"

lemma step_work: "shard_step m m' \<Longrightarrow> machine_work m = Suc (machine_work m')"
  by (induction rule: shard_step.induct) (simp_all add: machine_work_def sum_map_update_Suc thread_work_def)

lemma run_work: "(shard_step ^^ n) m m' \<Longrightarrow> machine_work m = n + machine_work m'"
  by (induction n arbitrary: m') (auto dest: step_work)

lemma no_step_done:
  assumes inv: "shard_inv cs progs m" and ok: "\<forall>c \<in> set cs. cache_inv c"
    and range: "\<forall>calls \<in> set progs. \<forall>call \<in> set calls. fst call < length cs"
    and stuck: "\<not> (\<exists>m'. shard_step m m')"
  shows "machine_work m = 0"
proof -
  have locks: "locks_inv m" and hist: "history_inv cs progs m" using inv by (auto simp: shard_inv_def)
  have sh: "\<forall>d \<in> set (map sy_cache (sc_shards m)). cache_inv d" "length (sc_shards m) = length cs"
    using replay_inv [of "sc_log m" cs] hist ok by (auto simp: history_inv_def)
  have idle: "th_phase (sc_threads m ! t) = Idle" if t: "t < length (sc_threads m)" for t
  proof (cases "th_phase (sc_threads m ! t)")
    case (Loaded call c)
    have "held_by m t (fst call)" using t Loaded by (simp add: held_by_def)
    from locks_inv_range [OF locks this] locks_inv_read [OF locks t Loaded] sh(1)
    have "cache_inv c" by simp
    from cache_step_refines [OF this, of "snd call"] shard_step.stored [OF t refl Loaded] stuck show ?thesis by blast
  qed (use t shard_step.loaded shard_step.released stuck in blast)+
  then have free: "\<not> held_by m t i" for t i by (auto simp: held_by_def)
  have "th_todo (sc_threads m ! t) = []" if t: "t < length (sc_threads m)" for t
  proof (rule ccontr)
    assume "th_todo (sc_threads m ! t) \<noteq> []"
    then obtain call rest where todo: "th_todo (sc_threads m ! t) = call # rest" by (cases "th_todo (sc_threads m ! t)") auto
    have t': "t < length progs" using t hist by (simp add: history_inv_def)
    then have "call \<in> set (progs ! t)" using hist todo
      by (auto simp: history_inv_def Let_def dest!: spec [of _ t]) (metis in_set_conv_decomp append_assoc)
    with range t' sh(2) have i: "fst call < length (sc_shards m)" by (metis nth_mem)
    with locks free have "lock_mutex (sc_shards m ! fst call) = Some ((sc_shards m ! fst call)\<lparr>sy_locked := True\<rparr>)"
      by (auto simp: locks_inv_def lock_mutex_def)
    from shard_step.acquired [OF t refl idle [OF t] todo i this] stuck show False by blast
  qed
  with idle show ?thesis by (auto simp: machine_work_def thread_work_def in_set_conv_nth)
qed

lemma log_grows: "shard_step\<^sup>*\<^sup>* m m' \<Longrightarrow> prefix (sc_log m) (sc_log m')"
proof (induction rule: rtranclp_induct)
  case (step y z)
  from step(2) have "prefix (sc_log y) (sc_log z)" by (cases rule: shard_step.cases) auto
  with step(3) show ?case by (rule prefix_order.trans)
qed simp

text \<open>Threads calling any methods: a program names shards that exist.\<close>

definition in_range :: "sharded_cache \<Rightarrow> shard_call list list \<Rightarrow> bool" where
  "in_range s progs \<longleftrightarrow> list_all (list_all (\<lambda>call. fst call < length (shards s))) progs"

definition total_calls :: "shard_call list list \<Rightarrow> nat" where
  "total_calls progs = sum_list (map length progs)"

lemma start_work: "machine_work (start_threads s progs) = 4 * total_calls progs"
  by (simp add: machine_work_def start_threads_def total_calls_def thread_work_def comp_def sum_list_const_mult)

lemma reachable_inv:
  assumes "sharded_inv h s" and "shard_step\<^sup>*\<^sup>* (start_threads s progs) m"
  shows "shard_inv (map sy_cache (shards s)) progs m"
  using shard_threads.reach_inv [OF assms(2)] start_threads_inv [OF assms(1)] by blast

lemma stuck_finished:
  assumes "sharded_inv h s" and "in_range s progs" and "shard_step\<^sup>*\<^sup>* (start_threads s progs) m"
    and "\<not> (\<exists>m'. shard_step m m')"
  shows "machine_work m = 0"
  using reachable_inv [OF assms(1,3)] no_step_done [OF _ _ _ assms(4)] assms(1,2)
  by (force simp: in_range_def list_all_iff in_set_conv_nth intro: sharded_inv_shard(2))

lemma complete_run:
  assumes "sharded_inv h s" and "in_range s progs" and "shard_step\<^sup>*\<^sup>* (start_threads s progs) m"
  shows "\<exists>m'. shard_step\<^sup>*\<^sup>* m m' \<and> machine_work m' = 0"
  using assms(3)
proof (induction "machine_work m" arbitrary: m)
  case (Suc n)
  from stuck_finished [OF assms(1,2) Suc(3)] Suc(2) obtain m1 where m1: "shard_step m m1" by auto
  with Suc(1) [of m1] step_work [OF m1] Suc(2,3) show ?case
    by (auto intro: rtranclp.rtrancl_into_rtrancl converse_rtranclp_into_rtranclp)
qed auto

lemma finished_thread:
  assumes "shard_inv cs progs m" and "machine_work m = 0" and "t < length progs"
  shows "th_phase (sc_threads m ! t) = Idle" "th_todo (sc_threads m ! t) = []"
    "length (th_results (sc_threads m ! t)) = length (progs ! t)"
proof -
  have "t < length (sc_threads m)" using assms by (simp add: shard_inv_def history_inv_def)
  then have "thread_work (sc_threads m ! t) = 0" using assms(2) by (simp add: machine_work_def)
  then show fin: "th_phase (sc_threads m ! t) = Idle" "th_todo (sc_threads m ! t) = []"
    by (cases "th_phase (sc_threads m ! t)"; simp add: thread_work_def)+
  have "map fst (thread_log m t) = progs ! t" "map snd (thread_log m t) = th_results (sc_threads m ! t)"
    using assms(1,3) fin by (auto simp: shard_inv_def history_inv_def Let_def)
  then show "length (th_results (sc_threads m ! t)) = length (progs ! t)" by (metis length_map)
qed

section \<open>Properties\<close>

text \<open>
  C26. Key operations of any number of threads on a shared sharded cache are linearizable, for every
  interleaving of their critical sections: there is one order of the calls, each thread's own order
  kept, in which a single thread running them would get the same answers and leave the same
  caches. The order is that in which the calls wrote their shard, so it never changes afterwards:
  a call that returned before another began comes first.
\<close>

theorem concurrent_calls_linearizable:
  assumes "sharded_inv h s" and "\<forall>ops \<in> set opss. \<forall>x \<in> set ops. keyed x"
    and "shard_step\<^sup>*\<^sup>* (start_threads s (map (map (key_call h s)) opss)) m"
  shows "\<exists>hist s'. sc_log m = calls_of h s hist \<and>
    run_defined (sharded_step h) (ops_of hist) s = Some (s', answers_of hist) \<and>
    map sy_cache (shards s') = map sy_cache (sc_shards m) \<and>
    (\<forall>t < length opss. prefix (ops_of (by_thread t hist)) (opss ! t) \<and>
       answers_of (by_thread t hist) = th_results (sc_threads m ! t) @ unreturned (th_phase (sc_threads m ! t))) \<and>
    (\<forall>m'. shard_step\<^sup>*\<^sup>* m m' \<longrightarrow> prefix (sc_log m) (sc_log m'))"
  by (rule linearization [OF reachable_inv [OF assms(1,3)] assms(1,2)]) (use log_grows in blast)

text \<open>
  C27. Threads sharing a sharded cache cannot deadlock, and always finish: whatever methods they
  call and however they are scheduled, after \<open>n\<close> steps either some thread can go on, or every call
  of every thread has returned; and no schedule is longer than four steps for each call.
\<close>

theorem threads_always_finish:
  assumes "sharded_inv h s" and "in_range s progs" and "(shard_step ^^ n) (start_threads s progs) m"
  shows "n \<le> 4 * total_calls progs \<and>
    ((\<exists>m'. shard_step m m') \<or>
     (n = 4 * total_calls progs \<and> (\<forall>t < length progs. length (th_results (sc_threads m ! t)) = length (progs ! t))))"
proof -
  have reach: "shard_step\<^sup>*\<^sup>* (start_threads s progs) m" using assms(3) by (rule relpowp_imp_rtranclp)
  show ?thesis
    using run_work [OF assms(3)] start_work [of s progs] stuck_finished [OF assms(1,2) reach]
      finished_thread(3) [OF reachable_inv [OF assms(1) reach]] by fastforce
qed

section \<open>Instances\<close>

definition demo_programs :: "(time_ns \<times> kv_op) list list" where
  "demo_programs = [[(0, KvSet ''k'' ''v''), (5, KvGet ''k'')], [(1, KvErase ''k'')]]"

theorem concurrent_calls_linearizable_witness:
  "\<exists>m hist s'. shard_step\<^sup>*\<^sup>* (start_threads (sharded_unbounded 2)
       (map (map (key_call (\<lambda>_. 0) (sharded_unbounded 2))) demo_programs)) m \<and> machine_work m = 0 \<and>
     run_defined (sharded_step (\<lambda>_. 0)) (ops_of hist) (sharded_unbounded 2) = Some (s', answers_of hist) \<and>
     map sy_cache (shards s') = map sy_cache (sc_shards m)"
proof -
  let ?s = "sharded_unbounded 2" and ?h = "\<lambda>_. 0 :: 64 word"
  let ?progs = "map (map (key_call ?h ?s)) demo_programs"
  have keyed: "\<forall>ops \<in> set demo_programs. \<forall>x \<in> set ops. keyed x" by (simp add: demo_programs_def keyed_def)
  have "in_range ?s ?progs" using shard_index_less [of ?s ?h]
    by (simp add: in_range_def demo_programs_def key_call_def sharded_unbounded_def sane_shard_count_def)
  from complete_run [OF sharded_inv_unbounded this rtranclp.rtrancl_refl] obtain m where
    "shard_step\<^sup>*\<^sup>* (start_threads ?s ?progs) m" "machine_work m = 0" by blast
  with concurrent_calls_linearizable [OF sharded_inv_unbounded keyed] show ?thesis by blast
qed

theorem threads_always_finish_witness:
  "\<exists>m. (shard_step ^^ 8) (start_threads (sharded_unbounded 2) [loop_calls 2 (\<lambda>_. 0) OpClear]) m \<and>
     length (th_results (sc_threads m ! 0)) = 2"
proof -
  let ?s = "sharded_unbounded 2"
  have range: "in_range ?s [loop_calls 2 (\<lambda>_. 0) OpClear]" and calls: "total_calls [loop_calls 2 (\<lambda>_. 0) OpClear] = 2"
    by (simp_all add: in_range_def loop_calls_def total_calls_def sharded_unbounded_def sane_shard_count_def upt_rec)
  from complete_run [OF sharded_inv_unbounded range rtranclp.rtrancl_refl] obtain m where
    m: "shard_step\<^sup>*\<^sup>* (start_threads ?s [loop_calls 2 (\<lambda>_. 0) OpClear]) m" "machine_work m = 0" by blast
  then obtain n where n: "(shard_step ^^ n) (start_threads ?s [loop_calls 2 (\<lambda>_. 0) OpClear]) m" by (metis rtranclp_imp_relpowp)
  have n8: "n = 8" using run_work [OF n] start_work [of ?s] m(2) calls by simp
  have "\<not> (\<exists>m'. shard_step m m')" using m(2) step_work by force
  with threads_always_finish [OF sharded_inv_unbounded range n] n n8 show ?thesis by (auto simp: loop_calls_def)
qed

end
