(* ===== verification/Service_Locks.thy ===== *)
theory Service_Locks
  imports Service Shard_Concurrency
begin

text \<open>
  The workers of the server down to the mutexes: a command on a key waits for the mutex of its shard,
  reads the cache, writes it back and releases the mutex (\<open>sync_cache.hpp\<close>), and between any two of
  these steps the other workers go on. The machine is shown to be a simulation of \<open>Service\<close>, where a
  command is one step.
\<close>

section \<open>The machine\<close>

text \<open>\<open>lw_call\<close>: the line under way and the call on the shard it makes; \<open>lw_phase\<close>: how far the call is.\<close>

record locked_worker =
  lw_conn :: worker_conn
  lw_call :: "(string \<times> shard_call) option"
  lw_phase :: phase

record locked_service =
  ls_shards :: "sync_cache list"
  ls_workers :: "locked_worker list"
  ls_log :: "(nat \<times> string) list"

definition locked_start :: "sharded_cache \<Rightarrow> (recv_outcome list \<times> send_outcome list) list \<Rightarrow> locked_service" where
  "locked_start c scripts = \<lparr>ls_shards = shards c,
     ls_workers = map (\<lambda>script. \<lparr>lw_conn = conn_start script, lw_call = None, lw_phase = Idle\<rparr>) scripts, ls_log = []\<rparr>"

text \<open>The lines \<open>handle_line\<close> answers without the cache, on a server without a snapshot file.\<close>

definition immediate :: "string \<Rightarrow> (string \<times> bool) option" where
  "immediate line =
     (let parsed = parse_command line
      in if \<not> pr_ok parsed then Some (reply_error (pr_error parsed), True)
         else case cmd_type (pr_command parsed) of
                CPing \<Rightarrow> Some (reply_pong, True)
              | CSave \<Rightarrow> Some (reply_error ''persistence is not enabled on this server'', True)
              | CLoad \<Rightarrow> Some (reply_error ''persistence is not enabled on this server'', True)
              | CQuit \<Rightarrow> Some (reply_bye, False)
              | _ \<Rightarrow> None)"

text \<open>The call on a shard that a line leads to, as the worker's command number \<open>n\<close>.\<close>

definition line_call :: "hash_fn \<Rightarrow> (nat \<Rightarrow> exec_env) \<Rightarrow> nat \<Rightarrow> sync_cache list \<Rightarrow> string \<Rightarrow> shard_call option" where
  "line_call h envs n shs line =
     (let parsed = parse_command line
      in if pr_ok parsed
         then map_option (\<lambda>op. key_call h \<lparr>shards = shs\<rparr> (ee_now (envs n), op)) (command_op (pr_command parsed))
         else None)"

inductive locked_step :: "hash_fn \<Rightarrow> (nat \<Rightarrow> nat \<Rightarrow> exec_env) \<Rightarrow> locked_service \<Rightarrow> locked_service \<Rightarrow> bool" for h envs where
  answered: "i < length (ls_workers m) \<Longrightarrow> w = ls_workers m ! i \<Longrightarrow> lw_call w = None \<Longrightarrow> lw_conn w = c \<Longrightarrow>
    wc_point c = Draining \<Longrightarrow> next_line (wc_buffer c) = (b, Some line) \<Longrightarrow> immediate line = Some (reply, go) \<Longrightarrow>
    n = (if pr_ok (parse_command line) then wc_handled c + 1 else wc_handled c) \<Longrightarrow>
    locked_step h envs m (m\<lparr>ls_workers := (ls_workers m)[i := w\<lparr>lw_conn :=
      c\<lparr>wc_buffer := b, wc_handled := n, wc_point := Replying reply go\<rparr>\<rparr>], ls_log := ls_log m @ [(i, line)]\<rparr>)"
| called: "i < length (ls_workers m) \<Longrightarrow> w = ls_workers m ! i \<Longrightarrow> lw_call w = None \<Longrightarrow> lw_conn w = c \<Longrightarrow>
    wc_point c = Draining \<Longrightarrow> next_line (wc_buffer c) = (b, Some line) \<Longrightarrow>
    line_call h (envs i) (wc_handled c + 1) (ls_shards m) line = Some call \<Longrightarrow>
    locked_step h envs m (m\<lparr>ls_workers := (ls_workers m)[i := w\<lparr>lw_conn :=
      c\<lparr>wc_buffer := b, wc_handled := wc_handled c + 1\<rparr>, lw_call := Some (line, call)\<rparr>]\<rparr>)"
| acquired: "i < length (ls_workers m) \<Longrightarrow> w = ls_workers m ! i \<Longrightarrow> lw_call w = Some (line, call) \<Longrightarrow> lw_phase w = Idle \<Longrightarrow>
    fst call < length (ls_shards m) \<Longrightarrow> lock_mutex (ls_shards m ! fst call) = Some sh \<Longrightarrow>
    locked_step h envs m (m\<lparr>ls_shards := (ls_shards m)[fst call := sh],
      ls_workers := (ls_workers m)[i := w\<lparr>lw_phase := Acquired call\<rparr>]\<rparr>)"
| loaded: "i < length (ls_workers m) \<Longrightarrow> w = ls_workers m ! i \<Longrightarrow> lw_phase w = Acquired call \<Longrightarrow>
    locked_step h envs m (m\<lparr>ls_workers :=
      (ls_workers m)[i := w\<lparr>lw_phase := Loaded call (sy_cache (ls_shards m ! fst call))\<rparr>]\<rparr>)"
| stored: "i < length (ls_workers m) \<Longrightarrow> w = ls_workers m ! i \<Longrightarrow> lw_call w = Some (line, call) \<Longrightarrow> lw_phase w = Loaded call c \<Longrightarrow>
    cache_step (snd call) c = Some (d, r) \<Longrightarrow>
    locked_step h envs m (m\<lparr>ls_shards := (ls_shards m)[fst call := (ls_shards m ! fst call)\<lparr>sy_cache := d\<rparr>],
      ls_workers := (ls_workers m)[i := w\<lparr>lw_phase := Stored call r\<rparr>], ls_log := ls_log m @ [(i, line)]\<rparr>)"
| released: "i < length (ls_workers m) \<Longrightarrow> w = ls_workers m ! i \<Longrightarrow> lw_phase w = Stored call r \<Longrightarrow>
    locked_step h envs m (m\<lparr>ls_shards := (ls_shards m)[fst call := unlock_mutex (ls_shards m ! fst call)],
      ls_workers := (ls_workers m)[i := w\<lparr>lw_conn := (lw_conn w)\<lparr>wc_point := Replying (render_result r) True\<rparr>,
        lw_call := None, lw_phase := Idle\<rparr>]\<rparr>)"
| socket_io: "i < length (ls_workers m) \<Longrightarrow> w = ls_workers m ! i \<Longrightarrow> lw_call w = None \<Longrightarrow> conn_io (lw_conn w) c \<Longrightarrow>
    locked_step h envs m (m\<lparr>ls_workers := (ls_workers m)[i := w\<lparr>lw_conn := c\<rparr>]\<rparr>)"

section \<open>What a line does, in one step and in several\<close>

lemma respond_immediate:
  "immediate line = Some (reply, go) \<Longrightarrow>
   respond h None envs line (n, s) = Some ((if pr_ok (parse_command line) then n + 1 else n, s), reply, go)"
  by (auto simp: immediate_def respond_def execute_def Let_def split: if_splits command_type.splits)

lemma respond_call:
  assumes "line_call h envs (n + 1) shs line = Some call" and "sharded_inv h (st_cache s)"
    and "length (shards (st_cache s)) = length shs"
    and "cache_step (snd call) (sy_cache (shards (st_cache s) ! fst call)) = Some (d, r)"
  shows "respond h None envs line (n, s) =
    Some ((n + 1, s\<lparr>st_cache := (st_cache s)\<lparr>shards := (shards (st_cache s))[fst call := sync_of d]\<rparr>\<rparr>), render_result r, True)"
proof -
  let ?cmd = "pr_command (parse_command line)"
  obtain op where ok: "pr_ok (parse_command line)" and op: "command_op ?cmd = Some op"
    and call: "call = key_call h \<lparr>shards = shs\<rparr> (ee_now (envs (n + 1)), op)"
    using assms(1) by (auto simp: line_call_def Let_def split: if_splits)
  obtain k where k: "kv_key op = Some k" using op by (auto simp: command_op_def split: command_type.splits option.splits)
  have quit: "cmd_type ?cmd \<noteq> CQuit" using op by (auto simp: command_op_def)
  have "key_call h \<lparr>shards = shs\<rparr> = key_call h (st_cache s)" using assms(3) by (intro key_call_cong) simp
  then have "call = (shard_index_for h k (st_cache s), ee_now (envs (n + 1)), cache_op_of op)"
    using call k by (simp add: key_call_def)
  then have "sharded_step h (ee_now (envs (n + 1)), op) (st_cache s) =
      Some ((st_cache s)\<lparr>shards := (shards (st_cache s))[fst call := sync_of d]\<rparr>, r)"
    using sharded_step_key [OF assms(2) k] assms(4) by (simp add: Let_def)
  then show ?thesis using ok quit by (simp add: respond_def Let_def execute_key_command [OF op])
qed

section \<open>The simulation\<close>

text \<open>The mutexes and who is inside them, as a machine of \<open>Shard_Concurrency\<close>.\<close>

definition worker_thread :: "locked_worker \<Rightarrow> thread" where
  "worker_thread w = \<lparr>th_phase = lw_phase w, th_todo = [], th_results = []\<rparr>"

definition lock_view :: "locked_service \<Rightarrow> shard_machine" where
  "lock_view m = \<lparr>sc_shards = ls_shards m, sc_threads = map worker_thread (ls_workers m), sc_log = []\<rparr>"

lemma lock_view_simps [simp]:
  "sc_shards (lock_view m) = ls_shards m" "length (sc_threads (lock_view m)) = length (ls_workers m)"
  "i < length (ls_workers m) \<Longrightarrow> th_phase (sc_threads (lock_view m) ! i) = lw_phase (ls_workers m ! i)"
  "th_phase (worker_thread w) = lw_phase w"
  by (simp_all add: lock_view_def worker_thread_def)

lemma lock_view_update:
  "lock_view (m\<lparr>ls_shards := ss, ls_workers := (ls_workers m)[i := w], ls_log := l\<rparr>) =
     (lock_view m)\<lparr>sc_shards := ss, sc_threads := (sc_threads (lock_view m))[i := worker_thread w]\<rparr>"
  "lock_view (m\<lparr>ls_shards := ss, ls_workers := (ls_workers m)[i := w]\<rparr>) =
     (lock_view m)\<lparr>sc_shards := ss, sc_threads := (sc_threads (lock_view m))[i := worker_thread w]\<rparr>"
  by (simp_all add: lock_view_def map_update)

lemma lock_view_same:
  assumes "i < length (ls_workers m)" and "lw_phase w = lw_phase (ls_workers m ! i)"
  shows "lock_view (m\<lparr>ls_workers := (ls_workers m)[i := w]\<rparr>) = lock_view m"
    "lock_view (m\<lparr>ls_workers := (ls_workers m)[i := w], ls_log := l\<rparr>) = lock_view m"
proof -
  have "(map worker_thread (ls_workers m))[i := worker_thread w] = map worker_thread (ls_workers m)"
    using assms by (intro list_update_same_conv [THEN iffD2]) (simp_all add: worker_thread_def)
  then show "lock_view (m\<lparr>ls_workers := (ls_workers m)[i := w]\<rparr>) = lock_view m"
    "lock_view (m\<lparr>ls_workers := (ls_workers m)[i := w], ls_log := l\<rparr>) = lock_view m"
    by (simp_all add: lock_view_def map_update)
qed

text \<open>
  A worker in a call is, for the clients, still before the command until it has written the shard, and
  past it from then on.
\<close>

definition before_write :: "shard_call \<Rightarrow> phase \<Rightarrow> bool" where
  "before_write call p \<longleftrightarrow> p = Idle \<or> p = Acquired call \<or> (\<exists>c. p = Loaded call c)"

definition fetched :: "hash_fn \<Rightarrow> (nat \<Rightarrow> exec_env) \<Rightarrow> sync_cache list \<Rightarrow> string \<Rightarrow> shard_call \<Rightarrow> worker_conn \<Rightarrow> worker_conn \<Rightarrow> bool" where
  "fetched h envs shs line call w c \<longleftrightarrow> wc_point w = Draining \<and>
     (\<exists>b. next_line (wc_buffer w) = (b, Some line) \<and> c = w\<lparr>wc_buffer := b, wc_handled := wc_handled w + 1\<rparr>) \<and>
     line_call h envs (wc_handled w + 1) shs line = Some call"

definition worker_match :: "hash_fn \<Rightarrow> (nat \<Rightarrow> exec_env) \<Rightarrow> sync_cache list \<Rightarrow> locked_worker \<Rightarrow> worker_conn \<Rightarrow> bool" where
  "worker_match h envs shs lw w \<longleftrightarrow>
     (case lw_call lw of
        None \<Rightarrow> lw_phase lw = Idle \<and> w = lw_conn lw
      | Some (line, call) \<Rightarrow>
          before_write call (lw_phase lw) \<and> fetched h envs shs line call w (lw_conn lw) \<or>
          (\<exists>r. lw_phase lw = Stored call r \<and> wc_point (lw_conn lw) = Draining \<and>
             w = (lw_conn lw)\<lparr>wc_point := Replying (render_result r) True\<rparr>))"

lemma worker_match_cong:
  assumes "length shs = length shs'"
  shows "worker_match h envs shs = worker_match h envs shs'"
proof -
  have "key_call h \<lparr>shards = shs\<rparr> = key_call h \<lparr>shards = shs'\<rparr>" using assms by (intro key_call_cong) simp
  then have "fetched h envs shs = fetched h envs shs'" by (intro ext) (simp add: fetched_def line_call_def Let_def)
  then show ?thesis by (intro ext) (simp add: worker_match_def split: option.split)
qed

definition service_match :: "hash_fn \<Rightarrow> (nat \<Rightarrow> nat \<Rightarrow> exec_env) \<Rightarrow> locked_service \<Rightarrow> service \<Rightarrow> bool" where
  "service_match h envs m a \<longleftrightarrow> locks_inv (lock_view m) \<and> store_inv h (sr_store a) \<and>
     map sy_cache (ls_shards m) = map sy_cache (shards (st_cache (sr_store a))) \<and> ls_log m = sr_log a \<and>
     length (ls_workers m) = length (sr_conns a) \<and>
     (\<forall>i < length (sr_conns a). worker_match h (envs i) (ls_shards m) (ls_workers m ! i) (sr_conns a ! i))"

lemma service_match_update:
  assumes "service_match h envs m a" and "locks_inv (lock_view m')" and "store_inv h (sr_store a')"
    and "map sy_cache (ls_shards m') = map sy_cache (shards (st_cache (sr_store a')))" and "ls_log m' = sr_log a'"
    and "ls_workers m' = (ls_workers m)[i := lw]" and "sr_conns a' = (sr_conns a)[i := w]"
    and "length (ls_shards m') = length (ls_shards m)"
    and "worker_match h (envs i) (ls_shards m) lw w"
  shows "service_match h envs m' a'"
proof -
  have "worker_match h (envs j) (ls_shards m') (ls_workers m' ! j) (sr_conns a' ! j)" if "j < length (sr_conns a)" for j
    using assms(1,6,7,9) that unfolding worker_match_cong [OF assms(8)]
    by (cases "i = j") (simp_all add: service_match_def)
  with assms show ?thesis by (simp add: service_match_def)
qed

text \<open>The steps that no client can notice.\<close>

lemma service_match_silent:
  assumes "service_match h envs m a" and "i < length (ls_workers m)" and "locks_inv (lock_view m')"
    and "ls_workers m' = (ls_workers m)[i := lw]" and "map sy_cache (ls_shards m') = map sy_cache (ls_shards m)"
    and "ls_log m' = ls_log m" and "worker_match h (envs i) (ls_shards m) lw (sr_conns a ! i)"
  shows "service_match h envs m' a"
  by (rule service_match_update [OF assms(1,3) _ _ _ assms(4) _ _ assms(7)])
    (use assms map_eq_imp_length_eq [OF assms(5)] in \<open>auto simp: service_match_def\<close>)

lemma match_worker:
  assumes "service_match h envs m a" and "i < length (ls_workers m)"
  shows "i < length (sr_conns a)" "worker_match h (envs i) (ls_shards m) (ls_workers m ! i) (sr_conns a ! i)"
  using assms by (auto simp: service_match_def)

lemma match_held:
  assumes "i < length (ls_workers m)" and "holding (lw_phase (ls_workers m ! i)) = Some j" and "locks_inv (lock_view m)"
  shows "held_by (lock_view m) i j" "j < length (ls_shards m)" "sy_locked (ls_shards m ! j)"
proof -
  show h: "held_by (lock_view m) i j" using assms(1,2) by (simp add: held_by_def)
  show j: "j < length (ls_shards m)" using locks_inv_range [OF assms(3) h] by simp
  from assms(3) h j show "sy_locked (ls_shards m ! j)" unfolding locks_inv_def by auto
qed

lemma match_called:
  assumes "service_match h envs m a" and "i < length (ls_workers m)" and "ls_workers m ! i = w"
    and "lw_call w = None" and "lw_conn w = c" and "wc_point c = Draining" and "next_line (wc_buffer c) = (b, Some line)"
    and "line_call h (envs i) (wc_handled c + 1) (ls_shards m) line = Some call"
  shows "service_match h envs (m\<lparr>ls_workers := (ls_workers m)[i := w\<lparr>lw_conn :=
      c\<lparr>wc_buffer := b, wc_handled := wc_handled c + 1\<rparr>, lw_call := Some (line, call)\<rparr>]\<rparr>) a"
proof (rule service_match_silent [OF assms(1,2)])
  have "lw_phase w = Idle" "sr_conns a ! i = c"
    using match_worker(2) [OF assms(1,2)] assms(3-5) by (auto simp: worker_match_def)
  with assms(6-8) show "worker_match h (envs i) (ls_shards m) (w\<lparr>lw_conn :=
      c\<lparr>wc_buffer := b, wc_handled := wc_handled c + 1\<rparr>, lw_call := Some (line, call)\<rparr>) (sr_conns a ! i)"
    by (auto simp: worker_match_def fetched_def before_write_def)
qed (use assms(1-3) in \<open>auto simp: lock_view_same service_match_def\<close>)

lemma match_acquired:
  assumes "service_match h envs m a" and "i < length (ls_workers m)" and "ls_workers m ! i = w"
    and "lw_call w = Some (line, call)" and "lw_phase w = Idle"
    and "fst call < length (ls_shards m)" and "lock_mutex (ls_shards m ! fst call) = Some sh"
  shows "service_match h envs (m\<lparr>ls_shards := (ls_shards m)[fst call := sh],
      ls_workers := (ls_workers m)[i := w\<lparr>lw_phase := Acquired call\<rparr>]\<rparr>) a"
proof (rule service_match_silent [OF assms(1,2)])
  have "locks_inv (lock_view m)" using assms(1) by (simp add: service_match_def)
  from locks_inv_acquired [OF this, of i "fst call" sh "worker_thread (w\<lparr>lw_phase := Acquired call\<rparr>)" call] assms(2-7)
  show "locks_inv (lock_view (m\<lparr>ls_shards := (ls_shards m)[fst call := sh],
      ls_workers := (ls_workers m)[i := w\<lparr>lw_phase := Acquired call\<rparr>]\<rparr>))"
    by (simp add: lock_view_update)
  show "worker_match h (envs i) (ls_shards m) (w\<lparr>lw_phase := Acquired call\<rparr>) (sr_conns a ! i)"
    using match_worker(2) [OF assms(1,2)] assms(3-5) by (auto simp: worker_match_def before_write_def)
  have "sy_cache sh = sy_cache (ls_shards m ! fst call)" using assms(7) by (auto simp: lock_mutex_def split: if_splits)
  with assms(6) show "map sy_cache (ls_shards (m\<lparr>ls_shards := (ls_shards m)[fst call := sh],
      ls_workers := (ls_workers m)[i := w\<lparr>lw_phase := Acquired call\<rparr>]\<rparr>)) = map sy_cache (ls_shards m)"
    by (simp add: map_update list_update_same_conv)
qed simp_all

lemma match_loaded:
  assumes "service_match h envs m a" and "i < length (ls_workers m)" and "ls_workers m ! i = w" and "lw_phase w = Acquired call"
  shows "service_match h envs (m\<lparr>ls_workers :=
      (ls_workers m)[i := w\<lparr>lw_phase := Loaded call (sy_cache (ls_shards m ! fst call))\<rparr>]\<rparr>) a" (is "service_match h envs ?m a")
proof (rule service_match_silent [OF assms(1,2)])
  let ?w = "w\<lparr>lw_phase := Loaded call (sy_cache (ls_shards m ! fst call))\<rparr>"
  have inv: "locks_inv (lock_view m)" using assms(1) by (simp add: service_match_def)
  have h: "held_by (lock_view m) i (fst call)" "sy_locked (ls_shards m ! fst call)"
    using match_held [OF assms(2) _ inv, of "fst call"] assms(3,4) by simp_all
  from locks_inv_inside [OF inv h, of "worker_thread ?w" "[]"] show "locks_inv (lock_view ?m)"
    by (simp add: lock_view_def map_update)
  show "worker_match h (envs i) (ls_shards m) ?w (sr_conns a ! i)"
    using match_worker(2) [OF assms(1,2)] assms(3,4)
    by (auto simp: worker_match_def before_write_def split: option.splits)
qed simp_all

lemma match_released:
  assumes "service_match h envs m a" and "i < length (ls_workers m)" and "ls_workers m ! i = w" and "lw_phase w = Stored call r"
  shows "service_match h envs (m\<lparr>ls_shards := (ls_shards m)[fst call := unlock_mutex (ls_shards m ! fst call)],
      ls_workers := (ls_workers m)[i := w\<lparr>lw_conn := (lw_conn w)\<lparr>wc_point := Replying (render_result r) True\<rparr>,
        lw_call := None, lw_phase := Idle\<rparr>]\<rparr>) a" (is "service_match h envs ?m a")
proof (rule service_match_silent [OF assms(1,2)])
  let ?w = "w\<lparr>lw_conn := (lw_conn w)\<lparr>wc_point := Replying (render_result r) True\<rparr>, lw_call := None, lw_phase := Idle\<rparr>"
  have inv: "locks_inv (lock_view m)" using assms(1) by (simp add: service_match_def)
  have h: "held_by (lock_view m) i (fst call)" "fst call < length (ls_shards m)"
    using match_held [OF assms(2) _ inv, of "fst call"] assms(3,4) by simp_all
  from locks_inv_released [OF inv h(1), of "worker_thread ?w"] show "locks_inv (lock_view ?m)"
    by (simp add: lock_view_update)
  show "worker_match h (envs i) (ls_shards m) ?w (sr_conns a ! i)"
    using match_worker(2) [OF assms(1,2)] assms(3,4)
    by (auto simp: worker_match_def before_write_def split: option.splits)
  show "map sy_cache (ls_shards ?m) = map sy_cache (ls_shards m)"
    using h(2) by (simp add: map_update unlock_mutex_def list_update_same_conv)
qed simp_all

text \<open>The steps a client can notice: each is one step of \<open>Service\<close>.\<close>

lemma match_answered:
  assumes "service_match h envs m a" and "i < length (ls_workers m)" and "ls_workers m ! i = w"
    and "lw_call w = None" and "lw_conn w = c" and "wc_point c = Draining" and "next_line (wc_buffer c) = (b, Some line)"
    and "immediate line = Some (reply, go)" and "n = (if pr_ok (parse_command line) then wc_handled c + 1 else wc_handled c)"
  shows "\<exists>a'. service_step h envs a a' \<and> service_match h envs (m\<lparr>ls_workers := (ls_workers m)[i := w\<lparr>lw_conn :=
      c\<lparr>wc_buffer := b, wc_handled := n, wc_point := Replying reply go\<rparr>\<rparr>], ls_log := ls_log m @ [(i, line)]\<rparr>) a'"
proof -
  let ?c = "c\<lparr>wc_buffer := b, wc_handled := n, wc_point := Replying reply go\<rparr>"
  let ?a = "a\<lparr>sr_store := sr_store a, sr_conns := (sr_conns a)[i := ?c], sr_log := sr_log a @ [(i, line)]\<rparr>"
  have w: "lw_phase w = Idle" "sr_conns a ! i = c"
    using match_worker(2) [OF assms(1,2)] assms(3-5) by (auto simp: worker_match_def)
  have "service_step h envs a ?a"
    by (rule handled [OF match_worker(1) [OF assms(1,2)] w(2) [symmetric] assms(6,7)])
      (simp only: respond_immediate [OF assms(8)] assms(9))
  moreover have "service_match h envs (m\<lparr>ls_workers := (ls_workers m)[i := w\<lparr>lw_conn := ?c\<rparr>], ls_log := ls_log m @ [(i, line)]\<rparr>) ?a"
    by (rule service_match_update [OF assms(1), where i = i])
      (use assms(1-4) w in \<open>auto simp: lock_view_same service_match_def worker_match_def\<close>)
  ultimately show ?thesis by blast
qed

lemma match_io:
  assumes "service_match h envs m a" and "i < length (ls_workers m)" and "ls_workers m ! i = w"
    and "lw_call w = None" and "conn_io (lw_conn w) c"
  shows "\<exists>a'. service_step h envs a a' \<and> service_match h envs (m\<lparr>ls_workers := (ls_workers m)[i := w\<lparr>lw_conn := c\<rparr>]\<rparr>) a'"
proof -
  have w: "lw_phase w = Idle" "sr_conns a ! i = lw_conn w"
    using match_worker(2) [OF assms(1,2)] assms(3,4) by (auto simp: worker_match_def)
  have "service_step h envs a (a\<lparr>sr_conns := (sr_conns a)[i := c]\<rparr>)"
    by (rule io [OF match_worker(1) [OF assms(1,2)]]) (use w assms(5) in simp)
  moreover have "service_match h envs (m\<lparr>ls_workers := (ls_workers m)[i := w\<lparr>lw_conn := c\<rparr>]\<rparr>) (a\<lparr>sr_conns := (sr_conns a)[i := c]\<rparr>)"
    by (rule service_match_update [OF assms(1), where i = i])
      (use assms(1-4) w in \<open>auto simp: lock_view_same service_match_def worker_match_def\<close>)
  ultimately show ?thesis by blast
qed

lemma match_stored:
  assumes "service_match h envs m a" and "i < length (ls_workers m)" and "ls_workers m ! i = w"
    and "lw_call w = Some (line, call)" and "lw_phase w = Loaded call c" and "cache_step (snd call) c = Some (d, r)"
  shows "\<exists>a'. service_step h envs a a' \<and>
    service_match h envs (m\<lparr>ls_shards := (ls_shards m)[fst call := (ls_shards m ! fst call)\<lparr>sy_cache := d\<rparr>],
      ls_workers := (ls_workers m)[i := w\<lparr>lw_phase := Stored call r\<rparr>], ls_log := ls_log m @ [(i, line)]\<rparr>) a'"
    (is "\<exists>a'. _ \<and> service_match h envs ?m a'")
proof -
  let ?st = "st_cache (sr_store a)" and ?v = "sr_conns a ! i"
  have inv: "locks_inv (lock_view m)" "store_inv h (sr_store a)"
    and caches: "map sy_cache (ls_shards m) = map sy_cache (shards ?st)" using assms(1) by (simp_all add: service_match_def)
  have len: "length (shards ?st) = length (ls_shards m)" using map_eq_imp_length_eq [OF caches] by simp
  have held: "held_by (lock_view m) i (fst call)" "fst call < length (ls_shards m)" "sy_locked (ls_shards m ! fst call)"
    using match_held [OF assms(2) _ inv(1), of "fst call"] assms(3,5) by simp_all
  have c: "c = sy_cache (shards ?st ! fst call)"
    using locks_inv_read [OF inv(1), of i call c] assms(2,3,5) held(2) len arg_cong [OF caches, of "\<lambda>l. l ! fst call"] by simp
  have f: "fetched h (envs i) (ls_shards m) line call ?v (lw_conn w)"
    using match_worker(2) [OF assms(1,2)] assms(3-5) by (auto simp: worker_match_def)
  then obtain b where b: "next_line (wc_buffer ?v) = (b, Some line)" "lw_conn w = ?v\<lparr>wc_buffer := b, wc_handled := wc_handled ?v + 1\<rparr>"
    "wc_point ?v = Draining" "line_call h (envs i) (wc_handled ?v + 1) (ls_shards m) line = Some call"
    by (auto simp: fetched_def)
  let ?s = "(sr_store a)\<lparr>st_cache := ?st\<lparr>shards := (shards ?st)[fst call := sync_of d]\<rparr>\<rparr>"
  have resp: "respond h None (envs i) line (wc_handled ?v, sr_store a) = Some ((wc_handled ?v + 1, ?s), render_result r, True)"
    using respond_call [OF b(4) _ len, of d r] inv(2) assms(6) c by (simp add: store_inv_def)
  let ?a = "a\<lparr>sr_store := ?s, sr_conns := (sr_conns a)[i := ?v\<lparr>wc_buffer := b, wc_handled := wc_handled ?v + 1,
    wc_point := Replying (render_result r) True\<rparr>], sr_log := sr_log a @ [(i, line)]\<rparr>"
  have "service_step h envs a ?a" by (rule handled [where envs = envs, OF match_worker(1) [OF assms(1,2)] refl b(3,1) resp])
  moreover have "service_match h envs ?m ?a"
  proof (rule service_match_update [OF assms(1), where i = i])
    show "locks_inv (lock_view ?m)"
      using locks_inv_inside [OF inv(1) held(1), of "(ls_shards m ! fst call)\<lparr>sy_cache := d\<rparr>"
          "worker_thread (w\<lparr>lw_phase := Stored call r\<rparr>)" "[]"] held(3)
      by (simp add: lock_view_def map_update)
    show "store_inv h (sr_store ?a)" using respond_inv [OF resp inv(2)] by simp
    show "map sy_cache (ls_shards ?m) = map sy_cache (shards (st_cache (sr_store ?a)))"
      using caches by (simp add: map_update sync_of_def)
    show "worker_match h (envs i) (ls_shards m) (w\<lparr>lw_phase := Stored call r\<rparr>) (?v\<lparr>wc_buffer := b,
        wc_handled := wc_handled ?v + 1, wc_point := Replying (render_result r) True\<rparr>)"
      using assms(4) b(2,3) by (simp add: worker_match_def)
  qed (use assms(1) in \<open>simp_all add: service_match_def\<close>)
  ultimately show ?thesis by blast
qed

lemma matched_silently: "service_match h envs m' a \<Longrightarrow> \<exists>a'. (service_step h envs)\<^sup>*\<^sup>* a a' \<and> service_match h envs m' a'"
  by blast

lemma matched_by_step:
  "\<exists>a'. service_step h envs a a' \<and> service_match h envs m' a' \<Longrightarrow>
   \<exists>a'. (service_step h envs)\<^sup>*\<^sup>* a a' \<and> service_match h envs m' a'"
  by blast

lemma service_match_step:
  assumes "service_match h envs m a" and "locked_step h envs m m'"
  shows "\<exists>a'. (service_step h envs)\<^sup>*\<^sup>* a a' \<and> service_match h envs m' a'"
  using assms(2)
proof (cases rule: locked_step.cases)
  case (answered i w c b line reply go n)
  show ?thesis unfolding answered(1)
    by (rule matched_by_step) (rule match_answered [OF assms(1) answered(2) answered(3) [symmetric] answered(4-9)])
next
  case (called i w c b line call)
  show ?thesis unfolding called(1)
    by (rule matched_silently) (rule match_called [OF assms(1) called(2) called(3) [symmetric] called(4-8)])
next
  case (acquired i w line call sh)
  show ?thesis unfolding acquired(1)
    by (rule matched_silently) (rule match_acquired [OF assms(1) acquired(2) acquired(3) [symmetric] acquired(4-7)])
next
  case (loaded i w call)
  show ?thesis unfolding loaded(1)
    by (rule matched_silently) (rule match_loaded [OF assms(1) loaded(2) loaded(3) [symmetric] loaded(4)])
next
  case (stored i w line call c d r)
  show ?thesis unfolding stored(1)
    by (rule matched_by_step) (rule match_stored [OF assms(1) stored(2) stored(3) [symmetric] stored(4-6)])
next
  case (released i w call r)
  show ?thesis unfolding released(1)
    by (rule matched_silently) (rule match_released [OF assms(1) released(2) released(3) [symmetric] released(4)])
next
  case (socket_io i w c)
  show ?thesis unfolding socket_io(1)
    by (rule matched_by_step) (rule match_io [OF assms(1) socket_io(2) socket_io(3) [symmetric] socket_io(4,5)])
qed

interpretation locked: simulation "locked_step h envs" "service_step h envs" "service_match h envs" for h envs
  by unfold_locales (rule service_match_step)

lemma locked_start_match:
  assumes "store_inv h s"
  shows "service_match h envs (locked_start (st_cache s) scripts) (service_start s scripts)"
proof -
  have "\<not> sy_locked (shards (st_cache s) ! i)" if "i < length (shards (st_cache s))" for i
    using sharded_inv_shard(3) [of h "st_cache s" i] assms that sync_of_cache(2) by (metis store_inv_def)
  with assms show ?thesis
    by (auto simp: service_match_def locked_start_def service_start_def locks_inv_def held_by_def worker_match_def)
qed

lemma reachable_match:
  "store_inv h s \<Longrightarrow> (locked_step h envs)\<^sup>*\<^sup>* (locked_start (st_cache s) scripts) m \<Longrightarrow>
   \<exists>a. (service_step h envs)\<^sup>*\<^sup>* (service_start s scripts) a \<and> service_match h envs m a"
  using locked.run_matched locked_start_match by blast

text \<open>What of a worker is the same in both machines.\<close>

lemma worker_match_view:
  assumes "worker_match h envs shs lw w"
  shows "wc_got w = wc_got (lw_conn lw)" "wc_recvs w = wc_recvs (lw_conn lw)" "wc_out w = wc_out (lw_conn lw)"
    "lw_call lw = None \<Longrightarrow> w = lw_conn lw"
  using assms by (auto simp: worker_match_def fetched_def split: option.splits)

lemma locked_log_grows: "(locked_step h envs)\<^sup>*\<^sup>* m m' \<Longrightarrow> prefix (ls_log m) (ls_log m')"
proof (induction rule: rtranclp_induct)
  case (step y z)
  from step(2) have "prefix (ls_log y) (ls_log z)" by (cases rule: locked_step.cases) auto
  with step(3) show ?case by (rule prefix_order.trans)
qed simp

section \<open>A worker only waits for its client\<close>

lemma immediate_or_call: "immediate line = None \<Longrightarrow> line_call h envs n shs line \<noteq> None"
  by (auto simp: immediate_def line_call_def command_op_def key_call_def Let_def split: if_splits command_type.splits)

lemma line_call_range: "line_call h envs n shs line = Some call \<Longrightarrow> shs \<noteq> [] \<Longrightarrow> fst call < length shs"
  using shard_index_less [of "\<lparr>shards = shs\<rparr>" h] by (auto simp: line_call_def key_call_def Let_def split: if_splits)

lemma match_shards_ok:
  assumes "service_match h envs m a"
  shows "ls_shards m \<noteq> []" "j < length (ls_shards m) \<Longrightarrow> cache_inv (sy_cache (ls_shards m ! j))"
proof -
  have inv: "sharded_inv h (st_cache (sr_store a))"
    and c: "map sy_cache (ls_shards m) = map sy_cache (shards (st_cache (sr_store a)))"
    using assms by (simp_all add: service_match_def store_inv_def)
  have len: "length (ls_shards m) = length (shards (st_cache (sr_store a)))" using map_eq_imp_length_eq [OF c] .
  then show "ls_shards m \<noteq> []" using inv by (auto simp: sharded_inv_def)
  show "cache_inv (sy_cache (ls_shards m ! j))" if "j < length (ls_shards m)"
    using sharded_inv_shard(2) [OF inv, of j] arg_cong [OF c, of "\<lambda>l. l ! j"] that len by simp
qed

lemma inside_goes_on:
  assumes "service_match h envs m a" and "i < length (ls_workers m)" and "lw_phase (ls_workers m ! i) \<noteq> Idle"
  shows "\<exists>m'. locked_step h envs m m'"
proof (cases "lw_phase (ls_workers m ! i)")
  case (Loaded call c)
  have inv: "locks_inv (lock_view m)" using assms(1) by (simp add: service_match_def)
  obtain line where line: "lw_call (ls_workers m ! i) = Some (line, call)"
    using match_worker(2) [OF assms(1,2)] Loaded by (auto simp: worker_match_def before_write_def split: option.splits)
  have "cache_inv c"
    using match_shards_ok(2) [OF assms(1)] match_held(2) [OF assms(2) _ inv, of "fst call"] locks_inv_read [OF inv, of i call c]
      assms(2) Loaded by simp
  then obtain d r where "cache_step (snd call) c = Some (d, r)" using cache_step_refines by blast
  from stored [OF assms(2) refl line Loaded this] show ?thesis by blast
next
  case (Acquired call)
  from loaded [OF assms(2) refl this] show ?thesis by blast
next
  case (Stored call r)
  from released [OF assms(2) refl this] show ?thesis by blast
qed (use assms(3) in simp)

lemma free_shards:
  assumes "service_match h envs m a" and "\<forall>i < length (ls_workers m). lw_phase (ls_workers m ! i) = Idle"
  shows "\<forall>j < length (ls_shards m). \<not> sy_locked (ls_shards m ! j)"
proof -
  have "\<not> held_by (lock_view m) t j" for t j using assms(2) by (auto simp: held_by_def)
  with assms(1) show ?thesis by (simp add: service_match_def locks_inv_def)
qed

lemma call_goes_on:
  assumes "service_match h envs m a" and "i < length (ls_workers m)" and "lw_call (ls_workers m ! i) = Some (line, call)"
    and "lw_phase (ls_workers m ! i) = Idle" and "\<forall>j < length (ls_shards m). \<not> sy_locked (ls_shards m ! j)"
  shows "\<exists>m'. locked_step h envs m m'"
proof -
  have "\<exists>n. line_call h (envs i) n (ls_shards m) line = Some call"
    using match_worker(2) [OF assms(1,2)] assms(3,4) by (auto simp: worker_match_def fetched_def)
  then have j: "fst call < length (ls_shards m)" using line_call_range match_shards_ok(1) [OF assms(1)] by blast
  then have "lock_mutex (ls_shards m ! fst call) = Some ((ls_shards m ! fst call)\<lparr>sy_locked := True\<rparr>)"
    using assms(5) by (simp add: lock_mutex_def)
  from acquired [OF assms(2) refl assms(3,4) j this] show ?thesis by blast
qed

definition waits_for_client :: "worker_conn \<Rightarrow> bool" where
  "waits_for_client c \<longleftrightarrow>
     (case wc_point c of
        Draining \<Rightarrow> wc_recvs c = []
      | Replying reply go \<Rightarrow> send_all (wc_sends c) reply = None
      | ConnReturned \<Rightarrow> True)"

lemma conn_goes_on:
  assumes "i < length (ls_workers m)" and "lw_call (ls_workers m ! i) = None"
    and "\<not> waits_for_client (lw_conn (ls_workers m ! i))"
  shows "\<exists>m'. locked_step h envs m m'"
proof (cases "\<exists>c. conn_io (lw_conn (ls_workers m ! i)) c")
  case True
  with socket_io [OF assms(1) refl assms(2)] show ?thesis by blast
next
  case False
  let ?c = "lw_conn (ls_workers m ! i)"
  have point: "wc_point ?c = Draining"
    using assms(3) False conn_io.replied [of ?c] by (fastforce simp: waits_for_client_def split: conn_point.splits)
  then obtain r rs where r: "wc_recvs ?c = r # rs" using assms(3) by (auto simp: waits_for_client_def neq_Nil_conv)
  obtain b l where n: "next_line (wc_buffer ?c) = (b, l)" by fastforce
  obtain b' again where fill: "fill_buffer r b = (b', again)" by fastforce
  have "l \<noteq> None"
    using False conn_io.too_long [OF point] conn_io.filled [OF point _ _ r fill] n by (metis not_le)
  then obtain line where line: "next_line (wc_buffer ?c) = (b, Some line)" using n by auto
  show ?thesis
  proof (cases "immediate line")
    case None
    then obtain call where "line_call h (envs i) (wc_handled ?c + 1) (ls_shards m) line = Some call"
      using immediate_or_call by blast
    from called [where envs = envs, OF assms(1) refl assms(2) refl point line this] show ?thesis by blast
  next
    case (Some x)
    obtain reply go where "immediate line = Some (reply, go)" using Some by (cases x) auto
    from answered [where envs = envs, OF assms(1) refl assms(2) refl point line this refl] show ?thesis by blast
  qed
qed

lemma stuck_waits:
  assumes match: "service_match h envs m a" and stuck: "\<not> (\<exists>m'. locked_step h envs m m')"
  shows "(\<forall>j < length (ls_shards m). \<not> sy_locked (ls_shards m ! j)) \<and>
    (\<forall>i < length (ls_workers m). lw_call (ls_workers m ! i) = None \<and> waits_for_client (lw_conn (ls_workers m ! i)))"
proof -
  have idle: "\<forall>i < length (ls_workers m). lw_phase (ls_workers m ! i) = Idle" using inside_goes_on [OF match] stuck by blast
  note free = free_shards [OF match idle]
  have call: "lw_call (ls_workers m ! i) = None" if "i < length (ls_workers m)" for i
    using call_goes_on [OF match that _ _ free] idle that stuck by (cases "lw_call (ls_workers m ! i)") auto
  with free conn_goes_on stuck show ?thesis by blast
qed

section \<open>Every schedule ends\<close>

text \<open>
  The steps a worker has left: eight for each byte not yet taken as part of a line, one for each read,
  and what its command and its reply still need.
\<close>

fun point_work :: "conn_point \<Rightarrow> nat" where
  "point_work Draining = 2"
| "point_work (Replying reply go) = (if go then 3 else 1)"
| "point_work ConnReturned = 0"

fun call_work :: "phase \<Rightarrow> nat" where
  "call_work Idle = 5"
| "call_work (Acquired call) = 4"
| "call_work (Loaded call c) = 3"
| "call_work (Stored call r) = 2"

definition script_work :: "recv_outcome list \<Rightarrow> nat" where
  "script_work rs = 8 * length (stream_of rs) + length rs"

definition conn_work :: "worker_conn \<Rightarrow> nat" where
  "conn_work c = 8 * length (lb_buffer (wc_buffer c)) + script_work (wc_recvs c) + point_work (wc_point c)"

definition worker_work :: "locked_worker \<Rightarrow> nat" where
  "worker_work w = conn_work (lw_conn w) + (if lw_call w = None then 0 else call_work (lw_phase w))"

definition service_work :: "locked_service \<Rightarrow> nat" where
  "service_work m = sum_list (map worker_work (ls_workers m))"

lemma conn_io_work:
  assumes "conn_io c c'"
  shows "conn_work c' < conn_work c"
  using assms
proof (cases rule: conn_io.cases)
  case (too_long b)
  then show ?thesis using next_line_frames(1) [of "wc_buffer c" b] by (simp add: conn_work_def)
next
  case (filled b r rs b' again)
  then have "lb_buffer b' = lb_buffer (wc_buffer c) @ chunk_of r"
    using next_line_frames(1) [of "wc_buffer c" b] by (cases r) (auto simp: lb_append_def)
  with filled show ?thesis by (simp add: conn_work_def script_work_def stream_of_def)
qed (auto simp: conn_work_def)

lemma fetch_work:
  "next_line (wc_buffer c) = (b, Some line) \<Longrightarrow> wc_point c = Draining \<Longrightarrow> point_work p \<le> 3 \<Longrightarrow>
   conn_work (c\<lparr>wc_buffer := b, wc_handled := n, wc_point := p\<rparr>) + 7 \<le> conn_work c"
  using lb.nxt_shrinks [of "wc_buffer c" b line] by (simp add: conn_work_def)

lemma locked_step_work:
  assumes "service_match h envs m a" and "locked_step h envs m m'"
  shows "service_work m' < service_work m"
proof -
  have less: "service_work m' < service_work m"
    if "ls_workers m' = (ls_workers m)[i := w]" "i < length (ls_workers m)" "worker_work w < worker_work (ls_workers m ! i)" for i w
    using that sum_map_update [of i "ls_workers m" worker_work w] by (simp add: service_work_def)
  have inside: "lw_call (ls_workers m ! i) \<noteq> None" "wc_point (lw_conn (ls_workers m ! i)) = Draining"
    if "i < length (ls_workers m)" "lw_phase (ls_workers m ! i) \<noteq> Idle" for i
    using match_worker(2) [OF assms(1) that(1)] that(2) by (auto simp: worker_match_def fetched_def split: option.splits)
  from assms(2) show ?thesis
  proof (cases rule: locked_step.cases)
    case (answered i w c b line reply go n)
    have "worker_work (w\<lparr>lw_conn := c\<lparr>wc_buffer := b, wc_handled := n, wc_point := Replying reply go\<rparr>\<rparr>) < worker_work w"
      using fetch_work [OF answered(7,6), of "Replying reply go" n] answered(4,5) by (cases go) (simp_all add: worker_work_def)
    then show ?thesis using less [of i] answered(1-3) by simp
  next
    case (called i w c b line call)
    have "worker_work (w\<lparr>lw_conn := c\<lparr>wc_buffer := b, wc_handled := wc_handled c + 1\<rparr>, lw_call := Some (line, call)\<rparr>) < worker_work w"
      using lb.nxt_shrinks [OF called(7)] called(4-6) match_worker(2) [OF assms(1) called(2)] called(3)
      by (auto simp: worker_work_def worker_match_def conn_work_def)
    then show ?thesis using less [of i] called(1-3) by simp
  next
    case (acquired i w line call sh)
    then show ?thesis by (intro less [of i]) (auto simp: worker_work_def)
  next
    case (loaded i w call)
    then show ?thesis using inside [of i] by (intro less [of i]) (auto simp: worker_work_def)
  next
    case (stored i w line call c d r)
    then show ?thesis by (intro less [of i]) (auto simp: worker_work_def)
  next
    case (released i w call r)
    then show ?thesis using inside [of i] by (intro less [of i]) (auto simp: worker_work_def conn_work_def)
  next
    case (socket_io i w c)
    then show ?thesis using conn_io_work [of "lw_conn w" c] by (intro less [of i]) (auto simp: worker_work_def)
  qed
qed

lemma locked_run_work:
  assumes "store_inv h s" and "(locked_step h envs ^^ k) (locked_start (st_cache s) scripts) m"
  shows "k + service_work m \<le> service_work (locked_start (st_cache s) scripts)"
  using assms(2)
proof (induction k arbitrary: m)
  case (Suc k)
  then obtain y where y: "(locked_step h envs ^^ k) (locked_start (st_cache s) scripts) y" "locked_step h envs y m" by auto
  obtain a where "service_match h envs y a"
    using reachable_match [OF assms(1) relpowp_imp_rtranclp [OF y(1)]] by blast
  from locked_step_work [OF this y(2)] Suc.IH [OF y(1)] show ?case by simp
qed simp

lemma start_work_left:
  "service_work (locked_start c scripts) = sum_list (map (\<lambda>script. script_work (fst script) + 2) scripts)"
  by (simp add: service_work_def locked_start_def worker_work_def conn_work_def conn_start_def lb_fresh_def comp_def)

lemma locked_run_ends:
  assumes "store_inv h s"
  shows "(locked_step h envs)\<^sup>*\<^sup>* (locked_start (st_cache s) scripts) m \<Longrightarrow>
    \<exists>m'. (locked_step h envs)\<^sup>*\<^sup>* m m' \<and> \<not> (\<exists>m''. locked_step h envs m' m'')"
proof (induction "service_work m" arbitrary: m rule: less_induct)
  case less
  show ?case
  proof (cases "\<exists>y. locked_step h envs m y")
    case True
    then obtain y where y: "locked_step h envs m y" by blast
    obtain a where "service_match h envs m a" using reachable_match [OF assms less.prems] by blast
    from less.hyps [OF locked_step_work [OF this y] rtranclp.rtrancl_into_rtrancl [OF less.prems y]] y show ?thesis
      by (blast intro: converse_rtranclp_into_rtranclp)
  qed auto
qed

section \<open>Properties\<close>

text \<open>
  C31. Clients served at the same time see a server that works on one request at a time, although the
  workers interleave at every lock, read, write and unlock of a shard: for every interleaving there is
  one order of all the requests such that answering them one by one, on the same starting cache, gives
  the caches of all shards and exactly the replies each client was sent. Each client's requests are
  the first lines of what it sent, in its order, all of them once it has no command under way and its
  buffer holds no complete line; what it was sent is a beginning of its replies (and of the message
  that ends an overlong line), and all of them between two requests. The order only grows, so a
  request that took effect stays before every later one.
\<close>

theorem many_clients_serializable:
  assumes "store_inv h s" and "(locked_step h envs)\<^sup>*\<^sup>* (locked_start (st_cache s) scripts) m"
    and "(locked_step h envs)\<^sup>*\<^sup>* m m'"
  shows "prefix (ls_log m) (ls_log m') \<and>
    (\<exists>n s' replies. serial h envs (ls_log m) (\<lambda>_. 0) s = Some (n, s', replies) \<and>
       map sy_cache (shards (st_cache s')) = map sy_cache (ls_shards m) \<and>
       (\<forall>i < length scripts. let w = ls_workers m ! i; c = lw_conn w in
          stream_of (fst (scripts ! i)) = wc_got c @ stream_of (wc_recvs c) \<and>
          prefix (of_client i (ls_log m)) (fst (frames [] (wc_got c))) \<and>
          prefix (wc_out c) (concat (of_client i replies) @ too_long_reply) \<and>
          (lw_call w = None \<and> wc_point c = Draining \<longrightarrow> wc_out c = concat (of_client i replies)) \<and>
          (lw_call w = None \<and> snd (next_line (wc_buffer c)) = None \<longrightarrow>
             of_client i (ls_log m) = fst (frames [] (wc_got c)))))"
proof -
  obtain a where run: "(service_step h envs)\<^sup>*\<^sup>* (service_start s scripts) a" and match: "service_match h envs m a"
    using reachable_match [OF assms(1,2)] by blast
  note inv = clients.reach_inv [OF run service_start_inv [OF assms(1)]]
  then obtain n replies where c: "serial h envs (sr_log a) (\<lambda>_. 0) s = Some (n, sr_store a, replies)"
    and w: "\<And>i. i < length scripts \<Longrightarrow>
      worker_ok (fst (scripts ! i)) (of_client i (sr_log a)) (of_client i replies) (n i) (sr_conns a ! i)"
    by (auto simp: service_inv_def)
  have log: "ls_log m = sr_log a" "map sy_cache (shards (st_cache (sr_store a))) = map sy_cache (ls_shards m)"
    and len: "length (ls_workers m) = length scripts"
    using match inv by (simp_all add: service_match_def service_inv_def)
  have "let w = ls_workers m ! i; c = lw_conn w in
      stream_of (fst (scripts ! i)) = wc_got c @ stream_of (wc_recvs c) \<and>
      prefix (of_client i (ls_log m)) (fst (frames [] (wc_got c))) \<and>
      prefix (wc_out c) (concat (of_client i replies) @ too_long_reply) \<and>
      (lw_call w = None \<and> wc_point c = Draining \<longrightarrow> wc_out c = concat (of_client i replies)) \<and>
      (lw_call w = None \<and> snd (next_line (wc_buffer c)) = None \<longrightarrow> of_client i (ls_log m) = fst (frames [] (wc_got c)))"
    if "i < length scripts" for i
  proof -
    have v: "worker_match h (envs i) (ls_shards m) (ls_workers m ! i) (sr_conns a ! i)"
      using match_worker(2) [OF match] that len by simp
    from worker_ok_answers [OF w [OF that]] worker_match_view [OF v] log(1) show ?thesis by (auto simp: Let_def)
  qed
  with c log locked_log_grows [OF assms(3)] show ?thesis by auto
qed

text \<open>
  C32. No client can hold up another: every schedule of the workers ends, after a number of steps
  bounded by what the clients sent (eight for a byte, one for a read, two for a client). When no
  worker can go on, no command is under way, every mutex is free, and each worker has returned or
  waits for its own client: to send something, or to take a reply.
\<close>

theorem workers_wait_only_for_clients:
  assumes "store_inv h s" and "(locked_step h envs ^^ k) (locked_start (st_cache s) scripts) m"
  shows "k \<le> sum_list (map (\<lambda>script. script_work (fst script) + 2) scripts) \<and>
    (\<not> (\<exists>m'. locked_step h envs m m') \<longrightarrow>
       (\<forall>j < length (ls_shards m). \<not> sy_locked (ls_shards m ! j)) \<and>
       (\<forall>i < length (ls_workers m). lw_call (ls_workers m ! i) = None \<and> waits_for_client (lw_conn (ls_workers m ! i))))"
proof -
  obtain a where "service_match h envs m a"
    using reachable_match [OF assms(1) relpowp_imp_rtranclp [OF assms(2)]] by blast
  from stuck_waits [OF this] locked_run_work [OF assms] start_work_left [of "st_cache s" scripts] show ?thesis by auto
qed

section \<open>Instances\<close>

lemma demo_store_inv: "store_inv (\<lambda>_. 0) (demo_store demo_cache)"
  using demo_conn_inv by (simp add: conn_inv_def demo_conn_def)

definition demo_clients :: "(recv_outcome list \<times> send_outcome list) list" where
  "demo_clients = [([Received (''SET k w'' @ [LF]), RecvEof], [Sent 100]), ([Received (''GET k'' @ [LF])], [Sent 100])]"

lemma demo_clients_end:
  "\<exists>k m. (locked_step (\<lambda>_. 0) (\<lambda>_ _. demo_exec 0) ^^ k) (locked_start demo_cache demo_clients) m \<and>
     \<not> (\<exists>m'. locked_step (\<lambda>_. 0) (\<lambda>_ _. demo_exec 0) m m')"
  using locked_run_ends [OF demo_store_inv rtranclp.rtrancl_refl, where envs = "\<lambda>_ _. demo_exec 0" and scripts = demo_clients]
  by (simp add: demo_store_def) (meson rtranclp_imp_relpowp)

theorem many_clients_serializable_witness:
  "\<exists>m n s' replies. (locked_step (\<lambda>_. 0) (\<lambda>_ _. demo_exec 0))\<^sup>*\<^sup>* (locked_start demo_cache demo_clients) m \<and>
     \<not> (\<exists>m'. locked_step (\<lambda>_. 0) (\<lambda>_ _. demo_exec 0) m m') \<and>
     serial (\<lambda>_. 0) (\<lambda>_ _. demo_exec 0) (ls_log m) (\<lambda>_. 0) (demo_store demo_cache) = Some (n, s', replies) \<and>
     map sy_cache (shards (st_cache s')) = map sy_cache (ls_shards m)"
proof -
  obtain k m where m: "(locked_step (\<lambda>_. 0) (\<lambda>_ _. demo_exec 0) ^^ k) (locked_start demo_cache demo_clients) m"
    "\<not> (\<exists>m'. locked_step (\<lambda>_. 0) (\<lambda>_ _. demo_exec 0) m m')" using demo_clients_end by blast
  have cache: "st_cache (demo_store demo_cache) = demo_cache" by (simp add: demo_store_def)
  note run = relpowp_imp_rtranclp [OF m(1)]
  from many_clients_serializable [OF demo_store_inv, unfolded cache, OF run rtranclp.rtrancl_refl] run m(2) show ?thesis by blast
qed

theorem workers_wait_only_for_clients_witness:
  "\<exists>k m. (locked_step (\<lambda>_. 0) (\<lambda>_ _. demo_exec 0) ^^ k) (locked_start demo_cache demo_clients) m \<and> k \<le> 119 \<and>
     (\<forall>i < length (ls_workers m). lw_call (ls_workers m ! i) = None \<and> waits_for_client (lw_conn (ls_workers m ! i)))"
proof -
  obtain k m where m: "(locked_step (\<lambda>_. 0) (\<lambda>_ _. demo_exec 0) ^^ k) (locked_start demo_cache demo_clients) m"
    "\<not> (\<exists>m'. locked_step (\<lambda>_. 0) (\<lambda>_ _. demo_exec 0) m m')" using demo_clients_end by blast
  have cache: "st_cache (demo_store demo_cache) = demo_cache" by (simp add: demo_store_def)
  have "sum_list (map (\<lambda>script. script_work (fst script) + 2) demo_clients) = 119"
    by (simp add: demo_clients_def script_work_def stream_of_def)
  with workers_wait_only_for_clients [OF demo_store_inv, unfolded cache, OF m(1)] m show ?thesis by auto
qed

end
