(* ===== verification/Server_Process.thy ===== *)
theory Server_Process
  imports Server Service_Locks
begin

text \<open>
  The server as a whole: the accept loop of \<open>src/net/server.cpp\<close> and the workers it starts, which serve
  their clients on the shared cache down to the mutexes. Starting a thread starts its connection, and
  a thread leaves \<open>serve\<close> when its connection has returned. \<open>clients w\<close> is what the kernel answers on
  the socket of the \<open>w\<close>-th thread.
\<close>

section \<open>The machine\<close>

record process =
  pr_server :: server_machine
  pr_service :: locked_service

definition process_start :: "sharded_cache \<Rightarrow> process" where
  "process_start c = \<lparr>pr_server = server_fresh, pr_service = locked_start c []\<rparr>"

definition add_worker :: "recv_outcome list \<times> send_outcome list \<Rightarrow> locked_service \<Rightarrow> locked_service" where
  "add_worker script m = m\<lparr>ls_workers := ls_workers m @ [\<lparr>lw_conn = conn_start script, lw_call = None, lw_phase = Idle\<rparr>]\<rparr>"

text \<open>The steps of the accept loop and of threads past \<open>serve\<close>: no thread starts or leaves \<open>serve\<close>.\<close>

definition same_serving :: "worker_phase list \<Rightarrow> worker_phase list \<Rightarrow> bool" where
  "same_serving ts ts' \<longleftrightarrow> length ts' = length ts \<and> (\<forall>w < length ts. ts ! w = Serving \<longrightarrow> ts' ! w = Serving)"

inductive process_step :: "hash_fn \<Rightarrow> (nat \<Rightarrow> nat \<Rightarrow> exec_env) \<Rightarrow> (nat \<Rightarrow> recv_outcome list \<times> send_outcome list) \<Rightarrow> nat \<Rightarrow>
    process \<Rightarrow> process \<Rightarrow> bool" for h envs clients max_connections where
  control: "server_step max_connections (pr_server p) m \<Longrightarrow> same_serving (sv_threads (pr_server p)) (sv_threads m) \<Longrightarrow>
    process_step h envs clients max_connections p (p\<lparr>pr_server := m\<rparr>)"
| spawned: "sv_point (pr_server p) = Spawning \<Longrightarrow> w = length (sv_threads (pr_server p)) \<Longrightarrow>
    process_step h envs clients max_connections p (p\<lparr>
      pr_server := (pr_server p)\<lparr>sv_point := Pushing w, sv_threads := sv_threads (pr_server p) @ [Serving]\<rparr>,
      pr_service := add_worker (clients w) (pr_service p)\<rparr>)"
| worked: "locked_step h envs (pr_service p) m \<Longrightarrow>
    process_step h envs clients max_connections p (p\<lparr>pr_service := m\<rparr>)"
| left_serve: "w < length (sv_threads (pr_server p)) \<Longrightarrow> sv_threads (pr_server p) ! w = Serving \<Longrightarrow>
    wc_point (lw_conn (ls_workers (pr_service p) ! w)) = ConnReturned \<Longrightarrow>
    process_step h envs clients max_connections p (p\<lparr>pr_server :=
      (pr_server p)\<lparr>sv_threads := (sv_threads (pr_server p))[w := Uncounted], sv_active := sv_active (pr_server p) - 1\<rparr>\<rparr>)"

section \<open>Invariant\<close>

lemma match_add_worker:
  assumes "service_match h envs m a"
  shows "service_match h envs (add_worker script m) (a\<lparr>sr_conns := sr_conns a @ [conn_start script]\<rparr>)"
proof -
  have len: "length (ls_workers m) = length (sr_conns a)" using assms by (simp add: service_match_def)
  let ?m = "add_worker script m"
  have phase: "lw_phase (ls_workers ?m ! t) = (if t < length (ls_workers m) then lw_phase (ls_workers m ! t) else Idle)"
    if "t < length (ls_workers ?m)" for t
    using that by (auto simp: add_worker_def nth_append less_Suc_eq)
  have held: "held_by (lock_view ?m) t i \<longleftrightarrow> held_by (lock_view m) t i" for t i
    using phase [of t] by (auto simp: held_by_def add_worker_def split: if_splits)
  have shards: "ls_shards ?m = ls_shards m" by (simp add: add_worker_def)
  have "locks_inv (lock_view ?m)"
    using assms phase unfolding service_match_def locks_inv_def held by (auto simp: shards split: if_splits)
  with assms len show ?thesis
    by (auto simp: service_match_def add_worker_def nth_append worker_match_def less_Suc_eq)
qed

definition process_inv :: "hash_fn \<Rightarrow> (nat \<Rightarrow> nat \<Rightarrow> exec_env) \<Rightarrow> nat \<Rightarrow> process \<Rightarrow> bool" where
  "process_inv h envs max_connections p \<longleftrightarrow> server_inv max_connections (pr_server p) \<and>
     (\<exists>a. service_match h envs (pr_service p) a) \<and> length (ls_workers (pr_service p)) = length (sv_threads (pr_server p))"

text \<open>Every step of the process is a step of the accept loop's machine, or leaves it alone.\<close>

lemma process_server_step:
  "process_step h envs clients n p p' \<Longrightarrow> pr_server p' = pr_server p \<or> server_step n (pr_server p) (pr_server p')"
  by (cases rule: process_step.cases) (auto intro: server_step.thread_started server_step.served [unfolded One_nat_def])

lemma locked_step_length: "locked_step h envs m m' \<Longrightarrow> length (ls_workers m') = length (ls_workers m)"
  by (induction rule: locked_step.induct) simp_all

lemma process_inv_step:
  assumes "process_inv h envs n p" and "process_step h envs clients n p p'"
  shows "process_inv h envs n p'"
proof -
  have sv: "server_inv n (pr_server p')"
    using process_server_step [OF assms(2)] assms(1) server_inv_step by (auto simp: process_inv_def)
  obtain a where a: "service_match h envs (pr_service p) a" and len: "length (ls_workers (pr_service p)) = length (sv_threads (pr_server p))"
    using assms(1) by (auto simp: process_inv_def)
  from assms(2) have "(\<exists>a. service_match h envs (pr_service p') a) \<and>
      length (ls_workers (pr_service p')) = length (sv_threads (pr_server p'))"
  proof (cases rule: process_step.cases)
    case (spawned w)
    have "length (ls_workers (add_worker (clients w) (pr_service p))) = Suc (length (ls_workers (pr_service p)))"
      by (simp add: add_worker_def)
    with spawned(1) match_add_worker [OF a, of "clients w"] len show ?thesis by auto
  next
    case (worked m)
    from service_match_step [OF a worked(2)] locked_step_length [OF worked(2)] worked(1) len show ?thesis by auto
  qed (use a len in \<open>auto simp: same_serving_def\<close>)
  with sv show ?thesis by (simp add: process_inv_def)
qed

interpretation whole: step_invariant "process_step h envs clients n" "process_inv h envs n" for h envs clients n
  by unfold_locales (rule process_inv_step)

lemma process_start_inv: "store_inv h s \<Longrightarrow> process_inv h envs n (process_start (st_cache s))"
  using locked_start_match [of h s envs "[]"] server_inv_fresh
  by (auto simp: process_inv_def process_start_def server_fresh_def locked_start_def)

section \<open>Shutting down\<close>

fun may_spawn :: "run_point \<Rightarrow> bool" where
  "may_spawn (Reaping i ready) \<longleftrightarrow> True"
| "may_spawn Accepting \<longleftrightarrow> True"
| "may_spawn Spawning \<longleftrightarrow> True"
| "may_spawn _ \<longleftrightarrow> False"

text \<open>
  The steps left after \<open>stop\<close>: those of the accept loop and of threads past \<open>serve\<close>, those of the
  workers, and those of the one client that may still be accepted.
\<close>

definition client_work :: "recv_outcome list \<times> send_outcome list \<Rightarrow> nat" where
  "client_work script = script_work (fst script) + 2"

definition process_left :: "(nat \<Rightarrow> recv_outcome list \<times> send_outcome list) \<Rightarrow> process \<Rightarrow> nat" where
  "process_left clients p = shutdown_left (pr_server p) + service_work (pr_service p) +
     (if may_spawn (sv_point (pr_server p)) then client_work (clients (length (sv_threads (pr_server p)))) else 0)"

lemma stopped_spawns_less: "server_step n m m' \<Longrightarrow> sv_stop m \<Longrightarrow> may_spawn (sv_point m') \<Longrightarrow> may_spawn (sv_point m)"
  by (cases rule: server_step.cases) (auto split: if_splits)

lemma add_worker_work: "service_work (add_worker script m) = service_work m + client_work script"
  by (simp add: service_work_def add_worker_def worker_work_def conn_work_def conn_start_def lb_fresh_def client_work_def)

lemma process_decreases:
  assumes "process_inv h envs n p" and "process_step h envs clients n p p'" and "sv_stop (pr_server p)"
  shows "sv_stop (pr_server p') \<and> process_left clients p' < process_left clients p"
  using assms(2)
proof (cases rule: process_step.cases)
  case (control m)
  from shutdown_decreases [OF control(2) assms(3)] stopped_spawns_less [OF control(2) assms(3)] control(1,3)
  show ?thesis by (auto simp: process_left_def same_serving_def)
next
  case (spawned w)
  from shutdown_decreases [OF server_step.thread_started [OF spawned(2)] assms(3)] spawned
  show ?thesis by (simp add: process_left_def add_worker_work)
next
  case (worked m)
  obtain a where "service_match h envs (pr_service p) a" using assms(1) by (auto simp: process_inv_def)
  from locked_step_work [OF this worked(2)] worked(1) assms(3) show ?thesis by (simp add: process_left_def)
next
  case (left_serve w)
  from shutdown_decreases [OF server_step.served [OF left_serve(2,3)] assms(3)] left_serve(1)
  show ?thesis by (simp add: process_left_def)
qed

lemma process_run_left:
  assumes "process_inv h envs n p" and "sv_stop (pr_server p)"
  shows "(process_step h envs clients n ^^ k) p p' \<Longrightarrow>
    process_inv h envs n p' \<and> sv_stop (pr_server p') \<and> k + process_left clients p' \<le> process_left clients p"
proof (induction k arbitrary: p')
  case (Suc k)
  then obtain y where y: "(process_step h envs clients n ^^ k) p y" "process_step h envs clients n y p'" by auto
  from Suc.IH [OF y(1)] process_decreases [OF _ y(2)] process_inv_step [OF _ y(2)] show ?case by auto
qed (use assms in simp)

lemma server_step_threads: "server_step n m m' \<Longrightarrow> length (sv_threads m') = length (sv_threads m) \<or> sv_point m = Spawning"
  by (cases rule: server_step.cases) auto

text \<open>A client that holds its worker: it neither sends nor takes what the worker wants, and is not gone.\<close>

definition held_by_client :: "process \<Rightarrow> nat \<Rightarrow> bool" where
  "held_by_client p w \<longleftrightarrow> w < length (sv_threads (pr_server p)) \<and> sv_threads (pr_server p) ! w = Serving \<and>
     waits_for_client (lw_conn (ls_workers (pr_service p) ! w)) \<and>
     wc_point (lw_conn (ls_workers (pr_service p) ! w)) \<noteq> ConnReturned"

lemma stopped_process_stuck:
  assumes inv: "process_inv h envs n p" and stop: "sv_stop (pr_server p)"
    and stuck: "\<not> (\<exists>p'. process_step h envs clients n p p')"
  shows "sv_point (pr_server p) = RunReturned \<or> (\<exists>w. held_by_client p w)"
proof (cases "\<exists>w < length (sv_threads (pr_server p)). sv_threads (pr_server p) ! w = Serving")
  case True
  then obtain w where w: "w < length (sv_threads (pr_server p))" "sv_threads (pr_server p) ! w = Serving" by blast
  obtain a where a: "service_match h envs (pr_service p) a" using inv by (auto simp: process_inv_def)
  have "\<not> (\<exists>m. locked_step h envs (pr_service p) m)" using worked stuck by blast
  from stuck_waits [OF a this] w(1) inv have "waits_for_client (lw_conn (ls_workers (pr_service p) ! w))"
    by (simp add: process_inv_def)
  with left_serve [OF w] w stuck show ?thesis unfolding held_by_client_def by blast
next
  case False
  show ?thesis
  proof (rule ccontr)
    assume "\<not> ?thesis"
    then obtain m where m: "server_step n (pr_server p) m"
      using stopped_goes_on [OF _ stop, of n] inv by (auto simp: process_inv_def)
    have "sv_point (pr_server p) \<noteq> Spawning" using spawned [OF _ refl] stuck by blast
    then have "same_serving (sv_threads (pr_server p)) (sv_threads m)"
      using server_step_threads [OF m] False by (auto simp: same_serving_def)
    with control [OF m] stuck show False by blast
  qed
qed

lemma stopped_process_ends:
  "process_inv h envs n p \<Longrightarrow> sv_stop (pr_server p) \<Longrightarrow>
   \<exists>k p'. (process_step h envs clients n ^^ k) p p' \<and> \<not> (\<exists>p''. process_step h envs clients n p' p'')"
proof (induction "process_left clients p" arbitrary: p rule: less_induct)
  case less
  show ?case
  proof (cases "\<exists>y. process_step h envs clients n p y")
    case True
    then obtain y where y: "process_step h envs clients n p y" by blast
    obtain k p' where "(process_step h envs clients n ^^ k) y p'" "\<not> (\<exists>p''. process_step h envs clients n p' p'')"
      using less.hyps [of y] process_decreases [OF less.prems(1) y less.prems(2)] process_inv_step [OF less.prems(1) y] by blast
    with relpowp_Suc_I2 [where P = "process_step h envs clients n", OF y] show ?thesis by blast
  next
    case False
    have "(process_step h envs clients n ^^ 0) p p" by simp
    with False show ?thesis by blast
  qed
qed

section \<open>Properties\<close>

text \<open>
  C37. Only a connected client can hold up the shutdown of the server. From any state after \<open>stop\<close>,
  in every interleaving of the accept loop, the workers and their calls on the shards, the process
  takes at most a number of steps fixed by the state and by what the clients sent; and when it can go
  no further, \<open>run\<close> has returned with every thread joined, or some worker is still in \<open>serve\<close> for a
  client that neither closed its connection nor sends or takes what the worker waits for.
\<close>

theorem shutdown_waits_only_for_clients:
  assumes "store_inv h s" and "(process_step h envs clients n)\<^sup>*\<^sup>* (process_start (st_cache s)) p"
    and "sv_stop (pr_server p)" and "(process_step h envs clients n ^^ k) p p'"
  shows "k \<le> process_left clients p \<and>
    (\<not> (\<exists>p''. process_step h envs clients n p' p'') \<longrightarrow>
       sv_point (pr_server p') = RunReturned \<and>
         (\<forall>w < length (sv_threads (pr_server p')). sv_threads (pr_server p') ! w = Joined) \<or>
       (\<exists>w. held_by_client p' w))"
proof -
  have inv: "process_inv h envs n p" by (rule whole.reach_inv [OF assms(2) process_start_inv [OF assms(1)]])
  note run = process_run_left [OF inv assms(3,4)]
  have "server_inv n (pr_server p')" using run by (simp add: process_inv_def)
  then have "unjoined (sv_threads (pr_server p')) = {}" if "sv_point (pr_server p') = RunReturned"
    using that by (auto simp: server_inv_def owned_def)
  then have joined: "\<forall>w < length (sv_threads (pr_server p')). sv_threads (pr_server p') ! w = Joined"
    if "sv_point (pr_server p') = RunReturned" using that unfolding unjoined_def by blast
  show ?thesis
  proof (intro conjI impI)
    show "k \<le> process_left clients p" using run by simp
    assume stuck: "\<not> (\<exists>p''. process_step h envs clients n p' p'')"
    from stopped_process_stuck [OF _ _ stuck] run joined
    show "sv_point (pr_server p') = RunReturned \<and>
        (\<forall>w < length (sv_threads (pr_server p')). sv_threads (pr_server p') ! w = Joined) \<or> (\<exists>w. held_by_client p' w)"
      by meson
  qed
qed

section \<open>Instances\<close>

text \<open>One client has been accepted when \<open>stop\<close> is called.\<close>

definition demo_client :: "nat \<Rightarrow> recv_outcome list \<times> send_outcome list" where
  "demo_client w = ([Received (''PING'' @ [LF]), RecvEof], [Sent 100])"

definition demo_process :: process where
  "demo_process = \<lparr>pr_server = demo_server, pr_service = add_worker (demo_client 0) (locked_start demo_cache [])\<rparr>"

lemma control_step:
  "server_step n (pr_server p) m \<Longrightarrow> sv_threads m = sv_threads (pr_server p) \<Longrightarrow>
   process_step h envs clients n p \<lparr>pr_server = m, pr_service = pr_service p\<rparr>"
  using control [of n p m h envs clients] by (cases p) (simp add: same_serving_def)

lemma demo_process_reachable:
  "(process_step h envs demo_client 1)\<^sup>*\<^sup>* (process_start demo_cache) demo_process" (is "?step\<^sup>*\<^sup>* _ _")
proof -
  let ?f = "locked_start demo_cache []" and ?g = "add_worker (demo_client 0) (locked_start demo_cache [])"
  let ?p = "\<lambda>m f. \<lparr>pr_server = m, pr_service = f\<rparr>"
  define m1 where "m1 = server_fresh\<lparr>sv_point := Reaping 0 True\<rparr>"
  define m2 where "m2 = m1\<lparr>sv_point := (if True then Accepting else AtLoop)\<rparr>"
  define m3 where "m3 = m2\<lparr>sv_point := Spawning, sv_served := sv_served m2 + 1, sv_active := sv_active m2 + 1\<rparr>"
  define m4 where "m4 = m3\<lparr>sv_point := Pushing 0, sv_threads := sv_threads m3 @ [Serving]\<rparr>"
  define m5 where "m5 = m4\<lparr>sv_point := AtLoop, sv_workers := sv_workers m4 @ [0]\<rparr>"
  note defs = m1_def m2_def m3_def m4_def m5_def server_fresh_def
  have "?step (?p server_fresh ?f) (?p m1 ?f)"
    using control_step [of 1 "?p server_fresh ?f" m1] server_step.polled [of server_fresh 1 True] by (simp add: defs)
  moreover have "?step (?p m1 ?f) (?p m2 ?f)"
    using control_step [of 1 "?p m1 ?f" m2] server_step.reap_done [of m1 0 True 1] by (simp add: defs)
  moreover have "?step (?p m2 ?f) (?p m3 ?f)"
    using control_step [of 1 "?p m2 ?f" m3] server_step.counted [of m2 1] by (simp add: defs)
  moreover have "?step (?p m3 ?f) (?p m4 ?g)"
    using spawned [of "?p m3 ?f" 0 h envs demo_client 1] by (simp add: defs)
  moreover have "?step (?p m4 ?g) (?p m5 ?g)"
    using control_step [of 1 "?p m4 ?g" m5] server_step.pushed [of m4 0 1] by (simp add: defs)
  moreover have "?step (?p m5 ?g) demo_process"
    using control_step [of 1 "?p m5 ?g" "m5\<lparr>sv_stop := True\<rparr>"] server_step.stop_called [of m5 1]
    by (simp add: defs demo_process_def demo_server_def)
  moreover have "process_start demo_cache = ?p server_fresh ?f" by (simp add: process_start_def)
  ultimately show ?thesis by (metis converse_rtranclp_into_rtranclp rtranclp.rtrancl_refl)
qed

theorem shutdown_waits_only_for_clients_witness:
  "\<exists>k p'. (process_step (\<lambda>_. 0) (\<lambda>_ _. demo_exec 0) demo_client 1 ^^ k) demo_process p' \<and>
     k \<le> process_left demo_client demo_process \<and>
     (sv_point (pr_server p') = RunReturned \<and>
         (\<forall>w < length (sv_threads (pr_server p')). sv_threads (pr_server p') ! w = Joined) \<or>
       (\<exists>w. held_by_client p' w))"
proof -
  let ?h = "\<lambda>_. 0 :: 64 word" and ?envs = "\<lambda>_ _. demo_exec 0"
  have cache: "st_cache (demo_store demo_cache) = demo_cache" by (simp add: demo_store_def)
  have stop: "sv_stop (pr_server demo_process)" by (simp add: demo_process_def demo_server_def)
  have "process_inv ?h ?envs 1 demo_process"
    using whole.reach_inv [OF demo_process_reachable] process_start_inv [OF demo_store_inv, unfolded cache] by blast
  then obtain k p' where p': "(process_step ?h ?envs demo_client 1 ^^ k) demo_process p'"
    "\<not> (\<exists>p''. process_step ?h ?envs demo_client 1 p' p'')" using stopped_process_ends [OF _ stop] by blast
  from shutdown_waits_only_for_clients [OF demo_store_inv, unfolded cache, OF demo_process_reachable stop p'(1)] p' show ?thesis
    by blast
qed

end
