(* ===== verification/Shard_Scans.thy ===== *)
theory Shard_Scans
  imports Shard_Concurrency Persistence_Properties Ttl_Properties
begin

text \<open>
  Calls over the whole cache while other threads work on it: \<open>size\<close> and \<open>export_entries\<close> of
  \<open>src/sharded_cache.cpp\<close> lock one shard after the other, so they are not one atomic look at the
  cache. What they still guarantee: an export lists no key twice and misses no key that stays, and a
  size never exceeds the capacity.
\<close>

section \<open>Invariants of the shards through a history\<close>

fun op_key :: "cache_op \<Rightarrow> string option" where
  "op_key (OpSet k v) = Some k"
| "op_key (OpSetTtl k v ttl) = Some k"
| "op_key (OpGet k) = Some k"
| "op_key (OpGetInto k out) = Some k"
| "op_key (OpErase k) = Some k"
| "op_key (OpContains k) = Some k"
| "op_key (OpTtl k) = Some k"
| "op_key _ = None"

text \<open>Every call of \<open>ShardedCache\<close> reaches a shard that exists, and with a key the shard of that key.\<close>

definition placed :: "hash_fn \<Rightarrow> sharded_cache \<Rightarrow> shard_call \<Rightarrow> bool" where
  "placed h s call \<longleftrightarrow> fst call < length (shards s) \<and>
     (case op_key (snd (snd call)) of None \<Rightarrow> True | Some k \<Rightarrow> shard_index_for h k s = fst call)"

lemma key_call_placed: "shards s \<noteq> [] \<Longrightarrow> keyed x \<Longrightarrow> placed h s (key_call h s x)"
  by (cases x; cases "snd x") (auto simp: placed_def key_call_def keyed_def shard_index_less)

lemma loop_calls_placed:
  "op_key op = None \<Longrightarrow> call \<in> set (loop_calls (length (shards s)) clock op) \<Longrightarrow> placed h s call"
  by (auto simp: placed_def loop_calls_def)

lemma replay_invariant:
  assumes step: "\<And>i x c d r. P i c \<Longrightarrow> Q i x \<Longrightarrow> cache_step x c = Some (d, r) \<Longrightarrow> P i d \<and> R i x r"
  shows "replay log cs = Some ds \<Longrightarrow> \<forall>i < length cs. P i (cs ! i) \<Longrightarrow> \<forall>(t, (i, x), r) \<in> set log. Q i x \<Longrightarrow>
    \<forall>(t, (i, x), r) \<in> set log. R i x r"
proof (induction log cs rule: replay.induct)
  case (2 t i x r log cs)
  from 2(2) obtain d where i: "i < length cs" and d: "cache_step x (cs ! i) = Some (d, r)"
    and rest: "replay log (cs[i := d]) = Some ds"
    by (auto split: if_splits option.splits)
  have pd: "P i d \<and> R i x r" using step [OF _ _ d, of i] 2(3,4) i by auto
  then have "\<forall>j < length (cs[i := d]). P j (cs[i := d] ! j)" using 2(3) i by (auto simp: nth_list_update)
  with 2(1) [OF i d refl refl rest] 2(4) pd show ?case by auto
qed simp

definition cache_keys :: "cache \<Rightarrow> string set" where
  "cache_keys c = entry_key ` set (lru_items (cache_abs c))"

lemma lru_step_own_key:
  "entry_key ` set (lru_items (fst (lru_step dl (now, op) l))) \<subseteq> entry_key ` set (lru_items l) \<union> set_option (op_key op)"
  by (cases op) (auto simp: lru_get_def lru_erase_def lru_ttl_def lru_reclaim_def lru_put_def Let_def
      set_lru_drop split: option.splits dest!: subsetD [OF set_take_cap] dest: lru_find_key)

definition shard_ok :: "hash_fn \<Rightarrow> sharded_cache \<Rightarrow> nat \<Rightarrow> cache \<Rightarrow> bool" where
  "shard_ok h s i c \<longleftrightarrow> cache_inv c \<and> (\<forall>k \<in> cache_keys c. shard_index_for h k s = i) \<and>
     c_capacity c = shard_capacities s ! i"

lemma cache_step_abs: "cache_inv c \<Longrightarrow> cache_step x c = Some (d, r) \<Longrightarrow>
    cache_inv d \<and> lru_step deadline x (cache_abs c) = (cache_abs d, r)"
  using cache_step_refines [of c x] by auto

lemma shard_ok_step:
  assumes "shard_ok h s i c" and "placed h s (i, x)" and "cache_step x c = Some (d, r)"
  shows "shard_ok h s i d"
proof -
  obtain now op where x: "x = (now, op)" by (cases x)
  have d: "cache_inv d" "lru_step deadline (now, op) (cache_abs c) = (cache_abs d, r)"
    using cache_step_abs [OF _ assms(3)] assms(1) x by (auto simp: shard_ok_def)
  have "cache_keys d \<subseteq> cache_keys c \<union> set_option (op_key op)"
    using lru_step_own_key [of deadline now op "cache_abs c"] d(2) by (simp add: cache_keys_def)
  moreover have "lru_cap (cache_abs d) = lru_cap (cache_abs c)"
    using lru_step_cap [of deadline now op "cache_abs c"] d(2) by simp
  ultimately show ?thesis using assms(1,2) x d(1) by (auto simp: shard_ok_def placed_def split: option.splits)
qed

lemma shards_start_ok: "sharded_inv h s \<Longrightarrow> i < length (shards s) \<Longrightarrow> shard_ok h s i (map sy_cache (shards s) ! i)"
  by (auto simp: shard_ok_def sharded_inv_def shard_keys_def cache_keys_def sync_inv_def shard_capacities_def)

section \<open>What a scan is given\<close>

definition returned :: "shard_machine \<Rightarrow> nat \<Rightarrow> bool" where
  "returned m t \<longleftrightarrow> th_phase (sc_threads m ! t) = Idle \<and> th_todo (sc_threads m ! t) = []"

lemma scan_in_log:
  assumes "shard_inv cs progs m" and "t < length progs" and "progs ! t = loop_calls n clock op" and "returned m t"
  shows "length (th_results (sc_threads m ! t)) = n \<and>
    (\<forall>i < n. (t, (i, clock i, op), th_results (sc_threads m ! t) ! i) \<in> set (sc_log m))"
proof -
  have log: "map fst (thread_log m t) = loop_calls n clock op" "map snd (thread_log m t) = th_results (sc_threads m ! t)"
    using assms by (auto simp: shard_inv_def history_inv_def Let_def returned_def)
  have len: "length (thread_log m t) = n" using arg_cong [OF log(1), of length] by (simp add: loop_calls_def)
  have "(t, (i, clock i, op), th_results (sc_threads m ! t) ! i) \<in> set (sc_log m)" if "i < n" for i
  proof -
    have "thread_log m t ! i = ((i, clock i, op), th_results (sc_threads m ! t) ! i)"
      using arg_cong [OF log(1), of "\<lambda>l. l ! i"] arg_cong [OF log(2), of "\<lambda>l. l ! i"] that len
      by (simp add: loop_calls_def prod_eq_iff)
    moreover have "thread_log m t ! i \<in> set (thread_log m t)" using that len by simp
    ultimately show ?thesis by (auto simp: thread_log_def)
  qed
  with len arg_cong [OF log(2), of length] show ?thesis by simp
qed

lemma log_placed:
  assumes "shard_inv cs progs m" and "\<forall>calls \<in> set progs. \<forall>call \<in> set calls. Q call"
  shows "\<forall>(t, call, r) \<in> set (sc_log m). Q call"
proof safe
  fix t call r
  assume e: "(t, call, r) \<in> set (sc_log m)"
  then have t: "t < length progs" using assms(1) by (fastforce simp: shard_inv_def history_inv_def)
  have "call \<in> set (map fst (thread_log m t))" using e by (force simp: thread_log_def)
  moreover have "set (map fst (thread_log m t)) \<subseteq> set (progs ! t)"
    using assms(1) t by (auto simp: shard_inv_def history_inv_def Let_def simp del: set_map) (metis Un_iff set_append)
  ultimately show "Q call" using assms(2) t nth_mem by blast
qed

section \<open>Exports\<close>

definition export_ok :: "hash_fn \<Rightarrow> sharded_cache \<Rightarrow> nat \<Rightarrow> cache_op \<Rightarrow> cache_result \<Rightarrow> bool" where
  "export_ok h s i op r \<longleftrightarrow> (op = OpExport \<longrightarrow>
     (\<exists>es. r = RSnapshots es \<and> distinct (map snap_key es) \<and>
        (\<forall>e \<in> set es. shard_index_for h (snap_key e) s = i \<and> pred_option (\<lambda>t. 0 \<le> t) (snap_remaining_ttl e))))"

lemma shard_export:
  assumes "shard_ok h s i c" and "cache_step (now, op) c = Some (d, r)"
  shows "export_ok h s i op r"
proof -
  have ok: "distinct (map entry_key (lru_items (cache_abs c)))"
    using cache_inv_lru_ok assms(1) by (auto simp: shard_ok_def lru_ok_def)
  have "distinct (map snap_key (lru_export now (cache_abs c)))"
    using ok unfolding export_keys by (rule distinct_map_filter)
  moreover have "shard_index_for h (snap_key e) s = i" if "e \<in> set (lru_export now (cache_abs c))" for e
    using that assms(1) by (auto simp: shard_ok_def cache_keys_def lru_export_def lru_snapshot_def)
  moreover have "pred_option (\<lambda>t. 0 \<le> t) (snap_remaining_ttl e)" if "e \<in> set (lru_export now (cache_abs c))" for e
    using that export_ttl_nonneg by (cases "snap_remaining_ttl e") auto
  ultimately show ?thesis using assms(2) by (auto simp: export_ok_def cache_export_refines)
qed

text \<open>An entry that no call writes and that stays alive is in every export of its shard.\<close>

definition keeps_entry :: "string \<Rightarrow> entry \<Rightarrow> nat \<Rightarrow> nat \<Rightarrow> cache \<Rightarrow> bool" where
  "keeps_entry k e j i c \<longleftrightarrow> cache_inv c \<and>
     (i = j \<longrightarrow> lru_cap (cache_abs c) = None \<and> lru_find k (lru_items (cache_abs c)) = Some e)"

definition exports_entry :: "entry \<Rightarrow> nat \<Rightarrow> nat \<Rightarrow> time_ns \<times> cache_op \<Rightarrow> cache_result \<Rightarrow> bool" where
  "exports_entry e j i x r \<longleftrightarrow> (i = j \<and> snd x = OpExport \<longrightarrow>
     (\<exists>es. r = RSnapshots es \<and> lru_snapshot (fst x) e \<in> set es))"

definition leaves_entry :: "string \<Rightarrow> entry \<Rightarrow> time_ns \<times> cache_op \<Rightarrow> bool" where
  "leaves_entry k e x \<longleftrightarrow> live_at (fst x) e \<and> \<not> writes_key k (snd x)"

lemma keeps_entry_step:
  assumes "keeps_entry k e j i c" and "leaves_entry k e x" and "cache_step x c = Some (d, r)"
  shows "keeps_entry k e j i d \<and> exports_entry e j i x r"
proof -
  obtain now op where x: "x = (now, op)" by (cases x)
  have d: "cache_inv d" "lru_step deadline (now, op) (cache_abs c) = (cache_abs d, r)"
    using cache_step_abs [OF _ assms(3)] assms(1) x by (auto simp: keeps_entry_def)
  have live: "live_at now e" "\<not> writes_key k op" using assms(2) x by (auto simp: leaves_entry_def)
  have "keeps_entry k e j i d"
    using lru_step_keeps [OF _ _ live, of "cache_abs c" deadline] assms(1) d by (auto simp: keeps_entry_def)
  moreover have "exports_entry e j i x r"
  proof (cases "i = j \<and> op = OpExport")
    case True
    have f: "lru_find k (lru_items (cache_abs c)) = Some e" using True assms(1) by (simp add: keeps_entry_def)
    have r: "r = RSnapshots (lru_export now (cache_abs c))" using True d(2) by auto
    have "e \<in> set (lru_items (cache_abs c))" using lru_find_key [OF f] by auto
    with live(1) r x show ?thesis by (auto simp: exports_entry_def lru_export_def)
  qed (use x in \<open>auto simp: exports_entry_def\<close>)
  ultimately show ?thesis using x by simp
qed

section \<open>Sizes\<close>

definition size_ok :: "sharded_cache \<Rightarrow> nat \<Rightarrow> cache_op \<Rightarrow> cache_result \<Rightarrow> bool" where
  "size_ok s i op r \<longleftrightarrow> (op = OpSize \<longrightarrow> (\<exists>n. r = RNat n \<and> within_cap (shard_capacities s ! i) n))"

lemma shard_size:
  assumes "shard_ok h s i c" and "cache_step (now, op) c = Some (d, r)"
  shows "size_ok s i op r"
proof -
  have "lru_step deadline (now, op) (cache_abs c) = (cache_abs d, r)" "within_cap (c_capacity c) (length (lru_items (cache_abs c)))"
    using cache_step_abs [OF _ assms(2)] cache_inv_lru_ok [of c] assms(1) by (auto simp: shard_ok_def lru_ok_def)
  then show ?thesis using assms(1) by (auto simp: size_ok_def shard_ok_def)
qed

lemma history_results:
  assumes "sharded_inv h s" and "\<forall>calls \<in> set progs. \<forall>call \<in> set calls. placed h s call"
    and "shard_inv (map sy_cache (shards s)) progs m" and "(t, (i, now, op), r) \<in> set (sc_log m)"
  shows "export_ok h s i op r" "size_ok s i op r"
proof -
  have "\<forall>(t, (i, x), r) \<in> set (sc_log m). export_ok h s i (snd x) r \<and> size_ok s i (snd x) r"
  proof (rule replay_invariant [where P = "shard_ok h s" and Q = "\<lambda>i x. placed h s (i, x)"])
    show "shard_ok h s i d \<and> export_ok h s i (snd x) r \<and> size_ok s i (snd x) r"
      if "shard_ok h s i c" "placed h s (i, x)" "cache_step x c = Some (d, r)" for i x c d r
      using shard_ok_step [OF that] shard_export [of h s i c "fst x" "snd x"] shard_size [of h s i c "fst x" "snd x"] that
      by auto
    show "replay (sc_log m) (map sy_cache (shards s)) = Some (map sy_cache (sc_shards m))"
      using assms(3) by (simp add: shard_inv_def history_inv_def)
    show "\<forall>(t, (i, x), r) \<in> set (sc_log m). placed h s (i, x)" using log_placed [OF assms(3,2)] by auto
  qed (use shards_start_ok [OF assms(1)] in auto)
  with assms(4) show "export_ok h s i op r" "size_ok s i op r" by auto
qed

lemma history_exports:
  assumes "shard_inv (map sy_cache (shards s)) progs m" and "sharded_inv h s" and "set (shard_capacities s) \<subseteq> {None}"
    and "sharded_kv h s k = Some e" and "\<forall>calls \<in> set progs. \<forall>call \<in> set calls. leaves_entry k e (snd call)"
    and "(t, (shard_index_for h k s, now, OpExport), r) \<in> set (sc_log m)"
  shows "\<exists>es. r = RSnapshots es \<and> lru_snapshot now e \<in> set es"
proof -
  let ?j = "shard_index_for h k s"
  have "\<forall>(t, (i, x), r) \<in> set (sc_log m). exports_entry e ?j i x r"
  proof (rule replay_invariant [where P = "keeps_entry k e ?j" and Q = "\<lambda>i x. leaves_entry k e x"])
    show "replay (sc_log m) (map sy_cache (shards s)) = Some (map sy_cache (sc_shards m))"
      using assms(1) by (simp add: shard_inv_def history_inv_def)
    show "\<forall>(t, (i, x), r) \<in> set (sc_log m). leaves_entry k e x" using log_placed [OF assms(1,5)] by auto
    show "\<forall>i < length (map sy_cache (shards s)). keeps_entry k e ?j i (map sy_cache (shards s) ! i)"
      using assms(3,4) sharded_inv_shard(2) [OF assms(2)]
      by (auto simp: keeps_entry_def sharded_kv_def kv_of_def sharded_abs_def shard_capacities_def image_subset_iff)
  qed (rule keeps_entry_step)
  with assms(6) show ?thesis by (fastforce simp: exports_entry_def)
qed

lemma export_under_load:
  assumes "sharded_inv h s" and "\<forall>calls \<in> set progs. \<forall>call \<in> set calls. placed h s call"
    and "shard_step\<^sup>*\<^sup>* (start_threads s progs) m" and "t < length progs"
    and "progs ! t = loop_calls (length (shards s)) clock OpExport" and "returned m t"
  obtains parts where "th_results (sc_threads m ! t) = map RSnapshots parts" "distinct (map snap_key (concat parts))"
    "\<And>e. e \<in> set (concat parts) \<Longrightarrow> pred_option (\<lambda>t. 0 \<le> t) (snap_remaining_ttl e)"
    "\<And>k e. set (shard_capacities s) \<subseteq> {None} \<Longrightarrow> sharded_kv h s k = Some e \<Longrightarrow>
       \<forall>calls \<in> set progs. \<forall>call \<in> set calls. leaves_entry k e (snd call) \<Longrightarrow>
       lru_snapshot (clock (shard_index_for h k s)) e \<in> set (concat parts)"
proof -
  let ?n = "length (shards s)" and ?rs = "th_results (sc_threads m ! t)"
  have inv: "shard_inv (map sy_cache (shards s)) progs m" by (rule reachable_inv [OF assms(1,3)])
  have len: "length ?rs = ?n" and log: "\<And>i. i < ?n \<Longrightarrow> (t, (i, clock i, OpExport), ?rs ! i) \<in> set (sc_log m)"
    using scan_in_log [OF inv assms(4-6)] by auto
  have "\<forall>i < ?n. \<exists>es. ?rs ! i = RSnapshots es \<and> distinct (map snap_key es) \<and>
      (\<forall>e \<in> set es. shard_index_for h (snap_key e) s = i \<and> pred_option (\<lambda>t. 0 \<le> t) (snap_remaining_ttl e))"
    using history_results(1) [OF assms(1,2) inv log] by (auto simp: export_ok_def)
  then obtain part where part: "\<And>i. i < ?n \<Longrightarrow> ?rs ! i = RSnapshots (part i) \<and> distinct (map snap_key (part i)) \<and>
      (\<forall>e \<in> set (part i). shard_index_for h (snap_key e) s = i \<and> pred_option (\<lambda>t. 0 \<le> t) (snap_remaining_ttl e))" by metis
  define parts where "parts = map part [0..<?n]"
  show thesis
  proof (rule that [of parts])
    show "?rs = map RSnapshots parts" using len part by (intro nth_equalityI) (auto simp: parts_def)
    have "distinct (concat (map (\<lambda>i. map snap_key (part i)) [0..<?n]))"
      by (rule distinct_concat_labelled [where g = "\<lambda>k. shard_index_for h k s"]) (use part in auto)
    then show "distinct (map snap_key (concat parts))" by (simp add: parts_def map_concat comp_def)
    show "pred_option (\<lambda>t. 0 \<le> t) (snap_remaining_ttl e)" if "e \<in> set (concat parts)" for e
      using that part by (auto simp: parts_def)
    show "lru_snapshot (clock (shard_index_for h k s)) e \<in> set (concat parts)"
      if "set (shard_capacities s) \<subseteq> {None}" "sharded_kv h s k = Some e"
        "\<forall>calls \<in> set progs. \<forall>call \<in> set calls. leaves_entry k e (snd call)" for k e
    proof -
      have j: "shard_index_for h k s < ?n" using assms(1) by (simp add: sharded_inv_def shard_index_less)
      from history_exports [OF inv assms(1) that log [OF j]] part [OF j] j show ?thesis by (auto simp: parts_def)
    qed
  qed
qed

section \<open>Properties\<close>

text \<open>
  C28. An export taken while other threads read and write is a well-formed snapshot: for every
  interleaving it lists no key twice, although each shard is exported at a moment of its own; and in
  an unbounded cache it lists, with its value and its remaining time, every key that was there at the
  start, stays unexpired and is not written or cleared meanwhile.
\<close>

theorem concurrent_export_consistent:
  assumes "sharded_inv h s" and "\<forall>calls \<in> set progs. \<forall>call \<in> set calls. placed h s call"
    and "shard_step\<^sup>*\<^sup>* (start_threads s progs) m" and "t < length progs"
    and "progs ! t = loop_calls (length (shards s)) clock OpExport" and "returned m t"
  shows "\<exists>parts. th_results (sc_threads m ! t) = map RSnapshots parts \<and> distinct (map snap_key (concat parts)) \<and>
    (\<forall>k e. set (shard_capacities s) \<subseteq> {None} \<and> sharded_kv h s k = Some e \<and>
       (\<forall>calls \<in> set progs. \<forall>call \<in> set calls. leaves_entry k e (snd call)) \<longrightarrow>
       lru_snapshot (clock (shard_index_for h k s)) e \<in> set (concat parts))"
  using export_under_load [OF assms] by metis

text \<open>
  C29. A size read while other threads work never exceeds the capacity the cache was built with:
  for every interleaving, the sum of the shards' sizes, each read at a moment of its own, is within
  the bound.
\<close>

theorem concurrent_size_bounded:
  assumes "\<forall>calls \<in> set progs. \<forall>call \<in> set calls. placed h (sharded_bounded n cap) call"
    and "shard_step\<^sup>*\<^sup>* (start_threads (sharded_bounded n cap) progs) m" and "t < length progs"
    and "progs ! t = loop_calls (length (shards (sharded_bounded n cap))) clock OpSize" and "returned m t"
  shows "\<exists>sizes. th_results (sc_threads m ! t) = map RNat sizes \<and> sum_list sizes \<le> cap"
proof -
  let ?s = "sharded_bounded n cap"
  let ?n = "length (shards ?s)" and ?rs = "th_results (sc_threads m ! t)"
  have inv: "shard_inv (map sy_cache (shards ?s)) progs m"
    by (rule reachable_inv [OF sharded_inv_bounded assms(2)])
  have len: "length ?rs = ?n" and log: "\<And>i. i < ?n \<Longrightarrow> (t, (i, clock i, OpSize), ?rs ! i) \<in> set (sc_log m)"
    using scan_in_log [OF inv assms(3-5)] by auto
  have "\<forall>i < ?n. \<exists>k. ?rs ! i = RNat k \<and> within_cap (shard_capacities ?s ! i) k"
    using history_results(2) [OF sharded_inv_bounded assms(1) inv log] by (auto simp: size_ok_def)
  then obtain k where k: "\<And>i. i < ?n \<Longrightarrow> ?rs ! i = RNat (k i) \<and> within_cap (shard_capacities ?s ! i) (k i)" by metis
  have rs: "?rs = map RNat (map k [0..<?n])" using len k by (intro nth_equalityI) auto
  have len': "length (shard_capacities ?s) = ?n" by (simp add: shard_capacities_def)
  have "the (shard_capacities ?s ! i) \<ge> k i" if "i < ?n" for i
  proof -
    have "shard_capacities ?s ! i \<in> set (shard_capacities ?s)" using that len' by simp
    then obtain c where "shard_capacities ?s ! i = Some c" by (auto simp: shard_capacities_bounded)
    with k [OF that] show ?thesis by simp
  qed
  then have "sum_list (map k [0..<?n]) \<le> sum_list (map (\<lambda>i. the (shard_capacities ?s ! i)) [0..<?n])"
    by (intro sum_list_mono) simp
  also have "map (\<lambda>i. the (shard_capacities ?s ! i)) [0..<?n] = map the (shard_capacities ?s)"
    using len' by (intro nth_equalityI) simp_all
  finally have "sum_list (map k [0..<?n]) \<le> cap" by (simp add: bounded_capacity_sum)
  with rs show ?thesis by (intro exI conjI)
qed

section \<open>Instances\<close>

lemma work_done_returned:
  assumes "machine_work m = 0" and "t < length (sc_threads m)"
  shows "returned m t"
proof -
  have "thread_work (sc_threads m ! t) = 0" using assms nth_mem [OF assms(2)] by (auto simp: machine_work_def)
  then show ?thesis by (cases "th_phase (sc_threads m ! t)") (auto simp: thread_work_def returned_def)
qed

theorem concurrent_size_bounded_witness:
  "\<exists>m sizes. shard_step\<^sup>*\<^sup>* (start_threads (sharded_bounded 2 3)
       [loop_calls 2 (\<lambda>_. 0) OpSize, [(0, 0, OpSet ''k'' ''v''), (0, 1, OpSet ''l'' ''v'')]]) m \<and>
     th_results (sc_threads m ! 0) = map RNat sizes \<and> sum_list sizes \<le> 3"
proof -
  let ?s = "sharded_bounded 2 3" and ?h = "\<lambda>_. 0 :: 64 word"
  let ?progs = "[loop_calls 2 (\<lambda>_. 0) OpSize, [(0, 0, OpSet ''k'' ''v''), (0, 1, OpSet ''l'' ''v'')]]"
  have n: "length (shards ?s) = 2" by (simp add: sharded_bounded_def bounded_count_def sane_shard_count_def)
  have mix: "shard_index_for ?h k ?s = 0" for k by (simp add: shard_index_for_def shard_hash_def mix_def)
  have placed: "\<forall>calls \<in> set ?progs. \<forall>call \<in> set calls. placed ?h ?s call"
    using n mix by (auto simp: placed_def loop_calls_def)
  have range: "in_range ?s ?progs" using n by (auto simp: in_range_def loop_calls_def upt_rec)
  obtain m where m: "shard_step\<^sup>*\<^sup>* (start_threads ?s ?progs) m" "machine_work m = 0"
    using complete_run [OF sharded_inv_bounded range rtranclp.rtrancl_refl] by blast
  have "length (sc_threads m) = 2"
    using reachable_inv [OF sharded_inv_bounded m(1)] by (simp add: shard_inv_def history_inv_def)
  with concurrent_size_bounded [OF placed m(1), of 0 "\<lambda>_. 0"] work_done_returned [OF m(2), of 0] n m(1) show ?thesis
    by auto
qed

theorem concurrent_export_consistent_witness:
  "\<exists>s e m parts. sharded_kv (\<lambda>_. 0) s ''k'' = Some e \<and>
     shard_step\<^sup>*\<^sup>* (start_threads s [loop_calls (length (shards s)) (\<lambda>_. 0) OpExport, [(0, 0, OpSet ''l'' ''w'')]]) m \<and>
     th_results (sc_threads m ! 0) = map RSnapshots parts \<and> distinct (map snap_key (concat parts)) \<and>
     lru_snapshot 0 e \<in> set (concat parts)"
proof -
  let ?h = "\<lambda>_. 0 :: 64 word"
  obtain s r where s: "sharded_kv_inv ?h s"
    "kv_step deadline (0, KvSet ''k'' ''v'') (sharded_kv ?h (sharded_unbounded 2)) = (sharded_kv ?h s, r)"
    using sharded_step_kv [OF sharded_kv_inv_unbounded, where now = 0 and op = "KvSet ''k'' ''v''"] by blast
  define e where "e = \<lparr>entry_key = ''k'', entry_value = ''v'', entry_expires_at = None\<rparr>"
  have k: "sharded_kv ?h s ''k'' = Some e" using arg_cong [OF s(2), of "\<lambda>x. fst x ''k''"] by (auto simp: e_def kv_step_def)
  have inv: "sharded_inv ?h s" "set (shard_capacities s) \<subseteq> {None}" using s(1) by (simp_all add: sharded_kv_inv_def)
  have ne: "shards s \<noteq> []" using inv(1) by (simp add: sharded_inv_def)
  let ?progs = "[loop_calls (length (shards s)) (\<lambda>_. 0) OpExport, [(0, 0, OpSet ''l'' ''w'')]]"
  have mix: "shard_index_for ?h k s = 0" for k by (simp add: shard_index_for_def shard_hash_def mix_def)
  have placed: "\<forall>calls \<in> set ?progs. \<forall>call \<in> set calls. placed ?h s call"
    using ne mix by (auto simp: placed_def loop_calls_def)
  have leaves: "\<forall>calls \<in> set ?progs. \<forall>call \<in> set calls. leaves_entry ''k'' e (snd call)"
    by (auto simp: e_def leaves_entry_def loop_calls_def live_at_def)
  have range: "in_range s ?progs" using ne by (auto simp: in_range_def loop_calls_def list_all_iff)
  obtain m where m: "shard_step\<^sup>*\<^sup>* (start_threads s ?progs) m" "machine_work m = 0"
    using complete_run [OF inv(1) range rtranclp.rtrancl_refl] by blast
  have "length (sc_threads m) = 2"
    using reachable_inv [OF inv(1) m(1)] by (simp add: shard_inv_def history_inv_def)
  then have "returned m 0" using work_done_returned [OF m(2), of 0] by simp
  from concurrent_export_consistent [OF inv(1) placed m(1), of 0 "\<lambda>_. 0"] this k inv(2) leaves m(1) show ?thesis by fastforce
qed

end
