(* ===== verification/Save_Under_Load.thy ===== *)
theory Save_Under_Load
  imports Shard_Scans
begin

text \<open>
  A save while clients work: the shards are exported one by one under their mutexes, between the calls
  of other threads (\<open>Shard_Scans\<close>), then the entries are written with no lock held
  (\<open>src/persistence.cpp\<close>). What a server started from that file has.
\<close>

text \<open>The entries \<open>export_entries\<close> appends, shard after shard.\<close>

definition entries_of :: "cache_result list \<Rightarrow> entry_snapshot list" where
  "entries_of results = concat (map (\<lambda>r. case r of RSnapshots es \<Rightarrow> es | _ \<Rightarrow> []) results)"

definition finish_save :: "string \<Rightarrow> save_env \<Rightarrow> cache_result list \<Rightarrow> disk \<Rightarrow> disk \<times> save_result" where
  "finish_save path env results d = write_snapshot path env (entries_of results) d"

lemma entries_of_parts [simp]: "entries_of (map RSnapshots parts) = concat parts"
  by (simp add: entries_of_def comp_def)

text \<open>With no other thread, this is \<open>save\<close>.\<close>

lemma finish_save_alone:
  assumes "sharded_inv h s"
  shows "save path env s d = Some (s, finish_save path env
    (map (\<lambda>(i, sh). RSnapshots (cache_export (se_clock env i) (sy_cache sh))) (zip [0..<length (shards s)] (shards s))) d)"
  using sharded_reads(4) [OF assms, of "se_clock env"]
  by (simp add: save_def finish_save_def entries_of_def comp_def case_prod_unfold)

lemma kv_entry_key: "sharded_kv h s k = Some e \<Longrightarrow> entry_key e = k"
  by (auto simp: sharded_kv_def kv_of_def dest: lru_find_key split: if_splits)

lemma revived_persistent:
  "entry_expires_at e = None \<Longrightarrow> revived now elapsed (lru_snapshot now' e) = Some e"
  by (cases e) (simp add: revived_def lru_snapshot_def)

text \<open>
  C20. A save under load loses nothing that is not being changed: for every interleaving of a save with
  other threads on an unbounded cache, when the file is written and loaded later into a fresh cache
  without capacity, with any hash function and number of shards, every key that was there at the start
  of the save, stays unexpired during it and is not written or cleared meanwhile is back with its value;
  without a time to live as it was, otherwise with what was left of it when its shard was exported, less
  the time on disk, counted from the instant its record is applied, the records being applied from the
  last to the first. In a bounded cache other threads may evict the key before its shard is exported.
\<close>

theorem save_under_load_restores:
  assumes "sharded_inv h s" and "\<forall>calls \<in> set progs. \<forall>call \<in> set calls. placed h s call"
    and "shard_step\<^sup>*\<^sup>* (start_threads s progs) m" and "t < length progs"
    and "progs ! t = loop_calls (length (shards s)) (se_clock env) OpExport" and "returned m t"
    and "set (shard_capacities s) \<subseteq> {None}"
    and "finish_save path env (th_results (sc_threads m ! t)) d = (d1, res)" and "sr_ok res"
    and "list_all saveable (entries_of (th_results (sc_threads m ! t)))"
    and "length (entries_of (th_results (sc_threads m ! t))) < 2 ^ 63" and "int64_range (se_wall env)"
  shows "\<exists>t' res'. load h' path wall clock d1 (sharded_unbounded n) = Some (t', res') \<and> lr_ok res' \<and>
    (\<forall>k e. sharded_kv h s k = Some e \<and> (\<forall>calls \<in> set progs. \<forall>call \<in> set calls. leaves_entry k e (snd call)) \<longrightarrow>
       (\<exists>j < length (entries_of (th_results (sc_threads m ! t))).
          rev (entries_of (th_results (sc_threads m ! t))) ! j = lru_snapshot (se_clock env (shard_index_for h k s)) e \<and>
          sharded_kv h' t' k = revived (clock j) (elapsed_ms wall (se_wall env))
            (lru_snapshot (se_clock env (shard_index_for h k s)) e)) \<and>
       (entry_expires_at e = None \<longrightarrow> sharded_kv h' t' k = Some e))"
proof -
  let ?el = "elapsed_ms wall (se_wall env)"
  obtain parts where p: "th_results (sc_threads m ! t) = map RSnapshots parts" "distinct (map snap_key (concat parts))"
    "\<And>e. e \<in> set (concat parts) \<Longrightarrow> pred_option (\<lambda>t. 0 \<le> t) (snap_remaining_ttl e)"
    and kept: "\<And>k e. sharded_kv h s k = Some e \<Longrightarrow> \<forall>calls \<in> set progs. \<forall>call \<in> set calls. leaves_entry k e (snd call) \<Longrightarrow>
       lru_snapshot (se_clock env (shard_index_for h k s)) e \<in> set (concat parts)"
    using export_under_load [OF assms(1-6)] assms(7) by metis
  define es where "es = concat parts"
  have es: "entries_of (th_results (sc_threads m ! t)) = es" using p(1) by (simp add: es_def)
  have ttl: "0 \<le> x" if "e \<in> set es" "snap_remaining_ttl e = Some x" for e x
    using p(3) [of e] that by (simp add: es_def)
  obtain t' res' where load: "load h' path wall clock d1 (sharded_unbounded n) = Some (t', res')" "lr_ok res'"
    and revive: "\<And>j. j < length es \<Longrightarrow> sharded_kv h' t' (snap_key (rev es ! j)) = revived (clock j) ?el (rev es ! j)"
    using written_then_loaded [OF assms(8) [unfolded finish_save_def es] assms(9) assms(10,11) [unfolded es] assms(12)
        p(2) [folded es_def], where h' = h' and wall = wall and clock = clock and n = n] ttl by blast
  have "(\<exists>j < length es. rev es ! j = lru_snapshot (se_clock env (shard_index_for h k s)) e \<and>
      sharded_kv h' t' k = revived (clock j) ?el (lru_snapshot (se_clock env (shard_index_for h k s)) e)) \<and>
      (entry_expires_at e = None \<longrightarrow> sharded_kv h' t' k = Some e)"
    if "sharded_kv h s k = Some e" "\<forall>calls \<in> set progs. \<forall>call \<in> set calls. leaves_entry k e (snd call)" for k e
  proof -
    let ?snap = "lru_snapshot (se_clock env (shard_index_for h k s)) e"
    have "snap_key ?snap = k" using kv_entry_key [OF that(1)] by (simp add: lru_snapshot_def)
    moreover have "?snap \<in> set (rev es)" using kept [OF that, folded es_def] by simp
    then obtain j where "j < length es" "rev es ! j = ?snap" by (metis in_set_conv_nth length_rev)
    ultimately show ?thesis using revive [of j] revived_persistent [of e] by auto
  qed
  with load show ?thesis unfolding es by blast
qed

section \<open>Instances\<close>

lemma demo_cache_kv:
  "sharded_kv (\<lambda>_. 0) demo_cache ''k'' = Some \<lparr>entry_key = ''k'', entry_value = ''v'', entry_expires_at = None\<rparr>"
  by code_simp

text \<open>One call of one thread, while the others rest.\<close>

lemma solo_call:
  assumes t: "t < length (sc_threads m)" "sc_threads m ! t = \<lparr>th_phase = Idle, th_todo = call # rest, th_results = rs\<rparr>"
    and i: "fst call < length (sc_shards m)" "\<not> sy_locked (sc_shards m ! fst call)"
    and step: "cache_step (snd call) (sy_cache (sc_shards m ! fst call)) = Some (d, r)"
  shows "\<exists>m'. shard_step\<^sup>*\<^sup>* m m' \<and> sc_threads m' ! t = \<lparr>th_phase = Idle, th_todo = rest, th_results = rs @ [r]\<rparr>"
proof -
  let ?i = "fst call" and ?th = "\<lambda>p. \<lparr>th_phase = p, th_todo = rest, th_results = rs\<rparr>"
  let ?sh = "(sc_shards m ! ?i)\<lparr>sy_locked := True\<rparr>"
  let ?m1 = "m\<lparr>sc_shards := (sc_shards m)[?i := ?sh], sc_threads := (sc_threads m)[t := ?th (Acquired call)]\<rparr>"
  let ?m2 = "?m1\<lparr>sc_threads := (sc_threads m)[t := ?th (Loaded call (sy_cache (sc_shards m ! ?i)))]\<rparr>"
  let ?m3 = "?m2\<lparr>sc_shards := (sc_shards m)[?i := ?sh\<lparr>sy_cache := d\<rparr>], sc_threads := (sc_threads m)[t := ?th (Stored call r)],
    sc_log := sc_log m @ [(t, call, r)]\<rparr>"
  let ?m4 = "?m3\<lparr>sc_shards := (sc_shards m)[?i := unlock_mutex (?sh\<lparr>sy_cache := d\<rparr>)],
    sc_threads := (sc_threads m)[t := (?th Idle)\<lparr>th_results := rs @ [r]\<rparr>]\<rparr>"
  have "shard_step m ?m1"
    using acquired [of t m _ call rest ?sh] t i by (simp add: lock_mutex_def)
  moreover have "shard_step ?m1 ?m2" using loaded [of t ?m1 _ call] t i by simp
  moreover have "shard_step ?m2 ?m3" using stored [of t ?m2 _ call _ d r] t i step by simp
  moreover have "shard_step ?m3 ?m4" using released [of t ?m3 _ call r] t i by simp
  ultimately have "shard_step\<^sup>*\<^sup>* m ?m4" by (meson converse_rtranclp_into_rtranclp rtranclp.rtrancl_refl)
  moreover have "sc_threads ?m4 ! t = \<lparr>th_phase = Idle, th_todo = rest, th_results = rs @ [r]\<rparr>" using t by simp
  ultimately show ?thesis by blast
qed

definition demo_save_progs :: "shard_call list list" where
  "demo_save_progs = [loop_calls 1 (se_clock demo_env) OpExport, [(0, 0, OpGet ''l'')]]"

lemma demo_scan:
  "\<exists>m. shard_step\<^sup>*\<^sup>* (start_threads demo_cache demo_save_progs) m \<and> returned m 0 \<and>
     th_results (sc_threads m ! 0) = [RSnapshots [\<lparr>snap_key = ''k'', snap_value = ''v'', snap_remaining_ttl = None\<rparr>]]"
proof -
  have "\<exists>d. cache_step (0, OpExport) (sy_cache (shards demo_cache ! 0)) =
      Some (d, RSnapshots [\<lparr>snap_key = ''k'', snap_value = ''v'', snap_remaining_ttl = None\<rparr>])"
    by (simp add: demo_cache_def cache_export_def rl_range_def)
  then obtain d where d: "cache_step (0, OpExport) (sy_cache (shards demo_cache ! 0)) =
      Some (d, RSnapshots [\<lparr>snap_key = ''k'', snap_value = ''v'', snap_remaining_ttl = None\<rparr>])" by blast
  from solo_call [of 0 "start_threads demo_cache demo_save_progs" "(0, 0, OpExport)" "[]" "[]" d] d show ?thesis
    by (fastforce simp: start_threads_def demo_save_progs_def loop_calls_def demo_env_def demo_cache_def returned_def)
qed

theorem save_under_load_restores_witness:
  "\<exists>m d1 res t' res'. shard_step\<^sup>*\<^sup>* (start_threads demo_cache demo_save_progs) m \<and>
     finish_save ''dump'' demo_env (th_results (sc_threads m ! 0)) demo_disk = (d1, res) \<and>
     load (\<lambda>k. of_nat (length k)) ''dump'' 5000 (\<lambda>_. 10) d1 (sharded_unbounded 4) = Some (t', res') \<and>
     sharded_kv (\<lambda>k. of_nat (length k)) t' ''k'' = Some \<lparr>entry_key = ''k'', entry_value = ''v'', entry_expires_at = None\<rparr>"
proof -
  let ?h = "\<lambda>_. 0 :: 64 word" and ?e = "\<lparr>snap_key = ''k'', snap_value = ''v'', snap_remaining_ttl = None\<rparr>"
  obtain m where m: "shard_step\<^sup>*\<^sup>* (start_threads demo_cache demo_save_progs) m" "returned m 0"
    "th_results (sc_threads m ! 0) = [RSnapshots [?e]]" using demo_scan by blast
  have entries: "entries_of (th_results (sc_threads m ! 0)) = [?e]" by (simp add: m(3) entries_of_def)
  obtain d1 res where d1: "finish_save ''dump'' demo_env (th_results (sc_threads m ! 0)) demo_disk = (d1, res)" by fastforce
  have ok: "sr_ok res" using d1 by (auto simp: finish_save_def write_snapshot_def demo_env_def Let_def)
  have facts: "list_all saveable (entries_of (th_results (sc_threads m ! 0)))" "int64_range (se_wall demo_env)"
    "length (entries_of (th_results (sc_threads m ! 0))) < 2 ^ 63"
    by (simp_all add: entries saveable_def entry_ttl_def kNoExpiry_def demo_env_def int64_range_def)
  have shape: "length (shards demo_cache) = 1" "set (shard_capacities demo_cache) \<subseteq> {None}"
    by (simp_all add: demo_cache_def shard_capacities_def)
  have placed: "\<forall>calls \<in> set demo_save_progs. \<forall>call \<in> set calls. placed ?h demo_cache call"
    using shape(1) by (auto simp: demo_save_progs_def placed_def loop_calls_def shard_index_for_def)
  have leaves: "\<forall>calls \<in> set demo_save_progs. \<forall>call \<in> set calls.
      leaves_entry ''k'' \<lparr>entry_key = ''k'', entry_value = ''v'', entry_expires_at = None\<rparr> (snd call)"
    by (auto simp: demo_save_progs_def leaves_entry_def loop_calls_def live_at_def)
  have prog: "0 < length demo_save_progs" "demo_save_progs ! 0 = loop_calls (length (shards demo_cache)) (se_clock demo_env) OpExport"
    using shape(1) by (simp_all add: demo_save_progs_def)
  from save_under_load_restores [OF demo_cache_inv placed m(1) prog m(2) shape(2) d1 ok facts(1,3,2),
      where h' = "\<lambda>k. of_nat (length k)" and wall = 5000 and clock = "\<lambda>_. 10" and n = 4]
  obtain t' res' where "load (\<lambda>k. of_nat (length k)) ''dump'' 5000 (\<lambda>_. 10) d1 (sharded_unbounded 4) = Some (t', res')"
    "sharded_kv (\<lambda>k. of_nat (length k)) t' ''k'' = Some \<lparr>entry_key = ''k'', entry_value = ''v'', entry_expires_at = None\<rparr>"
    using demo_cache_kv leaves by force
  with m(1) d1 show ?thesis by blast
qed

end
