(* ===== verification/Save_Machine.thy ===== *)
theory Save_Machine
  imports Persistence_Properties
begin

text \<open>
  Concurrent saves (\<open>PersistenceManager::save\<close> called by several clients, the periodic saver and
  several processes at once), step by step: open a temporary file, write the header and the records
  piece by piece, rename it over the snapshot, or fail and remove it. Every state a run passes
  through is also a state a crash can leave behind. A process makes fewer than \<open>2^64\<close> saves, so
  the counter of \<open>unique_temp_path\<close> does not come round.
\<close>

record save_job =
  sj_pid :: nat
  sj_id :: nat
  sj_wall :: int
  sj_entries :: "entry_snapshot list"
  sj_pending :: "string list"

record save_machine =
  sm_files :: files
  sm_counter :: "nat \<Rightarrow> nat"
  sm_jobs :: "save_job list"

definition sj_temp :: "string \<Rightarrow> save_job \<Rightarrow> string" where
  "sj_temp path j = unique_temp_path path (sj_pid j) (sj_id j)"

definition save_pieces :: "int \<Rightarrow> entry_snapshot list \<Rightarrow> string list" where
  "save_pieces wall es = header_bytes wall (length es) # map entry_bytes es"

inductive save_step :: "string \<Rightarrow> save_machine \<Rightarrow> save_machine \<Rightarrow> bool" for path where
  open_failed: "sm_counter m pid + 1 < 2 ^ 64 \<Longrightarrow>
    save_step path m (m\<lparr>sm_counter := (sm_counter m)(pid := sm_counter m pid + 1)\<rparr>)"
| opened: "sm_counter m pid + 1 < 2 ^ 64 \<Longrightarrow>
    j = \<lparr>sj_pid = pid, sj_id = sm_counter m pid, sj_wall = wall, sj_entries = es, sj_pending = save_pieces wall es\<rparr> \<Longrightarrow>
    save_step path m (m\<lparr>sm_counter := (sm_counter m)(pid := sm_counter m pid + 1),
      sm_files := (sm_files m)(sj_temp path j \<mapsto> []), sm_jobs := sm_jobs m @ [j]\<rparr>)"
| wrote: "i < length (sm_jobs m) \<Longrightarrow> j = sm_jobs m ! i \<Longrightarrow> sj_pending j = p # ps \<Longrightarrow>
    sm_files m (sj_temp path j) = Some old \<Longrightarrow>
    save_step path m (m\<lparr>sm_files := (sm_files m)(sj_temp path j \<mapsto> old @ p),
      sm_jobs := (sm_jobs m)[i := j\<lparr>sj_pending := ps\<rparr>]\<rparr>)"
| renamed: "i < length (sm_jobs m) \<Longrightarrow> j = sm_jobs m ! i \<Longrightarrow> sj_pending j = [] \<Longrightarrow>
    save_step path m (m\<lparr>sm_files := (sm_files m)(sj_temp path j := None, path := sm_files m (sj_temp path j)),
      sm_jobs := drop_nth i (sm_jobs m)\<rparr>)"
| failed: "i < length (sm_jobs m) \<Longrightarrow> j = sm_jobs m ! i \<Longrightarrow>
    save_step path m (m\<lparr>sm_files := (sm_files m)(sj_temp path j := None), sm_jobs := drop_nth i (sm_jobs m)\<rparr>)"

section \<open>Temporary names are unique\<close>

lemma digits_dot_split:
  assumes "to_string_nat a @ CHR ''.'' # to_string_nat b = to_string_nat c @ CHR ''.'' # to_string_nat d"
  shows "a = c \<and> b = d"
proof -
  have dot: "ends_number (CHR ''.'' # xs)" for xs by (simp add: ends_number_def is_digit_def)
  from assms have "to_string_nat a = to_string_nat c"
    using span_number(1) [OF dot, of a "to_string_nat b"] span_number(1) [OF dot, of c "to_string_nat d"] by metis
  with assms show ?thesis by simp
qed

lemma unique_temp_path_inj: "unique_temp_path path a b = unique_temp_path path c d \<longleftrightarrow> a = c \<and> b = d"
  using digits_dot_split [of a b c d] by (auto simp: unique_temp_path_def)

lemma unique_temp_path_other: "unique_temp_path path a b \<noteq> path"
  by (simp add: unique_temp_path_def)

lemma sj_temp_other [simp]: "sj_temp path j \<noteq> path" "path \<noteq> sj_temp path j"
  by (simp_all add: sj_temp_def unique_temp_path_other unique_temp_path_other [symmetric])

lemma sj_temp_pending [simp]: "sj_temp path (j\<lparr>sj_pending := ps\<rparr>) = sj_temp path j"
  by (simp add: sj_temp_def)

section \<open>The invariant\<close>

definition job_ok :: "string \<Rightarrow> save_machine \<Rightarrow> save_job \<Rightarrow> bool" where
  "job_ok path m j \<longleftrightarrow> sj_id j < sm_counter m (sj_pid j) \<and>
     (\<exists>written. sm_files m (sj_temp path j) = Some written \<and>
        written @ concat (sj_pending j) = snapshot_bytes (sj_wall j) (sj_entries j))"

definition complete_or_old :: "string option \<Rightarrow> string option \<Rightarrow> bool" where
  "complete_or_old before x \<longleftrightarrow> x = before \<or> (\<exists>wall es. x = Some (snapshot_bytes wall es))"

definition save_inv :: "string \<Rightarrow> string option \<Rightarrow> save_machine \<Rightarrow> bool" where
  "save_inv path before m \<longleftrightarrow> distinct (map (sj_temp path) (sm_jobs m)) \<and>
     list_all (job_ok path m) (sm_jobs m) \<and> complete_or_old before (sm_files m path)"

text \<open>What another job does not touch stays right.\<close>

lemma job_ok_frame:
  assumes "job_ok path m j" and "sm_files m' (sj_temp path j) = sm_files m (sj_temp path j)"
    and "sm_counter m (sj_pid j) \<le> sm_counter m' (sj_pid j)"
  shows "job_ok path m' j"
  using assms by (auto simp: job_ok_def)

lemma concat_save_pieces: "concat (save_pieces wall es) = snapshot_bytes wall es"
  by (simp add: save_pieces_def snapshot_bytes_def)


lemma other_jobs:
  assumes "distinct (map (sj_temp path) (sm_jobs m))" and "i < length (sm_jobs m)"
    and "k \<in> set (drop_nth i (sm_jobs m))"
  shows "k \<in> set (sm_jobs m)" and "sj_temp path k \<noteq> sj_temp path (sm_jobs m ! i)"
proof -
  show "k \<in> set (sm_jobs m)" using assms(3) set_drop_nth [of i "sm_jobs m"] by auto
  have "sj_temp path k \<in> set (drop_nth i (map (sj_temp path) (sm_jobs m)))"
    unfolding map_drop_nth [symmetric] using assms(3) by simp
  with drop_nth_gone [OF assms(1), of i] assms(2) show "sj_temp path k \<noteq> sj_temp path (sm_jobs m ! i)"
    by (metis length_map nth_map)
qed

lemma inv_opened:
  assumes "save_inv path before m"
    and "j = \<lparr>sj_pid = pid, sj_id = sm_counter m pid, sj_wall = wall, sj_entries = es, sj_pending = save_pieces wall es\<rparr>"
  shows "save_inv path before (m\<lparr>sm_counter := (sm_counter m)(pid := sm_counter m pid + 1),
      sm_files := (sm_files m)(sj_temp path j \<mapsto> []), sm_jobs := sm_jobs m @ [j]\<rparr>)"
proof -
  have new: "sj_temp path k \<noteq> sj_temp path j" if "k \<in> set (sm_jobs m)" for k
    using that assms by (auto simp: save_inv_def list_all_iff job_ok_def sj_temp_def unique_temp_path_inj)
  have "job_ok path (m\<lparr>sm_counter := (sm_counter m)(pid := sm_counter m pid + 1),
      sm_files := (sm_files m)(sj_temp path j \<mapsto> []), sm_jobs := sm_jobs m @ [j]\<rparr>) k"
    if "k \<in> set (sm_jobs m)" for k
    by (rule job_ok_frame [of path m]) (use that new [OF that] assms(1) in \<open>auto simp: save_inv_def list_all_iff\<close>)
  moreover have "job_ok path (m\<lparr>sm_counter := (sm_counter m)(pid := sm_counter m pid + 1),
      sm_files := (sm_files m)(sj_temp path j \<mapsto> []), sm_jobs := sm_jobs m @ [j]\<rparr>) j"
    using assms(2) by (simp add: job_ok_def concat_save_pieces)
  ultimately show ?thesis
    using assms(1) new new [THEN not_sym] by (auto simp: save_inv_def list_all_iff)
qed

lemma inv_wrote:
  assumes "save_inv path before m" and "i < length (sm_jobs m)" and "j = sm_jobs m ! i"
    and "sj_pending j = p # ps" and "sm_files m (sj_temp path j) = Some old"
  shows "save_inv path before (m\<lparr>sm_files := (sm_files m)(sj_temp path j \<mapsto> old @ p),
      sm_jobs := (sm_jobs m)[i := j\<lparr>sj_pending := ps\<rparr>]\<rparr>)" (is "save_inv path before ?m'")
proof -
  let ?j' = "j\<lparr>sj_pending := ps\<rparr>"
  have "map (sj_temp path) ((sm_jobs m)[i := ?j']) = map (sj_temp path) (sm_jobs m)"
    using assms(2,3) by (simp add: map_update list_update_same_conv)
  moreover have "job_ok path ?m' k" if "k \<in> set (sm_jobs ?m')" for k
  proof -
    from that assms(2) obtain a where a: "a < length (sm_jobs m)" "k = (if a = i then ?j' else sm_jobs m ! a)"
      by (auto simp: in_set_conv_nth nth_list_update split: if_splits)
    show ?thesis
    proof (cases "a = i")
      case True
      have "job_ok path m j" using assms(1-3) by (simp add: save_inv_def list_all_iff)
      with True a(2) assms(4,5) show ?thesis by (auto simp: job_ok_def)
    next
      case False
      then have "sj_temp path (sm_jobs m ! a) \<noteq> sj_temp path j"
        using assms(1-3) a(1) nth_eq_iff_index_eq [of "map (sj_temp path) (sm_jobs m)" a i]
        by (simp add: save_inv_def)
      then show ?thesis
        by (intro job_ok_frame [of path m k ?m'])
          (use False a assms(1) in \<open>auto simp: save_inv_def list_all_iff\<close>)
    qed
  qed
  ultimately show ?thesis using assms(1) by (auto simp: save_inv_def list_all_iff)
qed

lemma inv_removed:
  assumes "save_inv path before m" and "i < length (sm_jobs m)" and "j = sm_jobs m ! i"
    and "complete_or_old before x"
  shows "save_inv path before (m\<lparr>sm_files := (sm_files m)(sj_temp path j := None, path := x),
      sm_jobs := drop_nth i (sm_jobs m)\<rparr>)" (is "save_inv path before ?m'")
proof -
  have d: "distinct (map (sj_temp path) (sm_jobs m))" using assms(1) by (simp add: save_inv_def)
  have "job_ok path ?m' k" if "k \<in> set (drop_nth i (sm_jobs m))" for k
    by (rule job_ok_frame [of path m])
      (use other_jobs [OF d assms(2) that] assms(1,3) in \<open>auto simp: save_inv_def list_all_iff\<close>)
  with d assms(4) show ?thesis
    by (simp add: save_inv_def list_all_iff map_drop_nth distinct_drop_nth)
qed

lemma save_inv_step:
  assumes inv: "save_inv path before m" and "save_step path m m'"
  shows "save_inv path before m'"
  using assms(2)
proof cases
  case (open_failed pid)
  then show ?thesis using inv by (auto simp: save_inv_def list_all_iff job_ok_def)
next
  case (opened pid j wall es)
  then show ?thesis using inv_opened [OF inv] by simp
next
  case (wrote i j p ps old)
  then show ?thesis using inv_wrote [OF inv] by simp
next
  case (renamed i j)
  then have "job_ok path m j" using inv by (simp add: save_inv_def list_all_iff)
  with renamed have "complete_or_old before (sm_files m (sj_temp path j))"
    by (auto simp: job_ok_def complete_or_old_def)
  with renamed inv_removed [OF inv] show ?thesis by simp
next
  case (failed i j)
  have "(sm_files m)(sj_temp path j := None) = (sm_files m)(sj_temp path j := None, path := sm_files m path)"
    by auto
  with failed inv_removed [OF inv, of i j "sm_files m path"] inv show ?thesis by (simp add: save_inv_def)
qed

interpretation saves: step_invariant "save_step path" "save_inv path before" for path before
  by unfold_locales (rule save_inv_step)

text \<open>
  C21. Saves are atomic, however many run at once in however many processes: in every state of
  every interleaving (so also after a crash at any instant) the snapshot path holds what it held
  before, or the complete bytes of one save. It never holds a partial or interleaved file.
\<close>

theorem concurrent_saves_atomic:
  assumes "sm_jobs m = []" and "(save_step path)\<^sup>*\<^sup>* m m'"
  shows "sm_files m' path = sm_files m path \<or> (\<exists>wall es. sm_files m' path = Some (snapshot_bytes wall es))"
proof -
  have "save_inv path (sm_files m path) m" using assms(1) by (simp add: save_inv_def complete_or_old_def)
  from saves.reach_inv [OF assms(2) this] show ?thesis by (simp add: save_inv_def complete_or_old_def)
qed


theorem concurrent_saves_atomic_witness:
  "\<exists>m'. save_step ''s'' \<lparr>sm_files = [''s'' \<mapsto> ''old''], sm_counter = (\<lambda>_. 0), sm_jobs = []\<rparr> m' \<and>
     sm_jobs m' \<noteq> [] \<and> (sm_files m' ''s'' = Some ''old'' \<or> (\<exists>wall es. sm_files m' ''s'' = Some (snapshot_bytes wall es)))"
proof -
  let ?m = "\<lparr>sm_files = [''s'' \<mapsto> ''old''], sm_counter = (\<lambda>_. 0), sm_jobs = []\<rparr>"
  obtain m' where m': "save_step ''s'' ?m m'" "sm_jobs m' \<noteq> []"
    using save_step.opened [of ?m 7 _ 0 "[]" "''s''", OF _ refl] by fastforce
  then have "(save_step ''s'')\<^sup>*\<^sup>* ?m m'" by blast
  from concurrent_saves_atomic [OF _ this] m' show ?thesis by auto
qed

section \<open>A single save is a run of the machine\<close>

definition machine_of :: "nat \<Rightarrow> disk \<Rightarrow> save_machine" where
  "machine_of pid d = \<lparr>sm_files = dk_files d, sm_counter = (\<lambda>p. if p = pid then dk_counter d else 0), sm_jobs = []\<rparr>"

lemma write_all:
  assumes "sm_jobs m = [j]" and "sm_files m (sj_temp path j) = Some old"
  shows "(save_step path)\<^sup>*\<^sup>* m (m\<lparr>sm_files := (sm_files m)(sj_temp path j \<mapsto> old @ concat (sj_pending j)),
    sm_jobs := [j\<lparr>sj_pending := []\<rparr>]\<rparr>)"
  using assms
proof (induction "sj_pending j" arbitrary: m j old)
  case Nil
  then have "m\<lparr>sm_files := (sm_files m)(sj_temp path j \<mapsto> old @ concat (sj_pending j)), sm_jobs := [j\<lparr>sj_pending := []\<rparr>]\<rparr> = m"
    by (simp add: fun_upd_idem flip: Nil(1))
  then show ?case by (simp only: rtranclp.rtrancl_refl)
next
  case (Cons p ps)
  let ?m1 = "m\<lparr>sm_files := (sm_files m)(sj_temp path j \<mapsto> old @ p), sm_jobs := [j\<lparr>sj_pending := ps\<rparr>]\<rparr>"
  have pend: "sj_pending j = p # ps" by (rule Cons.hyps(2) [symmetric])
  have one: "0 < length (sm_jobs m)" "j = sm_jobs m ! 0" "(sm_jobs m)[0 := j\<lparr>sj_pending := ps\<rparr>] = [j\<lparr>sj_pending := ps\<rparr>]"
    using Cons.prems(1) by simp_all
  have "save_step path m ?m1"
    using save_step.wrote [OF one(1,2) pend Cons.prems(2)] unfolding one(3) .
  moreover have "(save_step path)\<^sup>*\<^sup>* ?m1 (?m1\<lparr>sm_files := (sm_files ?m1)(sj_temp path (j\<lparr>sj_pending := ps\<rparr>) \<mapsto>
      (old @ p) @ concat (sj_pending (j\<lparr>sj_pending := ps\<rparr>))), sm_jobs := [j\<lparr>sj_pending := ps\<rparr>\<lparr>sj_pending := []\<rparr>]\<rparr>)"
    by (rule Cons.hyps(1)) simp_all
  ultimately show ?case
    by (simp add: converse_rtranclp_into_rtranclp pend)
qed

lemma solo_failed:
  assumes "sm_jobs m = [j]"
  shows "save_step path m (m\<lparr>sm_files := (sm_files m)(sj_temp path j := None), sm_jobs := []\<rparr>)"
proof -
  have one: "0 < length (sm_jobs m)" "j = sm_jobs m ! 0" "drop_nth 0 (sm_jobs m) = []" using assms by simp_all
  show ?thesis using save_step.failed [OF one(1,2), of path] unfolding one(3) .
qed

lemma solo_renamed:
  assumes "sm_jobs m = [j]" and "sm_files m (sj_temp path j) = Some []" and "x = concat (sj_pending j)"
  shows "(save_step path)\<^sup>*\<^sup>* m (m\<lparr>sm_files := (sm_files m)(sj_temp path j := None, path \<mapsto> x), sm_jobs := []\<rparr>)"
proof -
  let ?m = "m\<lparr>sm_files := (sm_files m)(sj_temp path j \<mapsto> [] @ concat (sj_pending j)), sm_jobs := [j\<lparr>sj_pending := []\<rparr>]\<rparr>"
  have one: "0 < length (sm_jobs ?m)" "j\<lparr>sj_pending := []\<rparr> = sm_jobs ?m ! 0" "sj_pending (j\<lparr>sj_pending := []\<rparr>) = []"
    by simp_all
  have "save_step path ?m (m\<lparr>sm_files := (sm_files m)(sj_temp path j := None, path \<mapsto> x), sm_jobs := []\<rparr>)"
    using save_step.renamed [OF one, of path] by (simp add: assms(3))
  with write_all [OF assms(1,2)] show ?thesis by (rule rtranclp.rtrancl_into_rtrancl)
qed

lemma save_disk:
  assumes "save path env s d = Some (s', d', res)" and "dk_counter d + 1 < 2 ^ 64"
  obtains es where "dk_counter d' = dk_counter d + 1"
    "dk_files d' = dk_files d \<or>
     dk_files d' = (dk_files d)(unique_temp_path path (se_pid env) (dk_counter d) := None) \<or>
     dk_files d' = (dk_files d)(unique_temp_path path (se_pid env) (dk_counter d) := None,
       path \<mapsto> snapshot_bytes (se_wall env) es)"
proof -
  obtain s1 es where es: "sharded_export (se_clock env) s = Some (s1, es)"
    using assms(1) by (auto simp: save_def bind_eq_Some_conv)
  show thesis
    by (rule that [of es]) (use assms es in \<open>auto simp: save_def write_snapshot_def Let_def split: if_splits option.splits\<close>)
qed

text \<open>
  C22. The machine contains every single save: whatever \<open>save\<close> does to the disk, error paths
  included, the machine can do in steps from a state without running saves to another such state.
\<close>

theorem save_is_a_machine_run:
  assumes "save path env s d = Some (s', d', res)" and "dk_counter d + 1 < 2 ^ 64"
  shows "(save_step path)\<^sup>*\<^sup>* (machine_of (se_pid env) d) (machine_of (se_pid env) d')"
proof -
  let ?pid = "se_pid env" and ?m = "machine_of (se_pid env) d"
  obtain es where d': "dk_counter d' = dk_counter d + 1"
    "dk_files d' = dk_files d \<or> dk_files d' = (dk_files d)(unique_temp_path path ?pid (dk_counter d) := None) \<or>
     dk_files d' = (dk_files d)(unique_temp_path path ?pid (dk_counter d) := None, path \<mapsto> snapshot_bytes (se_wall env) es)"
    using save_disk [OF assms] by blast
  define j where "j = \<lparr>sj_pid = ?pid, sj_id = dk_counter d, sj_wall = se_wall env, sj_entries = es,
    sj_pending = save_pieces (se_wall env) es\<rparr>"
  have temp: "sj_temp path j = unique_temp_path path ?pid (dk_counter d)" by (simp add: j_def sj_temp_def)
  define m1 where "m1 = ?m\<lparr>sm_counter := (sm_counter ?m)(?pid := dk_counter d + 1),
    sm_files := (dk_files d)(sj_temp path j \<mapsto> []), sm_jobs := [j]\<rparr>"
  have opened: "save_step path ?m m1"
    using save_step.opened [of ?m ?pid j "se_wall env" es path] assms(2)
    by (simp add: m1_def machine_of_def j_def)
  have m1: "sm_jobs m1 = [j]" "sm_files m1 (sj_temp path j) = Some []"
    "snapshot_bytes (se_wall env) es = concat (sj_pending j)"
    by (simp_all add: m1_def j_def concat_save_pieces)
  have target: "machine_of ?pid d' = m1\<lparr>sm_files := dk_files d', sm_jobs := []\<rparr>"
    using d'(1) by (auto simp: machine_of_def m1_def)
  from d'(2) show ?thesis
  proof (elim disjE)
    assume "dk_files d' = dk_files d"
    then have "machine_of ?pid d' = ?m\<lparr>sm_counter := (sm_counter ?m)(?pid := sm_counter ?m ?pid + 1)\<rparr>"
      using d'(1) by (auto simp: machine_of_def)
    then show ?thesis
      using save_step.open_failed [of ?m ?pid path] assms(2) by (auto simp: machine_of_def)
  next
    assume "dk_files d' = (dk_files d)(unique_temp_path path ?pid (dk_counter d) := None)"
    then have "m1\<lparr>sm_files := (sm_files m1)(sj_temp path j := None), sm_jobs := []\<rparr> = machine_of ?pid d'"
      unfolding target by (simp add: m1_def temp)
    with opened solo_failed [OF m1(1), of path] show ?thesis by (metis rtranclp.simps)
  next
    assume "dk_files d' = (dk_files d)(unique_temp_path path ?pid (dk_counter d) := None, path \<mapsto> snapshot_bytes (se_wall env) es)"
    then have "m1\<lparr>sm_files := (sm_files m1)(sj_temp path j := None, path \<mapsto> snapshot_bytes (se_wall env) es), sm_jobs := []\<rparr>
        = machine_of ?pid d'"
      unfolding target by (simp add: m1_def temp)
    with opened solo_renamed [OF m1] show ?thesis by (metis converse_rtranclp_into_rtranclp)
  qed
qed


theorem save_is_a_machine_run_witness:
  "\<exists>d' res. save ''dump'' demo_env demo_cache demo_disk = Some (demo_cache, d', res) \<and>
     (save_step ''dump'')\<^sup>*\<^sup>* (machine_of (se_pid demo_env) demo_disk) (machine_of (se_pid demo_env) d')"
proof -
  obtain d' res where d': "save ''dump'' demo_env demo_cache demo_disk = Some (demo_cache, d', res)"
    using demo_save by blast
  from save_is_a_machine_run [OF this] d' show ?thesis by (simp add: demo_disk_def)
qed

end
