(* ===== verification/Demo.thy ===== *)
theory Demo
  imports Lru_Cache Version "HOL-Library.Monad_Syntax"
begin

text \<open>
  The in-process demonstration (\<open>src/main.cpp\<close>): the function from the instants its calls read off
  the clock to the text it prints.
\<close>

definition print_value :: "string \<Rightarrow> string option \<Rightarrow> string" where
  "print_value label v = ''  '' @ label @ '' -> '' @ (case v of Some s \<Rightarrow> s | None \<Rightarrow> ''(nil)'') @ [LF]"

definition print_order :: "cache \<Rightarrow> string" where
  "print_order c = ''  order (newest first): '' @ concat (map (\<lambda>k. k @ '' '') (keys_by_recency c)) @ [LF]"

definition boolalpha :: "bool \<Rightarrow> string" where
  "boolalpha b = (if b then ''true'' else ''false'')"

text \<open>Section 1: no entry has a deadline, so \<open>now\<close> is any instant.\<close>

definition demo_basic :: "time_ns \<Rightarrow> string defined" where
  "demo_basic now = do {
     c \<leftarrow> cache_set ''user:1'' ''ada'' cache_unbounded;
     c \<leftarrow> cache_set ''user:2'' ''grace'' c;
     c \<leftarrow> cache_set ''user:1'' ''ada lovelace'' c;
     (c, v1) \<leftarrow> cache_get now ''user:1'' c;
     (c, v2) \<leftarrow> cache_get now ''user:42'' c;
     (c, e1) \<leftarrow> cache_erase now ''user:2'' c;
     (c, e2) \<leftarrow> cache_erase now ''user:2'' c;
     Some ([LF] @ ''[1] Basic operations (unbounded)'' @ [LF] @
       print_value ''get user:1 '' v1 @ print_value ''get user:42'' v2 @
       ''  erase user:2 -> '' @ boolalpha e1 @ '', again -> '' @ boolalpha e2 @ '', size -> '' @ to_string_nat (cache_size c) @ [LF])
   }"

definition demo_lru :: "time_ns \<Rightarrow> string defined" where
  "demo_lru now = do {
     c1 \<leftarrow> cache_set ''a'' ''1'' (cache_bounded 3);
     c1 \<leftarrow> cache_set ''b'' ''2'' c1;
     c1 \<leftarrow> cache_set ''c'' ''3'' c1;
     (c2, _) \<leftarrow> cache_get now ''a'' c1;
     c3 \<leftarrow> cache_set ''d'' ''4'' c2;
     b \<leftarrow> cache_contains now ''b'' c3;
     a \<leftarrow> cache_contains now ''a'' c3;
     Some ([LF] @ ''[2] LRU eviction (capacity 3)'' @ [LF] @ print_order c1 @
       ''  get(\"a\") -- reading it makes it the newest'' @ [LF] @ print_order c2 @
       ''  set(\"d\") -- at capacity, so the oldest (\"b\") is evicted'' @ [LF] @ print_order c3 @
       ''  contains b -> '' @ boolalpha b @ '', contains a -> '' @ boolalpha a @
       '', evictions -> '' @ to_string_nat (c_evictions c3) @ [LF])
   }"

definition describe :: "time_ns \<Rightarrow> string \<Rightarrow> cache \<Rightarrow> (cache \<times> string) defined" where
  "describe now key c = do {
     (c, info) \<leftarrow> cache_ttl now key c;
     Some (c, ''  ttl '' @ key @ '' -> '' @
       (case ttl_info_state info of
          Missing \<Rightarrow> ''missing'' @ [LF]
        | Persistent \<Rightarrow> ''no expiry'' @ [LF]
        | Expiring \<Rightarrow> to_string (ttl_remaining info) @ '' ms left'' @ [LF]))
   }"

text \<open>The five reads of the clock: storing \<open>fleeting\<close>, and the four calls of \<open>describe\<close>.\<close>

definition demo_ttl :: "time_ns \<Rightarrow> time_ns \<Rightarrow> time_ns \<Rightarrow> time_ns \<Rightarrow> time_ns \<Rightarrow> string defined" where
  "demo_ttl t0 t1 t2 t3 t4 = do {
     c \<leftarrow> cache_set ''permanent'' ''stays'' cache_unbounded;
     c \<leftarrow> cache_set_ttl t0 ''fleeting'' ''goes'' 50 c;
     (c, o1) \<leftarrow> describe t1 ''permanent'' c;
     (c, o2) \<leftarrow> describe t2 ''fleeting'' c;
     (c, o3) \<leftarrow> describe t3 ''permanent'' c;
     (c, o4) \<leftarrow> describe t4 ''fleeting'' c;
     Some ([LF] @ ''[3] TTL (lazy expiration)'' @ [LF] @ o1 @ o2 @ ''  ... waiting 150 ms ...'' @ [LF] @ o3 @ o4 @
       ''  size -> '' @ to_string_nat (cache_size c) @ '', expired removals -> '' @ to_string_nat (c_expired_removals c) @ [LF])
   }"

definition demo_main :: "version \<Rightarrow> time_ns \<Rightarrow> time_ns \<Rightarrow> time_ns \<Rightarrow> time_ns \<Rightarrow> time_ns \<Rightarrow> (string \<times> int) defined" where
  "demo_main version t0 t1 t2 t3 t4 = do {
     o1 \<leftarrow> demo_basic t0;
     o2 \<leftarrow> demo_lru t0;
     o3 \<leftarrow> demo_ttl t0 t1 t2 t3 t4;
     Some (''CacheX '' @ version_text version @
       '' -- in-process cache demo (no server yet)'' @ [LF] @ o1 @ o2 @ o3, 0)
   }"

text \<open>The text the demonstration announces is what it prints.\<close>

lemma demo_basic_prints:
  "demo_basic 0 = Some ([LF] @ ''[1] Basic operations (unbounded)'' @ [LF] @ ''  get user:1  -> ada lovelace'' @ [LF] @
     ''  get user:42 -> (nil)'' @ [LF] @ ''  erase user:2 -> true, again -> false, size -> 1'' @ [LF])"
  by code_simp

lemma demo_lru_prints:
  "demo_lru 0 = Some ([LF] @ ''[2] LRU eviction (capacity 3)'' @ [LF] @ ''  order (newest first): c b a '' @ [LF] @
     ''  get(\"a\") -- reading it makes it the newest'' @ [LF] @ ''  order (newest first): a c b '' @ [LF] @
     ''  set(\"d\") -- at capacity, so the oldest (\"b\") is evicted'' @ [LF] @ ''  order (newest first): d a c '' @ [LF] @
     ''  contains b -> false, contains a -> true, evictions -> 1'' @ [LF])"
  by code_simp

lemma demo_ttl_prints:
  "demo_ttl 0 1000 2000000 153000000 153000000 = Some ([LF] @ ''[3] TTL (lazy expiration)'' @ [LF] @
     ''  ttl permanent -> no expiry'' @ [LF] @ ''  ttl fleeting -> 48 ms left'' @ [LF] @ ''  ... waiting 150 ms ...'' @ [LF] @
     ''  ttl permanent -> no expiry'' @ [LF] @ ''  ttl fleeting -> missing'' @ [LF] @
     ''  size -> 1, expired removals -> 1'' @ [LF])"
  by code_simp

end
