(* ===== verification/Spec2Isabelle.thy ===== *)
theory Spec2Isabelle
  imports Client Server_Main Server_Process Save_Under_Load Save_Machine Demo
begin

text \<open>
  CacheX: an in-memory key-value cache with LRU eviction and times to live, sharded for threads, kept
  on disk as snapshots and served over TCP. This library models the program under \<open>src/\<close> and proves
  what makes it correct. Numbers C1, C2, ... mark the properties.

  \<^bold>\<open>The parts and how they interact.\<close> A \<open>Cache\<close> keeps its entries in a \<open>RecencyList\<close>, newest
  first, with an index from keys to list nodes. A \<open>SyncCache\<close> puts a mutex around a cache, a
  \<open>ShardedCache\<close> spreads keys over several of them by hash. \<open>PersistenceManager\<close> writes a cache to
  a file and reads it back, \<open>PeriodicSaver\<close> does so in the background. The \<open>Server\<close> accepts
  clients and gives each a thread with a \<open>Connection\<close>, which cuts the byte stream into lines with a
  \<open>LineBuffer\<close>, parses them (\<open>protocol.cpp\<close>), executes them on the sharded cache
  (\<open>command_handler.cpp\<close>) and sends the replies. \<open>server_main.cpp\<close>, \<open>client_main.cpp\<close> and
  \<open>main.cpp\<close> are the programs.

  \<^bold>\<open>Conventions.\<close> An operation is a function from the state (a record with the fields of the C++
  class) to the new state and the result. Undefined behaviour of C++ (a dangling iterator, a second
  lock of a held mutex, a shard index out of range) is \<open>None\<close> of the type \<open>defined\<close>, so a theorem that
  a run is \<open>Some\<close> says it is free of it. Instants and durations are integers in nanoseconds and
  milliseconds; \<open>wrap64\<close> marks where the code computes in 64 bits. There a signed overflow, undefined in
  C++, is taken modulo \<open>2 ^ 64\<close>, so \<open>Some\<close> says nothing of it: it is the subject of C17, where \<open>load_checked\<close> has
  every overflow a snapshot can cause as \<open>None\<close>, with \<open>load_checked_eq\<close> (it is \<open>load\<close> wherever it is
  defined) and \<open>snapshot_in_range\<close> (no overflow on snapshots of entries whose deadline the clock can
  express); and \<open>deadline_exact\<close> says when the deadline of \<open>set\<close> is exact. Times to live sent over the protocol are
  bounded by the parser (C14). What comes from outside, the
  clock, the answers of \<open>recv\<close>, \<open>send\<close>, \<open>bind\<close> and the file system, is an argument, for every value
  of which the theorems hold. \<open>std::hash\<close> is an arbitrary function. Threads are step relations in
  which each step is one interaction; the theorems are about every interleaving.

  \<^bold>\<open>Theories.\<close>
  \<^item> \<open>Cachex_Prelude\<close>: lemma collections, generic lemmas, runs of operations, and the contracts
    \<open>defined_refinement\<close> (a component implements a total specification), \<open>step_invariant\<close>
    (a step relation keeps an invariant) and \<open>simulation\<close> (every run of one machine is matched by a run
    of another).
  \<^item> \<open>Recency_List\<close> (\<open>recency_list.cpp\<close>): \<open>std::list\<close> with node identities; the contract
    \<open>recency_order\<close>, interpreted on the list.
  \<^item> \<open>Lru_Spec\<close>, \<open>Lru_Cache\<close> (\<open>cache.cpp\<close>): the LRU list as specification, the cache as code, and the
    refinement \<open>cache_lru\<close>. \<open>Lru_Properties\<close>, \<open>Ttl_Properties\<close>: C1-C8, that the cache is exactly the
    specification, holds the most recently used keys, evicts the least recently used one, and that
    lazy expiration cannot be told from removal at the deadline (C8, without a bound: with one, an
    expired entry takes up room).
  \<^item> \<open>Sync_Cache\<close> (\<open>sync_cache.hpp\<close>), \<open>Kv_Spec\<close>, \<open>Sharded_Cache\<close> (\<open>sharded_cache.cpp\<close>),
    \<open>Sharded_Properties\<close>: C9-C12, that sharding is invisible without a bound and is one LRU list per
    shard with one, that the capacity is split exactly, and that the hash mixing loses nothing.
  \<^item> \<open>Shard_Concurrency\<close>: threads on a shared cache; linearizability, mutual exclusion, absence of
    deadlock and termination (C26, C27). \<open>Shard_Scans\<close>: \<open>export_entries\<close> and \<open>size\<close> while other threads
    work, which are not atomic and still never repeat or lose a key that stays, nor pass the capacity
    (C28, C29).
  \<^item> \<open>Decimal\<close>, \<open>Line_Buffer\<close> (\<open>line_buffer.cpp\<close>), \<open>Protocol\<close> (\<open>protocol.cpp\<close>),
    \<open>Protocol_Properties\<close>: numbers as text, framing and requests; C13-C16, that chunking does not
    matter, that requests round-trip, and that rejected lines get short errors.
  \<^item> \<open>Istream\<close>, \<open>Persistence\<close> (\<open>persistence.cpp\<close>), \<open>Persistence_Properties\<close>: the part of
    \<open>std::ifstream\<close> that \<open>load\<close> uses, \<open>save\<close> and \<open>load\<close>; C17 and C18, that a damaged file leaves
    the cache alone, which files overflow, and that saving and loading give back recency, with the lemmas
    \<open>saved_then_loaded\<close> (into a cache without a bound) and \<open>saved_then_loaded_alike\<close> (into one built like the
    saved one) for values and times. \<open>Save_Under_Load\<close>: C20, that a save while other threads work loses nothing
    that is not being changed.
    \<open>Save_Machine\<close>: concurrent saves and crashes, C21 and C22.
  \<^item> \<open>Command_Handler\<close> (\<open>command_handler.cpp\<close>), \<open>Handler_Properties\<close>: \<open>execute\<close>; C23-C25.
  \<^item> \<open>Socket\<close> (\<open>socket.cpp\<close>): \<open>send_all\<close>, ownership of descriptors, connecting, ports (C39, C40), and the
    socket options that keep a write to a closed peer from killing the process.
  \<^item> \<open>Connection\<close> (\<open>connection.cpp\<close>), \<open>Connection_Properties\<close>: the loop that serves a client; C30, C34,
    C35, that the conversation is that of the request lines, that memory is bounded, and that the loop
    ends with the client.
  \<^item> \<open>Service\<close>: the workers of many clients interleaved on one cache, a command as one step; one order of
    all requests explains every reply, and (\<open>serve_run\<close>) the machine has the runs of \<open>serve\<close>.
    \<open>Service_Locks\<close>: the same workers with the lock, read, write and unlock of a shard as steps, and a
    simulation of \<open>Service\<close>; C31, that clients still see one request at a time, and C32, that every
    schedule ends with each worker waiting for its own client only.
  \<^item> \<open>Server\<close> (\<open>server.cpp\<close>): \<open>start\<close>, and the accept loop with its workers; C36, that workers are
    counted, bounded and joined. \<open>Server_Process\<close>: the accept loop and the locked workers together; C37,
    that after \<open>stop\<close> only a connected client can hold up the end of \<open>run\<close>.
  \<^item> \<open>Periodic_Saver\<close> (\<open>persistence.cpp\<close>): the saver's thread and any number of calls of \<open>stop\<close>, with the
    mutex, the wait set of the condition variable, \<open>notify_all\<close> and \<open>join\<close> as steps; no wake-up is lost,
    and C38, that \<open>stop\<close> returns without waiting for the interval and leaves nothing running.
  \<^item> \<open>Client\<close> (\<open>client_main.cpp\<close>), \<open>Server_Main\<close> (\<open>server_main.cpp\<close>), \<open>Demo\<close> (\<open>main.cpp\<close>), \<open>Version\<close>
    (\<open>version.cpp\<close>): the programs, with what they print. C19: a server that ended with code 0 and is
    started again without a bound, or as it was, has its data back. This theory joins client and server (C33).

  \<^bold>\<open>Loops.\<close> No definition uses fuel. Loops over data are structural or have a measure (\<open>trim\<close>,
  \<open>serve_lines\<close>, \<open>tokenize\<close>). Loops driven by the kernel recurse over its answers, and running out of
  answers is the blocked call; that a call returns is stated for enough answers (\<open>reliable\<close>: one
  for each byte is enough). The loops of the step machines are bounded by measures that count the
  steps left.

  \<^bold>\<open>Not modelled.\<close> The log lines of \<open>Server\<close>, which threads print interleaved. Running out of memory.
  The order in which the hardware makes writes of one thread visible to another: every access is
  under a mutex or atomic, so steps are taken one at a time. The length of waits (\<open>poll\<close>, \<open>wait_for\<close>)
  is a choice of step, and in the accept loop \<open>accept\<close> and the refusal sent to a client over the limit do
  not block. Counters are natural numbers. The machines of many clients (\<open>Service\<close>, \<open>Service_Locks\<close>,
  \<open>Server_Process\<close>) have no snapshot file, which is the default: SAVE and LOAD visit the shards one by one
  and are not one step of any order. What a SAVE among other calls keeps is C20; in \<open>Server_Main\<close> the
  commands run one after the other. Whole-cache calls (\<open>size\<close>, \<open>clear\<close>,
  \<open>export_entries\<close>) are not claimed to be linearizable. Tests, benchmarks and build files.
\<close>

section \<open>A client and a server\<close>

text \<open>
  C33. A client and a server talking over a connection agree on the conversation. Take any input lines
  without LOAD that fit the line limit, and a cache without a newline in a value. The bytes from server
  to client are the replies \<open>out\<close> to the lines that are not blank, in order, up to the first QUIT; the
  bytes from client to server are the lines answered, all of them unless there was a QUIT. The
  server, whatever pieces these lines arrive in and its replies leave in, sends exactly \<open>out\<close>, leaves
  the store of that sequence of commands, and waits for more or returns after QUIT. The client, whatever
  pieces \<open>out\<close> arrives in and its requests leave in, sends exactly these lines, prints one line for each
  of them, which are the replies in order, and exits with 0.
\<close>

theorem client_and_server_agree:
  assumes "conn_inv h c" and "cache_clean (st_cache (cn_store c))" and "\<And>n. quiet_env p (envs n)"
    and "list_all (\<lambda>r. plain_request r \<and> length r \<le> kMaxLineBytes) inputs"
  shows "\<exists>st out go.
    session h p envs (map strip_cr (filter (\<lambda>r. r \<noteq> []) inputs)) (conn_state c) = Some (st, out, go) \<and>
    (go \<longrightarrow> answered out inputs = filter (\<lambda>r. r \<noteq> []) inputs) \<and>
    (\<forall>sends rs. reliable (length out) sends \<and> list_all got_input rs \<and> stream_of rs = wire (answered out inputs) \<longrightarrow>
       (\<exists>b rest. serve h p envs rs lb_fresh (c\<lparr>cn_sends := sends\<rparr>) =
          Some (if go then ServeBlocked else ServeReturned, b, conn_after (c\<lparr>cn_sends := sends\<rparr>) st out rest))) \<and>
    (\<forall>sends rs. reliable (length (wire inputs)) sends \<and> list_all is_data rs \<and> stream_of rs = out \<longrightarrow>
       (\<exists>cl. client_loop inputs (client_start sends rs) = (ClientExit 0, cl) \<and> cl_sent cl = wire (answered out inputs) \<and>
          cl_printed cl = fst (frames [] out) \<and> length (cl_printed cl) = length (answered out inputs)))"
proof -
  have inv: "store_inv h (snd (conn_state c))" "cache_clean (st_cache (snd (conn_state c)))"
    using assms(1,2) by (simp_all add: conn_inv_def conn_state_def)
  have plain: "list_all plain_request inputs" using assms(4) by (simp add: list_all_iff)
  obtain st out go where s: "session h p envs (map strip_cr (filter (\<lambda>r. r \<noteq> []) inputs)) (conn_state c) = Some (st, out, go)"
    using session_defined [OF inv(1)] by blast
  define sent where "sent = answered out inputs"
  have talk: "\<exists>cl. client_loop inputs (client_start sends rs) = (ClientExit 0, cl) \<and> cl_sent cl = wire sent \<and>
      cl_printed cl = fst (frames [] out) \<and> length (cl_printed cl) = length sent \<and>
      session h p envs (map strip_cr sent) (conn_state c) = Some (st, out, go) \<and>
      (go \<longrightarrow> sent = filter (\<lambda>r. r \<noteq> []) inputs)"
    if "reliable (length (wire inputs)) sends" "list_all is_data rs" "stream_of rs = out" for sends rs
    using dialogue [of p envs h "conn_state c" inputs "client_start sends rs", OF assms(3) inv plain _ _ s] that
    by (auto simp: client_start_def incoming_def lb_fresh_def sent_def)
  have all: "session h p envs (map strip_cr sent) (conn_state c) = Some (st, out, go)" "go \<longrightarrow> sent = filter (\<lambda>r. r \<noteq> []) inputs"
    using talk [of "replicate (length (wire inputs)) (Sent 1)" "[Received out]"]
    by (auto simp: reliable_def send_budget_def list_all_iff stream_of_def)
  have "list_all (\<lambda>r. LF \<notin> set r \<and> length r \<le> kMaxLineBytes) sent"
    using assms(4) by (auto simp: list_all_iff sent_def answered_def plain_request_def dest!: in_set_takeD)
  with all(1) have srv: "\<exists>b rest. serve h p envs rs lb_fresh (c\<lparr>cn_sends := sends\<rparr>) =
      Some (if go then ServeBlocked else ServeReturned, b, conn_after (c\<lparr>cn_sends := sends\<rparr>) st out rest)"
    if "reliable (length out) sends" "list_all got_input rs" "stream_of rs = wire sent" for sends rs
    using serve_session [of rs "[]" lb_fresh h p envs "c\<lparr>cn_sends := sends\<rparr>" st out go] that
      runs_le_wire [of kMaxLineBytes sent] frames_wire [of sent] by (auto simp: lb_fresh_def list_all_iff conn_state_def)
  have client: "\<exists>cl. client_loop inputs (client_start sends rs) = (ClientExit 0, cl) \<and> cl_sent cl = wire sent \<and>
      cl_printed cl = fst (frames [] out) \<and> length (cl_printed cl) = length sent"
    if "reliable (length (wire inputs)) sends" "list_all is_data rs" "stream_of rs = out" for sends rs
    using talk [OF that] by blast
  show ?thesis
    by (rule exI [of _ st], rule exI [of _ out], rule exI [of _ go])
      (use s all(2) srv client in \<open>unfold sent_def, blast\<close>)
qed

text \<open>A PING, an empty line and a QUIT, with the requests and the replies in two pieces each.\<close>

definition talk_inputs :: "string list" where
  "talk_inputs = [''PING'', [], ''QUIT'']"

definition talk_replies :: string where
  "talk_replies = ''+PONG'' @ LF # ''+BYE'' @ [LF]"

lemma talk_session:
  "session (\<lambda>_. 0) None (\<lambda>_. demo_exec 0) (map strip_cr (filter (\<lambda>r. r \<noteq> []) talk_inputs)) (conn_state demo_conn) =
     Some ((2, demo_store demo_cache), talk_replies, False)"
proof -
  have "map strip_cr (filter (\<lambda>r. r \<noteq> []) talk_inputs) = [''PING'', ''QUIT'']" "reply_pong @ reply_bye = talk_replies"
    by code_simp+
  then show ?thesis
    by (simp add: respond_def demo_parses Let_def execute_def conn_state_def demo_conn_def)
qed

lemma talk_pieces:
  "answered talk_replies talk_inputs = [''PING'', ''QUIT'']" "fst (frames [] talk_replies) = [''+PONG'', ''+BYE'']"
  "stream_of [Received (''PING'' @ LF # ''QU''), Received (''IT'' @ [LF])] = wire [''PING'', ''QUIT'']"
  "stream_of [Received ''+PO'', Received (''NG'' @ LF # ''+BYE'' @ [LF])] = talk_replies"
  "reliable (length talk_replies) (replicate 11 (Sent 1))" "reliable (length (wire talk_inputs)) (replicate 20 (Sent 1))"
  by code_simp+

lemma talk_plain: "list_all (\<lambda>r. plain_request r \<and> length r \<le> kMaxLineBytes) talk_inputs"
proof -
  have "plain_request ''PING''" "plain_request []" "plain_request ''QUIT''" by code_simp+
  then show ?thesis by (simp add: kMaxLineBytes_def talk_inputs_def)
qed

theorem client_and_server_agree_witness:
  "(\<exists>b c. serve (\<lambda>_. 0) None (\<lambda>_. demo_exec 0) [Received (''PING'' @ LF # ''QU''), Received (''IT'' @ [LF])] lb_fresh
       (demo_conn\<lparr>cn_sends := replicate 11 (Sent 1)\<rparr>) = Some (ServeReturned, b, c) \<and>
     cn_out c = cn_out demo_conn @ talk_replies \<and> cn_store c = demo_store demo_cache) \<and>
   (\<exists>cl. client_loop talk_inputs
       (client_start (replicate 20 (Sent 1)) [Received ''+PO'', Received (''NG'' @ LF # ''+BYE'' @ [LF])]) = (ClientExit 0, cl) \<and>
     cl_sent cl = wire [''PING'', ''QUIT''] \<and> cl_printed cl = [''+PONG'', ''+BYE''])"
proof -
  have clean: "cache_clean (st_cache (cn_store demo_conn))" by code_simp
  have quiet: "quiet_env None (demo_exec 0)" by (simp add: quiet_env_def demo_exec_def demo_env_def)
  from client_and_server_agree [OF demo_conn_inv clean, of None "\<lambda>_. demo_exec 0", OF quiet talk_plain]
  obtain st out go where
    eq: "session (\<lambda>_. 0) None (\<lambda>_. demo_exec 0) (map strip_cr (filter (\<lambda>r. r \<noteq> []) talk_inputs)) (conn_state demo_conn) =
      Some (st, out, go)"
    and server: "\<forall>sends rs. reliable (length out) sends \<and> list_all got_input rs \<and> stream_of rs = wire (answered out talk_inputs) \<longrightarrow>
      (\<exists>b rest. serve (\<lambda>_. 0) None (\<lambda>_. demo_exec 0) rs lb_fresh (demo_conn\<lparr>cn_sends := sends\<rparr>) =
        Some (if go then ServeBlocked else ServeReturned, b, conn_after (demo_conn\<lparr>cn_sends := sends\<rparr>) st out rest))"
    and client: "\<forall>sends rs. reliable (length (wire talk_inputs)) sends \<and> list_all is_data rs \<and> stream_of rs = out \<longrightarrow>
      (\<exists>cl. client_loop talk_inputs (client_start sends rs) = (ClientExit 0, cl) \<and> cl_sent cl = wire (answered out talk_inputs) \<and>
        cl_printed cl = fst (frames [] out) \<and> length (cl_printed cl) = length (answered out talk_inputs))"
    by (elim exE conjE) (rule that)
  from eq have st: "st = (2, demo_store demo_cache)" "out = talk_replies" "go = False" by (simp_all add: talk_session)
  obtain b rest where "serve (\<lambda>_. 0) None (\<lambda>_. demo_exec 0) [Received (''PING'' @ LF # ''QU''), Received (''IT'' @ [LF])] lb_fresh
      (demo_conn\<lparr>cn_sends := replicate 11 (Sent 1)\<rparr>) =
      Some (ServeReturned, b, conn_after (demo_conn\<lparr>cn_sends := replicate 11 (Sent 1)\<rparr>) (2, demo_store demo_cache) talk_replies rest)"
    using server [unfolded st, rule_format, OF conjI [OF talk_pieces(5) conjI [OF _ talk_pieces(3) [folded talk_pieces(1)]]]] by auto
  moreover obtain cl where "client_loop talk_inputs
       (client_start (replicate 20 (Sent 1)) [Received ''+PO'', Received (''NG'' @ LF # ''+BYE'' @ [LF])]) = (ClientExit 0, cl)"
     "cl_sent cl = wire [''PING'', ''QUIT'']" "cl_printed cl = [''+PONG'', ''+BYE'']"
    using client [unfolded st, rule_format, OF conjI [OF talk_pieces(6) conjI [OF _ talk_pieces(4)]]]
    by (auto simp: talk_pieces(1,2))
  moreover have "cn_out (conn_after (demo_conn\<lparr>cn_sends := replicate 11 (Sent 1)\<rparr>) (2, demo_store demo_cache) talk_replies rest) =
      cn_out demo_conn @ talk_replies" by (simp add: conn_after_def)
  moreover have "cn_store (conn_after (demo_conn\<lparr>cn_sends := replicate 11 (Sent 1)\<rparr>) (2, demo_store demo_cache) talk_replies rest) =
      demo_store demo_cache" by (simp add: conn_after_def)
  ultimately show ?thesis by blast
qed

end
